theory Spec2Isabelle
  imports Main "HOL-Library.Product_Lexorder"
begin

section \<open>Deterministic automata (struct DFA of main.cpp)\<close>

text \<open>
  A DFA state carries its number, its accept flag and the two successors on the
  symbols 0 and 1. The successors, the start and the trap are C++ ints: the value
  -1 means "no transition" (or "no trap"), so they are modelled as \<open>int\<close>.
  The field \<open>id\<close> of the source is called \<open>sid\<close> here, since \<open>id\<close> is the
  identity function of HOL.
\<close>

record DFA_State =
  sid :: int
  accept :: bool
  t0 :: int
  t1 :: int

record DFA =
  states :: "DFA_State list"
  start :: int
  trap :: int

text \<open>An index of an existing element of a vector.\<close>

definition in_range :: "int \<Rightarrow> 'a list \<Rightarrow> bool" where
  "in_range i xs = (0 \<le> i \<and> i < int (length xs))"

section \<open>TrapRemover::remove\_trap\<close>

text \<open>
  The loop over all states rewrites the successors that are equal to the trap
  index; afterwards, when the trap index addresses a state, that state is
  cleared; finally the recorded trap index becomes -1. With no trap recorded
  the function returns at once.
\<close>

definition retarget :: "int \<Rightarrow> DFA_State \<Rightarrow> DFA_State" where
  "retarget t st =
     st\<lparr>t0 := (if t0 st = t then -1 else t0 st),
        t1 := (if t1 st = t then -1 else t1 st)\<rparr>"

definition clear_state :: "DFA_State \<Rightarrow> DFA_State" where
  "clear_state st = st\<lparr>accept := False, t0 := -1, t1 := -1\<rparr>"

definition remove_trap :: "DFA \<Rightarrow> DFA" where
  "remove_trap dfa =
     (let t = trap dfa in
      if t = -1 then dfa
      else
        let sts = map (retarget t) (states dfa);
            sts' = (if 0 \<le> t \<and> t < int (length sts)
                    then sts[nat t := clear_state (sts ! nat t)]
                    else sts)
        in dfa\<lparr>states := sts', trap := -1\<rparr>)"

lemma remove_trap_no_trap: "trap d = -1 \<Longrightarrow> remove_trap d = d"
  by (simp add: remove_trap_def)

lemma remove_trap_length [simp]:
  "length (states (remove_trap d)) = length (states d)"
  by (simp add: remove_trap_def Let_def)

lemma remove_trap_start [simp]: "start (remove_trap d) = start d"
  by (simp add: remove_trap_def Let_def)

lemma remove_trap_trap [simp]: "trap (remove_trap d) = -1"
  by (simp add: remove_trap_def Let_def)

lemma remove_trap_nth_trap:
  assumes "trap d \<noteq> -1" "i < length (states d)" "int i = trap d"
  shows "states (remove_trap d) ! i =
         (states d ! i)\<lparr>accept := False, t0 := -1, t1 := -1\<rparr>"
proof -
  have "nat (trap d) = i" using assms(3) by simp
  then show ?thesis
    using assms(1,2) assms(3)[symmetric]
    by (simp add: remove_trap_def Let_def clear_state_def retarget_def)
qed

lemma remove_trap_nth_other:
  assumes "trap d \<noteq> -1" "i < length (states d)" "int i \<noteq> trap d"
  shows "states (remove_trap d) ! i = retarget (trap d) (states d ! i)"
proof -
  have "0 \<le> trap d \<Longrightarrow> nat (trap d) \<noteq> i" using assms(3) by auto
  then show ?thesis
    using assms(1,2) by (simp add: remove_trap_def Let_def)
qed

text \<open>
  Claim C9. With no trap recorded, \<open>remove_trap\<close> returns its argument unchanged.
  Otherwise the result has trap index -1, the same start index and the same number
  of states; the state at the trap index keeps its number and has its accept flag
  cleared and both successors set to -1; every other state keeps its number and
  accept flag, and each of its successors is -1 when it was the trap index and is
  unchanged when it was not.
\<close>

theorem remove_trap_frame:
  "(trap d = -1 \<longrightarrow> remove_trap d = d) \<and>
   (trap d \<noteq> -1 \<longrightarrow>
      trap (remove_trap d) = -1 \<and>
      start (remove_trap d) = start d \<and>
      length (states (remove_trap d)) = length (states d) \<and>
      (\<forall>i < length (states d).
         sid (states (remove_trap d) ! i) = sid (states d ! i) \<and>
         (int i = trap d \<longrightarrow>
            \<not> accept (states (remove_trap d) ! i) \<and>
            t0 (states (remove_trap d) ! i) = -1 \<and>
            t1 (states (remove_trap d) ! i) = -1) \<and>
         (int i \<noteq> trap d \<longrightarrow>
            accept (states (remove_trap d) ! i) = accept (states d ! i) \<and>
            t0 (states (remove_trap d) ! i) =
              (if t0 (states d ! i) = trap d then -1 else t0 (states d ! i)) \<and>
            t1 (states (remove_trap d) ! i) =
              (if t1 (states d ! i) = trap d then -1 else t1 (states d ! i)))))"
proof (intro conjI impI allI)
  show "remove_trap d = d" if "trap d = -1"
    using that by (rule remove_trap_no_trap)
next
  fix i
  assume t: "trap d \<noteq> -1" and i: "i < length (states d)"
  show "sid (states (remove_trap d) ! i) = sid (states d ! i)"
  proof (cases "int i = trap d")
    case True
    then show ?thesis using remove_trap_nth_trap[OF t i] by simp
  next
    case False
    then show ?thesis using remove_trap_nth_other[OF t i] by (simp add: retarget_def)
  qed
  show "\<not> accept (states (remove_trap d) ! i)" if "int i = trap d"
    using remove_trap_nth_trap[OF t i that] by simp
  show "t0 (states (remove_trap d) ! i) = -1" if "int i = trap d"
    using remove_trap_nth_trap[OF t i that] by simp
  show "t1 (states (remove_trap d) ! i) = -1" if "int i = trap d"
    using remove_trap_nth_trap[OF t i that] by simp
  show "accept (states (remove_trap d) ! i) = accept (states d ! i)" if "int i \<noteq> trap d"
    using remove_trap_nth_other[OF t i that] by (simp add: retarget_def)
  show "t0 (states (remove_trap d) ! i) =
          (if t0 (states d ! i) = trap d then -1 else t0 (states d ! i))" if "int i \<noteq> trap d"
    using remove_trap_nth_other[OF t i that] by (simp add: retarget_def)
  show "t1 (states (remove_trap d) ! i) =
          (if t1 (states d ! i) = trap d then -1 else t1 (states d ! i))" if "int i \<noteq> trap d"
    using remove_trap_nth_other[OF t i that] by (simp add: retarget_def)
qed simp_all

text \<open>
  The theorem at a three-state automaton whose trap is state 2: the transitions
  into state 2 are cut, state 2 is cleared, the rest stays.
\<close>

theorem remove_trap_frame_witness:
  "remove_trap
     \<lparr>states = [\<lparr>sid = 0, accept = False, t0 = 1, t1 = 2\<rparr>,
                \<lparr>sid = 1, accept = True, t0 = 2, t1 = 2\<rparr>,
                \<lparr>sid = 2, accept = False, t0 = 2, t1 = 2\<rparr>],
      start = 0, trap = 2\<rparr>
   = \<lparr>states = [\<lparr>sid = 0, accept = False, t0 = 1, t1 = -1\<rparr>,
                \<lparr>sid = 1, accept = True, t0 = -1, t1 = -1\<rparr>,
                \<lparr>sid = 2, accept = False, t0 = -1, t1 = -1\<rparr>],
      start = 0, trap = -1\<rparr>
   \<and> remove_trap \<lparr>states = [\<lparr>sid = 0, accept = True, t0 = 0, t1 = 0\<rparr>],
        start = 0, trap = -1\<rparr>
     = \<lparr>states = [\<lparr>sid = 0, accept = True, t0 = 0, t1 = 0\<rparr>], start = 0, trap = -1\<rparr>"
  using remove_trap_frame
    [of "\<lparr>states = [\<lparr>sid = 0, accept = True, t0 = 0, t1 = 0\<rparr>], start = 0, trap = -1\<rparr>"]
  by (simp add: remove_trap_def retarget_def clear_state_def)

section \<open>The renderer (class DFAPrinter)\<close>

text \<open>
  State counts stay far below \<open>2^31\<close>, so the C++ ints that count or number
  states are modelled by unbounded integers. An access to a vector outside its
  bounds is undefined behaviour in the source; the model returns \<open>None\<close> there.
\<close>

subsection \<open>std::to\_string and std::stoi on decimal numerals\<close>

definition digit_char :: "nat \<Rightarrow> char" where
  "digit_char k = ''0123456789'' ! k"

function digits :: "nat \<Rightarrow> string" where
  "digits k = (if k < 10 then [digit_char k] else digits (k div 10) @ [digit_char (k mod 10)])"
  by pat_completeness auto
termination
  by (relation "measure (\<lambda>k. k)") auto

definition to_string :: "int \<Rightarrow> string" where
  "to_string i = (if i < 0 then CHR ''-'' # digits (nat (- i)) else digits (nat i))"

definition digit_val :: "char \<Rightarrow> nat option" where
  "digit_val c =
     map_of [(CHR ''0'', 0), (CHR ''1'', 1), (CHR ''2'', 2), (CHR ''3'', 3), (CHR ''4'', 4),
             (CHR ''5'', 5), (CHR ''6'', 6), (CHR ''7'', 7), (CHR ''8'', 8), (CHR ''9'', 9)] c"

definition is_digit :: "char \<Rightarrow> bool" where
  "is_digit c = (digit_val c \<noteq> None)"

definition is_space :: "char \<Rightarrow> bool" where
  "is_space c = (c \<in> set [CHR '' '', CHR 0x09, CHR 0x0A, CHR 0x0B, CHR 0x0C, CHR 0x0D])"

text \<open>
  \<open>stoi\<close> skips leading white space, reads an optional sign and the longest run
  of decimal digits after it; with no digit it throws (here \<open>None\<close>).
\<close>

definition stoi :: "string \<Rightarrow> int option" where
  "stoi s =
     (let s1 = dropWhile is_space s;
          neg = (s1 \<noteq> [] \<and> hd s1 = CHR ''-'');
          s2 = (if s1 \<noteq> [] \<and> (hd s1 = CHR ''-'' \<or> hd s1 = CHR ''+'') then tl s1 else s1);
          ds = takeWhile is_digit s2
      in if ds = [] then None
         else Some ((if neg then -1 else 1) *
                    int (fold (\<lambda>c a. 10 * a + the (digit_val c)) ds 0)))"

subsection \<open>name\_states: breadth-first naming of the reachable states\<close>

text \<open>
  The state of the loop: the queue, the visited flags, the names and the next
  name number. \<open>visit\<close> is the body of the inner loop for one successor \<open>v\<close>.
\<close>

type_synonym bfs = "int list \<times> bool list \<times> string list \<times> int"

definition visit :: "DFA \<Rightarrow> int \<Rightarrow> bfs \<Rightarrow> bfs option" where
  "visit d v s =
     (case s of (Q, visited, qname, cnt) \<Rightarrow>
        if 0 \<le> v \<and> v < int (length (states d)) then
          (if nat v < length visited then
             (if \<not> visited ! nat v then
                (if nat v < length qname
                 then Some (Q @ [v], visited[nat v := True],
                            qname[nat v := ''q'' @ to_string cnt], cnt + 1)
                 else None)
              else Some s)
           else None)
        else Some s)"

definition bfs_measure :: "bfs \<Rightarrow> nat" where
  "bfs_measure s = (case s of (Q, visited, qname, cnt) \<Rightarrow>
                      2 * length (filter Not visited) + length Q)"

lemma filter_Not_update:
  "i < length vs \<Longrightarrow> \<not> vs ! i \<Longrightarrow>
   Suc (length (filter Not (vs[i := True]))) = length (filter Not vs)"
proof (induction vs arbitrary: i)
  case Nil
  then show ?case by simp
next
  case (Cons a vs)
  then show ?case by (cases i) auto
qed

lemma visit_measure:
  "visit d v s = Some s' \<Longrightarrow> bfs_measure s' \<le> bfs_measure s"
  using filter_Not_update
  by (fastforce simp: visit_def bfs_measure_def split: prod.splits if_splits)

function bfs_loop :: "DFA \<Rightarrow> bfs \<Rightarrow> string list option" where
  "bfs_loop d (Q, visited, qname, cnt) =
     (case Q of
        [] \<Rightarrow> Some qname
      | u # Q' \<Rightarrow>
          if in_range u (states d) then
            (case visit d (t0 (states d ! nat u)) (Q', visited, qname, cnt) of
               None \<Rightarrow> None
             | Some s1 \<Rightarrow>
                 (case visit d (t1 (states d ! nat u)) s1 of
                    None \<Rightarrow> None
                  | Some s2 \<Rightarrow> bfs_loop d s2))
          else None)"
  by pat_completeness auto
termination
proof (relation "measure (\<lambda>(d, s). bfs_measure s)", goal_cases)
  case 1
  show ?case by simp
next
  case (2 d Q visited qname cnt u Q' s1 s2)
  have "bfs_measure s2 \<le> bfs_measure s1"
    using 2 visit_measure by blast
  also have "\<dots> \<le> bfs_measure (Q', visited, qname, cnt)"
    using 2 visit_measure by metis
  also have "\<dots> < bfs_measure (Q, visited, qname, cnt)"
    using 2 by (simp add: bfs_measure_def)
  finally show ?case by simp
qed

definition name_states :: "DFA \<Rightarrow> string list option" where
  "name_states d =
     (let n = length (states d);
          qname = replicate n '''';
          visited = replicate n False
      in if 0 \<le> start d \<and> start d < int n
         then bfs_loop d ([start d], visited[nat (start d) := True],
                          qname[nat (start d) := ''q0''], 1)
         else Some qname)"

subsection \<open>get\_order, the table and the grammar\<close>

text \<open>
  \<open>get_order\<close> collects (name number, state) for every named state and sorts the
  pairs; \<open>stoi\<close> on a name without digits throws.
\<close>

fun collect_order :: "string list \<Rightarrow> nat \<Rightarrow> (int \<times> int) list option" where
  "collect_order [] i = Some []"
| "collect_order (nm # rest) i =
     (if nm \<noteq> [] \<and> hd nm = CHR ''q'' then
        (case stoi (tl nm) of
           None \<Rightarrow> None
         | Some idx \<Rightarrow> map_option (\<lambda>r. (idx, int i) # r) (collect_order rest (Suc i)))
      else collect_order rest (Suc i))"

definition get_order :: "string list \<Rightarrow> (int \<times> int) list option" where
  "get_order qname = map_option sort (collect_order qname 0)"

text \<open>
  \<open>print_transition\<close> reads \<open>qname[tid]\<close> for every \<open>tid\<close> that is neither -1 nor
  beyond the vector: a \<open>tid\<close> below -1 is an access outside the bounds.
\<close>

definition print_transition :: "int \<Rightarrow> string list \<Rightarrow> string option" where
  "print_transition tid qname =
     (if tid = -1 \<or> tid \<ge> int (length qname) then Some ''N''
      else if tid < 0 then None
      else if qname ! nat tid = [] then Some ''N''
      else Some (qname ! nat tid))"

definition table_row :: "DFA \<Rightarrow> string list \<Rightarrow> int \<Rightarrow> string option" where
  "table_row d qname i =
     (if in_range i (states d) \<and> in_range i qname then
        (case print_transition (t0 (states d ! nat i)) qname of
           None \<Rightarrow> None
         | Some c0 \<Rightarrow>
            (case print_transition (t1 (states d ! nat i)) qname of
               None \<Rightarrow> None
             | Some c1 \<Rightarrow>
                 Some ((if i = start d then ''(s)'' else '''') @
                       (if accept (states d ! nat i) then ''(e)'' else '''') @
                       qname ! nat i @ '' '' @ c0 @ '' '' @ c1)))
      else None)"

text \<open>
  \<open>symbol_productions\<close> is one round of the loop of \<open>process_symbol\<close>: the pair of
  the lines it appends to \<open>productions\<close> and to \<open>production0\<close>.
\<close>

definition symbol_productions ::
  "DFA \<Rightarrow> string list \<Rightarrow> int \<Rightarrow> int \<Rightarrow> (string list \<times> string list) option" where
  "symbol_productions d qname stid c =
     (if in_range stid (states d) \<and> in_range stid qname then
        (let nxt = (if c = 0 then t0 (states d ! nat stid) else t1 (states d ! nat stid)) in
         if nxt = -1 \<or> nxt \<ge> int (length qname) then Some ([], [])
         else if nxt < 0 then None
         else if qname ! nat nxt = [] then Some ([], [])
         else if \<not> in_range nxt (states d) then None
         else
           (let lhs = qname ! nat stid;
                next_is_accept = accept (states d ! nat nxt)
            in Some
              ((if \<not> (next_is_accept \<and> t0 (states d ! nat nxt) = -1
                                      \<and> t1 (states d ! nat nxt) = -1)
                then [lhs @ ''->'' @ to_string c @ qname ! nat nxt] else []),
               (if next_is_accept then [lhs @ ''->'' @ to_string c] else []))))
      else None)"

definition process_symbol :: "DFA \<Rightarrow> string list \<Rightarrow> int \<Rightarrow> string list option" where
  "process_symbol d qname stid =
     (case symbol_productions d qname stid 0 of
        None \<Rightarrow> None
      | Some (p0, e0) \<Rightarrow>
          (case symbol_productions d qname stid 1 of
             None \<Rightarrow> None
           | Some (p1, e1) \<Rightarrow> Some (p0 @ p1 @ e0 @ e1)))"

fun those_concat :: "'a list option list \<Rightarrow> 'a list option" where
  "those_concat [] = Some []"
| "those_concat (None # xs) = None"
| "those_concat (Some x # xs) = map_option (\<lambda>r. x @ r) (those_concat xs)"

text \<open>The lines of the transition table (after the header) and of the grammar.\<close>

definition table_lines :: "DFA \<Rightarrow> string list \<Rightarrow> (int \<times> int) list \<Rightarrow> string list option" where
  "table_lines d qname order =
     those_concat (map (\<lambda>pr. map_option (\<lambda>l. [l]) (table_row d qname (snd pr))) order)"

definition grammar_lines :: "DFA \<Rightarrow> string list \<Rightarrow> (int \<times> int) list \<Rightarrow> string list option" where
  "grammar_lines d qname order =
     those_concat (map (\<lambda>pr. process_symbol d qname (snd pr)) order)"

text \<open>
  \<open>print_and_convert_to_RG\<close>: the header, the table, an empty line, the grammar.
\<close>

definition print_and_convert_to_RG :: "DFA \<Rightarrow> string list option" where
  "print_and_convert_to_RG d =
     (case name_states d of
        None \<Rightarrow> None
      | Some qname \<Rightarrow>
          (case get_order qname of
             None \<Rightarrow> None
           | Some order \<Rightarrow>
               (case table_lines d qname order of
                  None \<Rightarrow> None
                | Some tbl \<Rightarrow>
                    (case grammar_lines d qname order of
                       None \<Rightarrow> None
                     | Some gl \<Rightarrow> Some ([''      0 1''] @ tbl @ [''''] @ gl)))))"

declare digits.simps [simp del]
declare bfs_loop.simps [simp del]

subsection \<open>Numerals are read back\<close>

lemma digit_val_digit_char: "k < 10 \<Longrightarrow> digit_val (digit_char k) = Some k"
proof -
  assume "k < 10"
  then have "k \<in> {0, 1, 2, 3, 4, 5, 6, 7, 8, 9}" by auto
  then show ?thesis
    by (auto simp: digit_val_def digit_char_def)
qed

lemma is_digit_digit_char: "k < 10 \<Longrightarrow> is_digit (digit_char k)"
  by (simp add: is_digit_def digit_val_digit_char)

lemma is_digit_not_space: "is_digit c \<Longrightarrow> \<not> is_space c"
  by (auto simp: is_digit_def digit_val_def is_space_def split: if_splits)

lemma is_digit_not_sign: "is_digit c \<Longrightarrow> c \<noteq> CHR ''-'' \<and> c \<noteq> CHR ''+''"
  by (auto simp: is_digit_def digit_val_def split: if_splits)

lemma digits_all_digit: "\<forall>c \<in> set (digits k). is_digit c"
proof (induction k rule: digits.induct)
  case (1 k)
  show ?case
  proof (cases "k < 10")
    case True
    then show ?thesis by (subst digits.simps) (simp add: is_digit_digit_char)
  next
    case False
    then show ?thesis using 1 by (subst digits.simps) (simp add: is_digit_digit_char)
  qed
qed

lemma digits_nonempty: "digits k \<noteq> []"
  by (subst digits.simps) simp

lemma digits_fold:
  "fold (\<lambda>c a. 10 * a + the (digit_val c)) (digits k) 0 = k"
proof (induction k rule: digits.induct)
  case (1 k)
  show ?case
  proof (cases "k < 10")
    case True
    then show ?thesis by (subst digits.simps) (simp add: digit_val_digit_char)
  next
    case False
    then show ?thesis using 1 by (subst digits.simps) (simp add: digit_val_digit_char)
  qed
qed

lemma stoi_digits: "stoi (digits k) = Some (int k)"
proof -
  obtain c cs where cs: "digits k = c # cs"
    using digits_nonempty by (cases "digits k") auto
  have dig: "\<forall>x \<in> set (c # cs). is_digit x"
    using digits_all_digit[of k] cs by simp
  then have c: "is_digit c" by simp
  have 1: "dropWhile is_space (c # cs) = c # cs"
    using is_digit_not_space[OF c] by simp
  have 2: "takeWhile is_digit (c # cs) = c # cs"
    using dig by (metis takeWhile_eq_all_conv)
  have 3: "fold (\<lambda>c a. 10 * a + the (digit_val c)) (c # cs) 0 = k"
    using digits_fold[of k] cs by simp
  show ?thesis
    unfolding stoi_def cs 1 Let_def
    using is_digit_not_sign[OF c] 2 3 by simp
qed

subsection \<open>Reachable states\<close>

text \<open>
  A state is reachable when the start state leads to it along transitions whose
  targets are existing states (a target of -1 is no transition).
\<close>

inductive reachable :: "DFA \<Rightarrow> int \<Rightarrow> bool" for d :: DFA where
  reach_start: "in_range (start d) (states d) \<Longrightarrow> reachable d (start d)"
| reach_t0: "reachable d u \<Longrightarrow> v = t0 (states d ! nat u) \<Longrightarrow> in_range v (states d)
             \<Longrightarrow> reachable d v"
| reach_t1: "reachable d u \<Longrightarrow> v = t1 (states d ! nat u) \<Longrightarrow> in_range v (states d)
             \<Longrightarrow> reachable d v"

lemma reachable_in_range: "reachable d u \<Longrightarrow> in_range u (states d)"
  by (induction rule: reachable.induct) auto

subsection \<open>Invariants of the naming loop\<close>

definition state_name :: "nat \<Rightarrow> string" where
  "state_name k = CHR ''q'' # digits k"

lemma state_name_inj: "state_name j = state_name k \<Longrightarrow> j = k"
proof -
  assume "state_name j = state_name k"
  then have "stoi (digits j) = stoi (digits k)" by (simp add: state_name_def)
  then show ?thesis by (simp add: stoi_digits)
qed

lemma to_string_nat: "0 \<le> c \<Longrightarrow> CHR ''q'' # to_string c = state_name (nat c)"
  by (simp add: to_string_def state_name_def)

definition inv_shape :: "DFA \<Rightarrow> bfs \<Rightarrow> bool" where
  "inv_shape d s = (case s of (Q, vis, qn, cnt) \<Rightarrow>
     length vis = length (states d) \<and> length qn = length (states d) \<and> 0 < cnt \<and>
     (\<forall>u \<in> set Q. in_range u (states d) \<and> vis ! nat u))"

definition inv_names :: "DFA \<Rightarrow> bfs \<Rightarrow> bool" where
  "inv_names d s = (case s of (Q, vis, qn, cnt) \<Rightarrow>
     (\<forall>i < length (states d). vis ! i \<longleftrightarrow> qn ! i \<noteq> []) \<and>
     (\<forall>i < length (states d). qn ! i \<noteq> [] \<longrightarrow> (\<exists>k < nat cnt. qn ! i = state_name k)) \<and>
     (\<forall>i < length (states d). \<forall>j < length (states d).
         qn ! i \<noteq> [] \<longrightarrow> qn ! i = qn ! j \<longrightarrow> i = j))"

definition inv_reach :: "DFA \<Rightarrow> bfs \<Rightarrow> bool" where
  "inv_reach d s = (case s of (Q, vis, qn, cnt) \<Rightarrow>
     (\<forall>i < length (states d). vis ! i \<longrightarrow> reachable d (int i)))"

definition succ_seen :: "DFA \<Rightarrow> bool list \<Rightarrow> nat \<Rightarrow> bool" where
  "succ_seen d vis i =
     ((in_range (t0 (states d ! i)) (states d) \<longrightarrow> vis ! nat (t0 (states d ! i))) \<and>
      (in_range (t1 (states d ! i)) (states d) \<longrightarrow> vis ! nat (t1 (states d ! i))))"

definition inv_closed :: "DFA \<Rightarrow> bfs \<Rightarrow> bool" where
  "inv_closed d s = (case s of (Q, vis, qn, cnt) \<Rightarrow>
     in_range (start d) (states d) \<and> vis ! nat (start d) \<and> qn ! nat (start d) = ''q0'' \<and>
     (\<forall>i < length (states d). vis ! i \<longrightarrow> int i \<notin> set Q \<longrightarrow> succ_seen d vis i))"

text \<open>What one call of \<open>visit\<close> does, when the vectors have the right lengths.\<close>

lemma visit_cases:
  assumes "length vis = length (states d)" "length qn = length (states d)"
  shows "(visit d v (Q, vis, qn, cnt) = Some (Q, vis, qn, cnt) \<and>
            (\<not> in_range v (states d) \<or> vis ! nat v)) \<or>
         (visit d v (Q, vis, qn, cnt) =
            Some (Q @ [v], vis[nat v := True], qn[nat v := ''q'' @ to_string cnt], cnt + 1) \<and>
            in_range v (states d) \<and> \<not> vis ! nat v)"
  using assms by (auto simp: visit_def in_range_def)

lemma visit_shape:
  assumes "inv_shape d s"
  shows "\<exists>s'. visit d v s = Some s' \<and> inv_shape d s'"
proof -
  obtain Q vis qn cnt where s: "s = (Q, vis, qn, cnt)" by (cases s) auto
  have len: "length vis = length (states d)" "length qn = length (states d)"
    using assms by (auto simp: inv_shape_def s)
  show ?thesis
    using visit_cases[OF len, of v Q cnt] assms
    unfolding s inv_shape_def
    by (auto simp: in_range_def nth_list_update)
qed

lemma visit_names:
  assumes "inv_shape d s" "inv_names d s" "visit d v s = Some s'"
  shows "inv_names d s'"
proof -
  obtain Q vis qn cnt where s: "s = (Q, vis, qn, cnt)" by (cases s) auto
  have len: "length vis = length (states d)" "length qn = length (states d)" and cnt: "0 < cnt"
    using assms(1) by (auto simp: inv_shape_def s)
  note nm = assms(2)[unfolded s inv_names_def, simplified]
  from visit_cases[OF len, of v Q cnt] assms(3)
  consider "s' = s"
    | "s' = (Q @ [v], vis[nat v := True], qn[nat v := ''q'' @ to_string cnt], cnt + 1)"
      "in_range v (states d)" "\<not> vis ! nat v"
    unfolding s by auto
  then show ?thesis
  proof cases
    case 1
    then show ?thesis using assms(2) by simp
  next
    case 2
    let ?n = "length (states d)"
    have v: "nat v < ?n" using 2(2) by (auto simp: in_range_def)
    have new: "''q'' @ to_string cnt = state_name (nat cnt)"
      using cnt to_string_nat[of cnt] by simp
    have fresh: "qn ! j \<noteq> state_name (nat cnt)" if jn: "j < ?n" for j
    proof
      assume eq: "qn ! j = state_name (nat cnt)"
      then have "qn ! j \<noteq> []" by (simp add: state_name_def)
      then obtain k where "k < nat cnt" "qn ! j = state_name k" using nm jn by blast
      then show False using eq state_name_inj by fastforce
    qed
    have a: "\<forall>i < ?n. (vis[nat v := True]) ! i \<longleftrightarrow> (qn[nat v := state_name (nat cnt)]) ! i \<noteq> []"
      using nm len v by (auto simp: nth_list_update state_name_def)
    have b: "\<forall>i < ?n. (qn[nat v := state_name (nat cnt)]) ! i \<noteq> [] \<longrightarrow>
               (\<exists>k < nat (cnt + 1). (qn[nat v := state_name (nat cnt)]) ! i = state_name k)"
    proof (intro allI impI)
      fix i assume i: "i < ?n" and ne: "(qn[nat v := state_name (nat cnt)]) ! i \<noteq> []"
      show "\<exists>k < nat (cnt + 1). (qn[nat v := state_name (nat cnt)]) ! i = state_name k"
      proof (cases "i = nat v")
        case True
        then show ?thesis using len v cnt by (intro exI[of _ "nat cnt"]) auto
      next
        case False
        then have "qn ! i \<noteq> []" using ne by simp
        then obtain k where "k < nat cnt" "qn ! i = state_name k" using nm i by blast
        then show ?thesis using False cnt by (intro exI[of _ k]) auto
      qed
    qed
    have c: "\<forall>i < ?n. \<forall>j < ?n. (qn[nat v := state_name (nat cnt)]) ! i \<noteq> [] \<longrightarrow>
               (qn[nat v := state_name (nat cnt)]) ! i = (qn[nat v := state_name (nat cnt)]) ! j
               \<longrightarrow> i = j"
    proof (intro allI impI)
      fix i j assume i: "i < ?n" and j: "j < ?n"
        and ne: "(qn[nat v := state_name (nat cnt)]) ! i \<noteq> []"
        and eq: "(qn[nat v := state_name (nat cnt)]) ! i = (qn[nat v := state_name (nat cnt)]) ! j"
      show "i = j"
      proof (cases "i = nat v"; cases "j = nat v")
        assume "i = nat v" "j \<noteq> nat v"
        then show ?thesis using eq fresh[OF j] len v by simp
      next
        assume "i \<noteq> nat v" "j = nat v"
        then show ?thesis using eq fresh[OF i] len v by simp
      next
        assume "i \<noteq> nat v" "j \<noteq> nat v"
        then show ?thesis using eq ne nm i j by simp
      qed simp
    qed
    show ?thesis
      unfolding 2(1) inv_names_def new using a b c by simp
  qed
qed

lemma visit_reach:
  assumes "inv_shape d s" "inv_reach d s" "visit d v s = Some s'"
    and "in_range v (states d) \<Longrightarrow> reachable d v"
  shows "inv_reach d s'"
proof -
  obtain Q vis qn cnt where s: "s = (Q, vis, qn, cnt)" by (cases s) auto
  have len: "length vis = length (states d)" "length qn = length (states d)"
    using assms(1) by (auto simp: inv_shape_def s)
  show ?thesis
    using visit_cases[OF len, of v Q cnt] assms(2,3,4) len
    unfolding s inv_reach_def
    by (auto simp: nth_list_update in_range_def split: if_splits)
qed

lemma visit_mono:
  assumes "inv_shape d (Q, vis, qn, cnt)" "visit d v (Q, vis, qn, cnt) = Some (Q2, vis2, qn2, cnt2)"
  shows "set Q \<subseteq> set Q2 \<and> (\<forall>i < length (states d). vis ! i \<longrightarrow> vis2 ! i) \<and>
         (in_range v (states d) \<longrightarrow> vis2 ! nat v) \<and>
         (\<forall>i < length (states d). vis2 ! i \<longrightarrow> \<not> vis ! i \<longrightarrow> int i \<in> set Q2)"
proof -
  have len: "length vis = length (states d)" "length qn = length (states d)"
    using assms(1) by (auto simp: inv_shape_def)
  show ?thesis
    using visit_cases[OF len, of v Q cnt] assms(2) len
    by (auto simp: nth_list_update in_range_def split: if_splits)
qed

definition bfs_inv :: "DFA \<Rightarrow> bfs \<Rightarrow> bool" where
  "bfs_inv d s = (inv_shape d s \<and> inv_names d s \<and> inv_reach d s \<and> inv_closed d s)"

lemma bfs_step:
  assumes "bfs_inv d (u # Q', vis, qn, cnt)"
  shows "in_range u (states d) \<and>
         (\<exists>s1 s2. visit d (t0 (states d ! nat u)) (Q', vis, qn, cnt) = Some s1 \<and>
                  visit d (t1 (states d ! nat u)) s1 = Some s2 \<and> bfs_inv d s2)"
proof -
  let ?s = "(Q', vis, qn, cnt)"
  let ?n = "length (states d)"
  have sh: "inv_shape d (u # Q', vis, qn, cnt)" and nm: "inv_names d (u # Q', vis, qn, cnt)"
    and re: "inv_reach d (u # Q', vis, qn, cnt)" and cl: "inv_closed d (u # Q', vis, qn, cnt)"
    using assms by (auto simp: bfs_inv_def)
  have u: "in_range u (states d)" "vis ! nat u"
    using sh by (auto simp: inv_shape_def)
  then have un: "nat u < ?n" "int (nat u) = u" by (auto simp: in_range_def)
  have ru: "reachable d u"
    using re u un unfolding inv_reach_def by (metis (mono_tags, lifting) case_prod_conv)
  have sh0: "inv_shape d ?s" using sh by (auto simp: inv_shape_def)
  have nm0: "inv_names d ?s" using nm by (auto simp: inv_names_def)
  have re0: "inv_reach d ?s" using re by (auto simp: inv_reach_def)
  obtain s1 where s1: "visit d (t0 (states d ! nat u)) ?s = Some s1" and sh1: "inv_shape d s1"
    using visit_shape[OF sh0] by blast
  obtain s2 where s2: "visit d (t1 (states d ! nat u)) s1 = Some s2" and sh2: "inv_shape d s2"
    using visit_shape[OF sh1] by blast
  have nm1: "inv_names d s1" by (rule visit_names[OF sh0 nm0 s1])
  have nm2: "inv_names d s2" by (rule visit_names[OF sh1 nm1 s2])
  have re1: "inv_reach d s1"
    by (rule visit_reach[OF sh0 re0 s1]) (rule reach_t0[OF ru refl])
  have re2: "inv_reach d s2"
    by (rule visit_reach[OF sh1 re1 s2]) (rule reach_t1[OF ru refl])
  obtain Q1 vis1 qn1 cnt1 where e1: "s1 = (Q1, vis1, qn1, cnt1)" by (cases s1) auto
  obtain Q2 vis2 qn2 cnt2 where e2: "s2 = (Q2, vis2, qn2, cnt2)" by (cases s2) auto
  note m1 = visit_mono[OF sh0 s1[unfolded e1]]
  note m2 = visit_mono[OF sh1[unfolded e1] s2[unfolded e1 e2]]
  have len: "length vis = ?n" "length qn = ?n" "length vis1 = ?n" "length qn1 = ?n"
    using sh0 sh1 by (auto simp: inv_shape_def e1)
  have st: "in_range (start d) (states d)" using cl by (simp add: inv_closed_def)
  have q1: "vis1 ! nat (start d) \<and> qn1 ! nat (start d) = ''q0''"
    using visit_cases[OF len(1,2), of "t0 (states d ! nat u)" Q' cnt] s1 cl len
    unfolding e1 inv_closed_def
    by (auto simp: nth_list_update in_range_def split: if_splits)
  have q2: "vis2 ! nat (start d) \<and> qn2 ! nat (start d) = ''q0''"
    using visit_cases[OF len(3,4), of "t1 (states d ! nat u)" Q1 cnt1] s2 q1 len st
    unfolding e1 e2
    by (auto simp: nth_list_update in_range_def split: if_splits)
  have cl2: "succ_seen d vis2 i" if i: "i < ?n" and vi: "vis2 ! i" and nq: "int i \<notin> set Q2" for i
  proof -
    have nq': "int i \<notin> set Q1" "int i \<notin> set Q'" using nq m1 m2 by auto
    then have v0: "vis ! i" using m1 m2 i vi nq by blast
    show ?thesis
    proof (cases "int i = u")
      case True
      then have "nat u = i" by simp
      then show ?thesis
        using m1 m2 unfolding succ_seen_def by (auto simp: in_range_def)
    next
      case False
      then have "succ_seen d vis i"
        using cl i v0 nq'(2) by (auto simp: inv_closed_def)
      then show ?thesis
        using m1 m2 unfolding succ_seen_def by (auto simp: in_range_def)
    qed
  qed
  have "inv_closed d s2"
    unfolding e2 inv_closed_def using q2 cl2 st by simp
  then show ?thesis
    using u s1 s2 sh2 nm2 re2 unfolding bfs_inv_def by blast
qed

lemma bfs_loop_inv:
  "bfs_inv d s \<Longrightarrow>
   \<exists>vis qn cnt. bfs_loop d s = Some qn \<and> bfs_inv d ([], vis, qn, cnt)"
proof (induction d s rule: bfs_loop.induct)
  case (1 d Q visited qname cnt)
  show ?case
  proof (cases Q)
    case Nil
    then show ?thesis using 1(2) by (subst bfs_loop.simps) auto
  next
    case (Cons u Q')
    from bfs_step[OF 1(2)[unfolded Cons]]
    obtain s1 s2 where u: "in_range u (states d)"
      and s1: "visit d (t0 (states d ! nat u)) (Q', visited, qname, cnt) = Some s1"
      and s2: "visit d (t1 (states d ! nat u)) s1 = Some s2" and inv: "bfs_inv d s2"
      by blast
    have "\<exists>vis qn cnt. bfs_loop d s2 = Some qn \<and> bfs_inv d ([], vis, qn, cnt)"
      by (rule 1(1)[OF Cons u s1 s2 inv])
    then show ?thesis
      using Cons u s1 s2 by (subst bfs_loop.simps) simp
  qed
qed

lemma closed_reachable:
  assumes "bfs_inv d ([], vis, qn, cnt)" "reachable d v"
  shows "vis ! nat v"
  using assms(2)
proof (induction rule: reachable.induct)
  case reach_start
  then show ?case using assms(1) by (simp add: bfs_inv_def inv_closed_def)
next
  case (reach_t0 u v)
  have "nat u < length (states d)"
    using reachable_in_range[OF reach_t0(1)] by (auto simp: in_range_def)
  then have "succ_seen d vis (nat u)"
    using assms(1) reach_t0(4) by (simp add: bfs_inv_def inv_closed_def)
  then show ?case using reach_t0(2,3) by (simp add: succ_seen_def)
next
  case (reach_t1 u v)
  have "nat u < length (states d)"
    using reachable_in_range[OF reach_t1(1)] by (auto simp: in_range_def)
  then have "succ_seen d vis (nat u)"
    using assms(1) reach_t1(4) by (simp add: bfs_inv_def inv_closed_def)
  then show ?case using reach_t1(2,3) by (simp add: succ_seen_def)
qed

text \<open>
  The names computed by \<open>name_states\<close>: the vector has one entry per state; a state
  has a name exactly when it is reachable; a name is the letter q and a decimal
  numeral; two states never share a name; the start state is q0.
\<close>

definition names_ok :: "DFA \<Rightarrow> string list \<Rightarrow> bool" where
  "names_ok d qn =
     (length qn = length (states d) \<and>
      (\<forall>i < length (states d). qn ! i \<noteq> [] \<longleftrightarrow> reachable d (int i)) \<and>
      (\<forall>i < length (states d). qn ! i \<noteq> [] \<longrightarrow> (\<exists>k. qn ! i = state_name k)) \<and>
      (\<forall>i < length (states d). \<forall>j < length (states d).
          qn ! i \<noteq> [] \<longrightarrow> qn ! i = qn ! j \<longrightarrow> i = j) \<and>
      (in_range (start d) (states d) \<longrightarrow> qn ! nat (start d) = ''q0''))"

lemma name_states_ok: "\<exists>qn. name_states d = Some qn \<and> names_ok d qn"
proof (cases "in_range (start d) (states d)")
  case False
  have "\<not> reachable d v" for v
  proof
    assume "reachable d v"
    then show False using False by (induction rule: reachable.induct) auto
  qed
  then show ?thesis
    using False by (auto simp: name_states_def names_ok_def in_range_def Let_def)
next
  case True
  let ?n = "length (states d)"
  let ?s = "([start d], (replicate ?n False)[nat (start d) := True],
             (replicate ?n '''')[nat (start d) := ''q0''], 1::int)"
  have sn: "nat (start d) < ?n" using True by (auto simp: in_range_def)
  have q0: "''q0'' = state_name 0"
    by (simp add: state_name_def digits.simps[of 0] digit_char_def)
  have "inv_shape d ?s" using True sn by (simp add: inv_shape_def)
  moreover have "inv_names d ?s"
    using sn unfolding inv_names_def
    by (auto simp: nth_list_update q0 state_name_def intro: exI[of _ 0])
  moreover have "inv_reach d ?s"
    using sn True reach_start[of d] unfolding inv_reach_def
    by (auto simp: nth_list_update in_range_def split: if_splits)
  moreover have "inv_closed d ?s"
    using sn True unfolding inv_closed_def
    by (auto simp: nth_list_update in_range_def split: if_splits)
  ultimately have "bfs_inv d ?s" by (simp add: bfs_inv_def)
  from bfs_loop_inv[OF this] obtain vis qn cnt
    where r: "bfs_loop d ?s = Some qn" and inv: "bfs_inv d ([], vis, qn, cnt)" by blast
  have ns: "name_states d = Some qn"
    using r True by (simp add: name_states_def in_range_def Let_def)
  have len: "length vis = ?n" "length qn = ?n"
    using inv by (auto simp: bfs_inv_def inv_shape_def)
  have a: "qn ! i \<noteq> [] \<longleftrightarrow> reachable d (int i)" if i: "i < ?n" for i
  proof
    assume "qn ! i \<noteq> []"
    then show "reachable d (int i)"
      using inv i by (auto simp: bfs_inv_def inv_names_def inv_reach_def)
  next
    assume "reachable d (int i)"
    from closed_reachable[OF inv this] show "qn ! i \<noteq> []"
      using inv i by (auto simp: bfs_inv_def inv_names_def)
  qed
  have b: "\<forall>i < ?n. qn ! i \<noteq> [] \<longrightarrow> (\<exists>k. qn ! i = state_name k)"
    using inv unfolding bfs_inv_def inv_names_def by auto
  have c: "\<forall>i < ?n. \<forall>j < ?n. qn ! i \<noteq> [] \<longrightarrow> qn ! i = qn ! j \<longrightarrow> i = j"
    using inv unfolding bfs_inv_def inv_names_def by auto
  have e: "qn ! nat (start d) = ''q0''"
    using inv by (simp add: bfs_inv_def inv_closed_def)
  show ?thesis
    using ns len a b c e unfolding names_ok_def by blast
qed

subsection \<open>get\_order on the names of name\_states\<close>

lemma stoi_state_name: "stoi (tl (state_name k)) = Some (int k)"
  by (simp add: state_name_def stoi_digits)

lemma collect_order_ok:
  assumes "\<forall>nm \<in> set qn. nm = [] \<or> (\<exists>k. nm = state_name k)"
  shows "\<exists>order. collect_order qn i = Some order \<and>
                 snd ` set order = {int (i + j) | j. j < length qn \<and> qn ! j \<noteq> []}"
  using assms
proof (induction qn arbitrary: i)
  case Nil
  then show ?case by simp
next
  case (Cons nm rest)
  from Cons.IH[of "Suc i"] Cons.prems
  obtain order where o: "collect_order rest (Suc i) = Some order"
    and s: "snd ` set order = {int (Suc i + j) | j. j < length rest \<and> rest ! j \<noteq> []}"
    by auto
  have shift: "{int (i + j) | j. j < length (nm # rest) \<and> (nm # rest) ! j \<noteq> []} =
               (if nm \<noteq> [] then {int i} else {}) \<union>
               {int (Suc i + j) | j. j < length rest \<and> rest ! j \<noteq> []}"
  proof (intro set_eqI iffI)
    fix x
    assume "x \<in> {int (i + j) | j. j < length (nm # rest) \<and> (nm # rest) ! j \<noteq> []}"
    then obtain j where j: "x = int (i + j)" "j < length (nm # rest)" "(nm # rest) ! j \<noteq> []"
      by blast
    show "x \<in> (if nm \<noteq> [] then {int i} else {}) \<union>
               {int (Suc i + j) | j. j < length rest \<and> rest ! j \<noteq> []}"
    proof (cases j)
      case 0
      then show ?thesis using j by auto
    next
      case (Suc j')
      then have "x = int (Suc i + j')" "j' < length rest" "rest ! j' \<noteq> []" using j by auto
      then show ?thesis by blast
    qed
  next
    fix x
    assume "x \<in> (if nm \<noteq> [] then {int i} else {}) \<union>
               {int (Suc i + j) | j. j < length rest \<and> rest ! j \<noteq> []}"
    then consider "nm \<noteq> []" "x = int i"
      | j where "x = int (Suc i + j)" "j < length rest" "rest ! j \<noteq> []"
      by (auto split: if_splits)
    then show "x \<in> {int (i + j) | j. j < length (nm # rest) \<and> (nm # rest) ! j \<noteq> []}"
    proof cases
      case 1
      then show ?thesis by (auto intro: exI[of _ 0])
    next
      case 2
      then show ?thesis by (auto intro: exI[of _ "Suc j"])
    qed
  qed
  show ?case
  proof (cases "nm = []")
    case True
    then show ?thesis using o s shift by simp
  next
    case False
    then obtain k where k: "nm = state_name k" using Cons.prems by auto
    have hd: "hd nm = CHR ''q''" by (simp add: k state_name_def)
    show ?thesis
      using False hd o s shift stoi_state_name[of k] by (simp add: k)
  qed
qed

lemma get_order_ok:
  assumes "names_ok d qn"
  shows "\<exists>order. get_order qn = Some order \<and>
                 snd ` set order = {int j | j. j < length qn \<and> qn ! j \<noteq> []}"
proof -
  have "\<forall>nm \<in> set qn. nm = [] \<or> (\<exists>k. nm = state_name k)"
    using assms unfolding names_ok_def by (metis in_set_conv_nth)
  from collect_order_ok[OF this, of 0]
  show ?thesis by (auto simp: get_order_def)
qed

subsection \<open>The output does not depend on an unreachable state\<close>

lemma visit_queue:
  "visit d v (Q, vis, qn, cnt) = Some (Q2, vis2, qn2, cnt2) \<Longrightarrow> set Q2 \<subseteq> insert v (set Q)"
  by (auto simp: visit_def split: if_splits)

lemma visit_length_cong:
  "length (states d2) = length (states d) \<Longrightarrow> visit d2 v s = visit d v s"
  by (simp add: visit_def)

text \<open>
  Two automata that differ only in the record of state \<open>t\<close>, where no other state
  has a transition to \<open>t\<close>: the naming loop runs alike on both as long as \<open>t\<close> is not
  in the queue.
\<close>

definition same_but :: "int \<Rightarrow> DFA \<Rightarrow> DFA \<Rightarrow> bool" where
  "same_but t d d2 =
     (length (states d2) = length (states d) \<and> start d2 = start d \<and>
      (\<forall>i < length (states d). int i \<noteq> t \<longrightarrow>
          states d2 ! i = states d ! i \<and> t0 (states d ! i) \<noteq> t \<and> t1 (states d ! i) \<noteq> t))"

lemma bfs_loop_same_but:
  "same_but t d d2 \<Longrightarrow> t \<notin> set (fst s) \<Longrightarrow> bfs_loop d2 s = bfs_loop d s"
proof (induction d s rule: bfs_loop.induct)
  case (1 d Q visited qname cnt)
  have len: "length (states d2) = length (states d)"
    using 1(2) by (simp add: same_but_def)
  show ?case
  proof (cases Q)
    case Nil
    then show ?thesis by (simp add: bfs_loop.simps)
  next
    case (Cons u Q')
    show ?thesis
    proof (cases "in_range u (states d)")
      case False
      then have "\<not> in_range u (states d2)" using len by (simp add: in_range_def)
      then show ?thesis using Cons False by (simp add: bfs_loop.simps)
    next
      case True
      have ut: "u \<noteq> t" using 1(3) Cons by auto
      have un: "nat u < length (states d)" "int (nat u) = u"
        using True by (auto simp: in_range_def)
      then have eq: "states d2 ! nat u = states d ! nat u"
        and nt: "t0 (states d ! nat u) \<noteq> t" "t1 (states d ! nat u) \<noteq> t"
        using 1(2) ut unfolding same_but_def by metis+
      have r2: "in_range u (states d2)" using True len by (simp add: in_range_def)
      show ?thesis
      proof (cases "visit d (t0 (states d ! nat u)) (Q', visited, qname, cnt)")
        case None
        then show ?thesis
          using Cons True r2 eq visit_length_cong[OF len] by (simp add: bfs_loop.simps)
      next
        case (Some s1)
        show ?thesis
        proof (cases "visit d (t1 (states d ! nat u)) s1")
          case None
          then show ?thesis
            using Cons True r2 eq Some visit_length_cong[OF len] by (simp add: bfs_loop.simps)
        next
          case (Some s2)
          obtain Q1 vis1 qn1 cnt1 where e1: "s1 = (Q1, vis1, qn1, cnt1)" by (cases s1) auto
          obtain Q2 vis2 qn2 cnt2 where e2: "s2 = (Q2, vis2, qn2, cnt2)" by (cases s2) auto
          have "set Q1 \<subseteq> insert (t0 (states d ! nat u)) (set Q')"
            using visit_queue \<open>visit d (t0 (states d ! nat u)) (Q', visited, qname, cnt) = Some s1\<close>
            unfolding e1 by blast
          moreover have "set Q2 \<subseteq> insert (t1 (states d ! nat u)) (set Q1)"
            using visit_queue Some unfolding e1 e2 by blast
          ultimately have "t \<notin> set (fst s2)"
            using nt 1(3) Cons unfolding e2 by auto
          from 1(1)[OF Cons True \<open>visit d (t0 (states d ! nat u)) (Q', visited, qname, cnt) = Some s1\<close>
              Some 1(2) this]
          show ?thesis
            using Cons True r2 eq Some
              \<open>visit d (t0 (states d ! nat u)) (Q', visited, qname, cnt) = Some s1\<close>
              visit_length_cong[OF len]
            by (simp add: bfs_loop.simps)
        qed
      qed
    qed
  qed
qed

lemma name_states_same_but:
  assumes "same_but t d d2" "start d \<noteq> t"
  shows "name_states d2 = name_states d"
  using assms bfs_loop_same_but[OF assms(1)]
  by (simp add: name_states_def Let_def same_but_def)

lemma same_but_in_range:
  "same_but t d d2 \<Longrightarrow> in_range x (states d2) = in_range x (states d)"
  by (simp add: same_but_def in_range_def)

lemma same_but_nth:
  assumes "same_but t d d2" "in_range i (states d)" "i \<noteq> t"
  shows "states d2 ! nat i = states d ! nat i"
    and "t0 (states d ! nat i) \<noteq> t" and "t1 (states d ! nat i) \<noteq> t"
proof -
  have "nat i < length (states d)" "int (nat i) = i"
    using assms(2) by (auto simp: in_range_def)
  then show "states d2 ! nat i = states d ! nat i"
    and "t0 (states d ! nat i) \<noteq> t" and "t1 (states d ! nat i) \<noteq> t"
    using assms(1,3) unfolding same_but_def by metis+
qed

lemma table_row_same_but:
  assumes "same_but t d d2" "i \<noteq> t"
  shows "table_row d2 qn i = table_row d qn i"
proof (cases "in_range i (states d)")
  case False
  then show ?thesis
    unfolding table_row_def same_but_in_range[OF assms(1)] by simp
next
  case True
  have st: "start d2 = start d" using assms(1) by (simp add: same_but_def)
  show ?thesis
    unfolding table_row_def same_but_in_range[OF assms(1)]
      same_but_nth(1)[OF assms(1) True assms(2)] st ..
qed

lemma symbol_productions_same_but:
  assumes "same_but t d d2" "i \<noteq> t"
  shows "symbol_productions d2 qn i c = symbol_productions d qn i c"
proof (cases "in_range i (states d)")
  case False
  then show ?thesis
    unfolding symbol_productions_def same_but_in_range[OF assms(1)] by simp
next
  case True
  let ?nxt = "if c = 0 then t0 (states d ! nat i) else t1 (states d ! nat i)"
  note eq = same_but_nth(1)[OF assms(1) True assms(2)]
  have nx: "?nxt \<noteq> t"
    using same_but_nth(2,3)[OF assms(1) True assms(2)] by simp
  show ?thesis
  proof (cases "in_range ?nxt (states d)")
    case False
    define nxt where "nxt = ?nxt"
    have "\<not> in_range nxt (states d)" using False by (simp add: nxt_def)
    then show ?thesis
      unfolding symbol_productions_def same_but_in_range[OF assms(1)] eq Let_def
        nxt_def[symmetric]
      by simp
  next
    case True
    show ?thesis
      unfolding symbol_productions_def same_but_in_range[OF assms(1)] eq Let_def
        same_but_nth(1)[OF assms(1) True nx] ..
  qed
qed

lemma collect_order_snd:
  "collect_order qn i = Some ord \<Longrightarrow>
   snd ` set ord \<subseteq> {int (i + j) | j. j < length qn \<and> qn ! j \<noteq> []}"
proof (induction qn arbitrary: i ord)
  case Nil
  then show ?case by simp
next
  case (Cons nm rest)
  show ?case
  proof
    fix x assume x: "x \<in> snd ` set ord"
    show "x \<in> {int (i + j) | j. j < length (nm # rest) \<and> (nm # rest) ! j \<noteq> []}"
    proof (cases "nm \<noteq> [] \<and> hd nm = CHR ''q''")
      case False
      then have "collect_order rest (Suc i) = Some ord" using Cons.prems by auto
      from Cons.IH[OF this] x obtain j where "x = int (Suc i + j)" "j < length rest"
        "rest ! j \<noteq> []" by blast
      then show ?thesis by (auto intro: exI[of _ "Suc j"])
    next
      case True
      then obtain idx r where r: "collect_order rest (Suc i) = Some r"
        "ord = (idx, int i) # r"
        using Cons.prems by (auto split: option.splits)
      show ?thesis
      proof (cases "x = int i")
        case True
        then show ?thesis using \<open>nm \<noteq> [] \<and> hd nm = CHR ''q''\<close>
          by (auto intro: exI[of _ 0])
      next
        case False
        then have "x \<in> snd ` set r" using x r by auto
        with Cons.IH[OF r(1)] obtain j where "x = int (Suc i + j)" "j < length rest"
          "rest ! j \<noteq> []" by blast
        then show ?thesis by (auto intro: exI[of _ "Suc j"])
      qed
    qed
  qed
qed

lemma get_order_snd:
  assumes "get_order qn = Some order" "(idx, i) \<in> set order"
  shows "0 \<le> i \<and> nat i < length qn \<and> qn ! nat i \<noteq> []"
proof -
  obtain ord where o: "collect_order qn 0 = Some ord" "order = sort ord"
    using assms(1) by (auto simp: get_order_def)
  have "i \<in> snd ` set ord" using assms(2) o(2) by force
  with collect_order_snd[OF o(1)] obtain j where "i = int (0 + j)" "j < length qn" "qn ! j \<noteq> []"
    by blast
  then show ?thesis by simp
qed

lemma process_symbol_same_but:
  assumes "same_but t d d2" "i \<noteq> t"
  shows "process_symbol d2 qn i = process_symbol d qn i"
  by (simp only: process_symbol_def symbol_productions_same_but[OF assms])

lemma print_same_but:
  assumes "same_but t d d2" "start d \<noteq> t"
    and "name_states d = Some qn" "qn ! nat t = []" "0 \<le> t"
  shows "print_and_convert_to_RG d2 = print_and_convert_to_RG d"
proof -
  have ns: "name_states d2 = Some qn"
    using name_states_same_but[OF assms(1,2)] assms(3) by simp
  show ?thesis
  proof (cases "get_order qn")
    case None
    then show ?thesis using ns assms(3) by (simp add: print_and_convert_to_RG_def)
  next
    case (Some order)
    have nt: "\<forall>pr \<in> set order. snd pr \<noteq> t"
    proof
      fix pr assume "pr \<in> set order"
      then have "(fst pr, snd pr) \<in> set order" by simp
      from get_order_snd[OF Some this] show "snd pr \<noteq> t" using assms(4) by auto
    qed
    have rows: "table_lines d2 qn order = table_lines d qn order"
      unfolding table_lines_def using nt
      by (intro arg_cong[where f = those_concat] map_cong refl)
         (simp add: table_row_same_but[OF assms(1)])
    have gram: "grammar_lines d2 qn order = grammar_lines d qn order"
      unfolding grammar_lines_def using nt
      by (intro arg_cong[where f = those_concat] map_cong refl)
         (simp add: process_symbol_same_but[OF assms(1)])
    show ?thesis
      by (simp add: print_and_convert_to_RG_def ns assms(3) Some rows gram
               cong: option.case_cong)
  qed
qed

subsection \<open>The former trap state after trap removal\<close>

lemma remove_trap_no_target:
  assumes "in_range (trap d) (states d)" "i < length (states d)"
  shows "t0 (states (remove_trap d) ! i) \<noteq> trap d \<and> t1 (states (remove_trap d) ! i) \<noteq> trap d"
proof -
  have t: "trap d \<noteq> -1" "0 \<le> trap d" using assms(1) by (auto simp: in_range_def)
  show ?thesis
  proof (cases "int i = trap d")
    case True
    then show ?thesis using remove_trap_nth_trap[OF t(1) assms(2)] t(2) by simp
  next
    case False
    then show ?thesis
      using remove_trap_nth_other[OF t(1) assms(2)] t(2) by (simp add: retarget_def)
  qed
qed

lemma remove_trap_unreachable:
  assumes "in_range (trap d) (states d)" "start d \<noteq> trap d"
  shows "\<not> reachable (remove_trap d) (trap d)"
proof
  assume "reachable (remove_trap d) (trap d)"
  then show False
  proof (cases rule: reachable.cases)
    case reach_start
    then show ?thesis using assms(2) by simp
  next
    case (reach_t0 u)
    have "nat u < length (states d)"
      using reachable_in_range[OF reach_t0(1)] by (auto simp: in_range_def)
    from remove_trap_no_target[OF assms(1) this] reach_t0(2) show ?thesis by simp
  next
    case (reach_t1 u)
    have "nat u < length (states d)"
      using reachable_in_range[OF reach_t1(1)] by (auto simp: in_range_def)
    from remove_trap_no_target[OF assms(1) this] reach_t1(2) show ?thesis by simp
  qed
qed

lemma remove_trap_same_but:
  assumes "in_range (trap d) (states d)"
  shows "same_but (trap d) (remove_trap d)
           ((remove_trap d)\<lparr>states := (states (remove_trap d))[nat (trap d) := st]\<rparr>)"
proof -
  have "nat (trap d) \<noteq> i" if "int i \<noteq> trap d" for i
    using that assms by (auto simp: in_range_def)
  then show ?thesis
    using remove_trap_no_target[OF assms] by (simp add: same_but_def)
qed

text \<open>
  Claim C10. Let the recorded trap index address a state, and let the start state
  be another state. After \<open>remove_trap\<close> the vector of states has its old length, and
  at the trap's index stands the old record with the accept flag cleared and both
  successors -1. That state is not reachable from the start state; \<open>name_states\<close>
  returns a vector of names in which it has the empty name; \<open>get_order\<close> returns an
  order that does not list it; and the printed output (table and grammar) stays
  the same whatever record is put at its index: nothing of it is printed.
\<close>

theorem trap_state_kept:
  assumes "in_range (trap d) (states d)" and "start d \<noteq> trap d"
  shows "length (states (remove_trap d)) = length (states d) \<and>
         states (remove_trap d) ! nat (trap d) =
           (states d ! nat (trap d))\<lparr>accept := False, t0 := -1, t1 := -1\<rparr> \<and>
         \<not> reachable (remove_trap d) (trap d) \<and>
         (\<exists>qname order.
            name_states (remove_trap d) = Some qname \<and>
            length qname = length (states d) \<and>
            qname ! nat (trap d) = [] \<and>
            get_order qname = Some order \<and>
            trap d \<notin> snd ` set order) \<and>
         (\<forall>st. print_and_convert_to_RG
                 ((remove_trap d)\<lparr>states := (states (remove_trap d))[nat (trap d) := st]\<rparr>)
               = print_and_convert_to_RG (remove_trap d))"
proof -
  let ?d = "remove_trap d"
  let ?t = "trap d"
  have t: "?t \<noteq> -1" "0 \<le> ?t" "nat ?t < length (states d)" "int (nat ?t) = ?t"
    using assms(1) by (auto simp: in_range_def)
  have st: "states ?d ! nat ?t = (states d ! nat ?t)\<lparr>accept := False, t0 := -1, t1 := -1\<rparr>"
    using remove_trap_nth_trap[OF t(1,3,4)] .
  have unr: "\<not> reachable ?d ?t" by (rule remove_trap_unreachable[OF assms])
  obtain qn where qn: "name_states ?d = Some qn" and ok: "names_ok ?d qn"
    using name_states_ok by blast
  have len: "length qn = length (states d)" using ok by (simp add: names_ok_def)
  have empty: "qn ! nat ?t = []"
  proof (rule ccontr)
    assume "qn ! nat ?t \<noteq> []"
    then have "reachable ?d (int (nat ?t))"
      using ok t(3) unfolding names_ok_def by simp
    then show False using unr t(4) by simp
  qed
  obtain order where ord: "get_order qn = Some order"
    using get_order_ok[OF ok] by blast
  have notin: "?t \<notin> snd ` set order"
  proof
    assume "?t \<in> snd ` set order"
    then obtain idx where "(idx, ?t) \<in> set order" by auto
    from get_order_snd[OF ord this] empty show False by simp
  qed
  have same: "print_and_convert_to_RG (?d\<lparr>states := (states ?d)[nat ?t := x]\<rparr>)
              = print_and_convert_to_RG ?d" for x
    by (rule print_same_but[OF remove_trap_same_but[OF assms(1)] _ qn empty t(2)])
       (simp add: assms(2))
  show ?thesis
    using st unr qn len empty ord notin same by auto
qed

text \<open>
  The theorem at the automaton of the expression 0 before trap removal: state 2
  is the trap, state 0 the start.
\<close>

theorem trap_state_kept_witness:
  "length (states (remove_trap
      \<lparr>states = [\<lparr>sid = 0, accept = False, t0 = 1, t1 = 2\<rparr>,
                 \<lparr>sid = 1, accept = True, t0 = 2, t1 = 2\<rparr>,
                 \<lparr>sid = 2, accept = False, t0 = 2, t1 = 2\<rparr>],
       start = 0, trap = 2\<rparr>)) = 3 \<and>
   \<not> reachable (remove_trap
      \<lparr>states = [\<lparr>sid = 0, accept = False, t0 = 1, t1 = 2\<rparr>,
                 \<lparr>sid = 1, accept = True, t0 = 2, t1 = 2\<rparr>,
                 \<lparr>sid = 2, accept = False, t0 = 2, t1 = 2\<rparr>],
       start = 0, trap = 2\<rparr>) 2"
  using trap_state_kept
    [of "\<lparr>states = [\<lparr>sid = 0, accept = False, t0 = 1, t1 = 2\<rparr>,
                    \<lparr>sid = 1, accept = True, t0 = 2, t1 = 2\<rparr>,
                    \<lparr>sid = 2, accept = False, t0 = 2, t1 = 2\<rparr>],
          start = 0, trap = 2\<rparr>"]
  by (simp add: in_range_def)

section \<open>DFAMinimizer::minimize\<close>

text \<open>
  The partition is a vector of class numbers, one per state. A read of a vector
  at an index outside its bounds is undefined behaviour; \<open>nth_opt\<close> returns \<open>None\<close>
  there, and the model of the minimizer returns \<open>None\<close> as a whole.
\<close>

definition nth_opt :: "'a list \<Rightarrow> int \<Rightarrow> 'a option" where
  "nth_opt xs i = (if 0 \<le> i \<and> i < int (length xs) then Some (xs ! nat i) else None)"

type_synonym key = "int \<times> int \<times> int"

text \<open>
  The key of state \<open>i\<close> in one pass: its class, the class of its 0-successor and
  the class of its 1-successor.
\<close>

definition state_key :: "DFA \<Rightarrow> int list \<Rightarrow> nat \<Rightarrow> key option" where
  "state_key d part i =
     (case nth_opt part (t0 (states d ! i)) of
        None \<Rightarrow> None
      | Some c0 \<Rightarrow>
          (case nth_opt part (t1 (states d ! i)) of
             None \<Rightarrow> None
           | Some c1 \<Rightarrow>
               (case nth_opt part (int i) of
                  None \<Rightarrow> None
                | Some c \<Rightarrow> Some (c, c0, c1))))"

text \<open>
  \<open>groups\<close> is a \<open>std::map\<close> from keys to vectors of states: an association list
  kept in the (lexicographic) order of the keys. \<open>group_insert k i\<close> is
  \<open>groups[k].push_back(i)\<close>.
\<close>

fun group_insert :: "'k::linorder \<Rightarrow> nat \<Rightarrow> ('k \<times> nat list) list \<Rightarrow> ('k \<times> nat list) list" where
  "group_insert k i [] = [(k, [i])]"
| "group_insert k i ((k', members) # gs) =
     (if k = k' then (k', members @ [i]) # gs
      else if k < k' then (k, [i]) # (k', members) # gs
      else (k', members) # group_insert k i gs)"

fun build_groups :: "DFA \<Rightarrow> int list \<Rightarrow> nat list \<Rightarrow> (key \<times> nat list) list
                       \<Rightarrow> (key \<times> nat list) list option" where
  "build_groups d part [] gs = Some gs"
| "build_groups d part (i # rest) gs =
     (case state_key d part i of
        None \<Rightarrow> None
      | Some k \<Rightarrow> build_groups d part rest (group_insert k i gs))"

text \<open>
  The second loop of a pass: the groups in key order receive the class numbers
  0, 1, 2, ...; every member of a group gets the number of its group.
\<close>

fun assign_classes :: "('k \<times> nat list) list \<Rightarrow> int \<Rightarrow> int list \<Rightarrow> int list" where
  "assign_classes [] new_class new_part = new_part"
| "assign_classes ((k, members) # gs) new_class new_part =
     assign_classes gs (new_class + 1)
       (fold (\<lambda>s np. np[s := new_class]) members new_part)"

definition refine_pass :: "DFA \<Rightarrow> int list \<Rightarrow> int list option" where
  "refine_pass d part =
     (case build_groups d part [0..<length (states d)] [] of
        None \<Rightarrow> None
      | Some groups \<Rightarrow> Some (assign_classes groups 0 (replicate (length (states d)) 0)))"

subsection \<open>The groups of one pass\<close>

lemma group_insert_keys:
  "set (map fst (group_insert k i gs)) = insert k (set (map fst gs))"
proof (induction gs)
  case Nil
  then show ?case by simp
next
  case (Cons g gs)
  obtain k' ms where g: "g = (k', ms)" by (cases g) auto
  show ?case
    using Cons g by (cases "k = k'"; cases "k < k'") (simp_all add: insert_commute)
qed

lemma group_insert_sorted:
  "sorted_wrt (<) (map fst gs) \<Longrightarrow> sorted_wrt (<) (map fst (group_insert k i gs))"
proof (induction gs)
  case Nil
  then show ?case by simp
next
  case (Cons g gs)
  obtain k' ms where g: "g = (k', ms)" by (cases g) auto
  show ?case
  proof (cases "k = k'")
    case True
    then show ?thesis using Cons.prems g by simp
  next
    case False
    show ?thesis
    proof (cases "k < k'")
      case True
      then show ?thesis using Cons.prems g False by auto
    next
      case nlt: False
      then have "k' < k" using False by auto
      moreover have "sorted_wrt (<) (map fst (group_insert k i gs))"
        using Cons by simp
      moreover have "\<forall>x \<in> set (map fst (group_insert k i gs)). k' < x"
        unfolding group_insert_keys using Cons.prems g \<open>k' < k\<close> by auto
      ultimately show ?thesis using g False nlt by auto
    qed
  qed
qed

lemma group_insert_map_of:
  "sorted_wrt (<) (map fst gs) \<Longrightarrow>
   map_of (group_insert k i gs) =
     (map_of gs)(k \<mapsto> (case map_of gs k of None \<Rightarrow> [i] | Some ms \<Rightarrow> ms @ [i]))"
proof (induction gs)
  case Nil
  then show ?case by simp
next
  case (Cons g gs)
  obtain k' ms where g: "g = (k', ms)" by (cases g) auto
  show ?case
  proof (cases "k = k'")
    case True
    then show ?thesis using g by auto
  next
    case False
    show ?thesis
    proof (cases "k < k'")
      case True
      have "k \<notin> fst ` set gs" using Cons.prems g True by auto
      then have "map_of gs k = None" by (simp add: map_of_eq_None_iff)
      then show ?thesis using g False True by auto
    next
      case nlt: False
      have ih: "map_of (group_insert k i gs) x =
            ((map_of gs)(k \<mapsto> (case map_of gs k of None \<Rightarrow> [i] | Some ms \<Rightarrow> ms @ [i]))) x"
        for x using Cons by simp
      show ?thesis
      proof (rule ext)
        fix x
        show "map_of (group_insert k i (g # gs)) x =
              ((map_of (g # gs))(k \<mapsto> (case map_of (g # gs) k of None \<Rightarrow> [i]
                                            | Some ms \<Rightarrow> ms @ [i]))) x"
          using ih[of x] ih[of k] g False nlt by simp
      qed
    qed
  qed
qed

text \<open>
  The groups built from a list of states: the keys are strictly increasing, and
  the group of a key lists exactly the states with that key, in their order.
\<close>

definition groups_of :: "(nat \<Rightarrow> 'k::linorder) \<Rightarrow> nat list \<Rightarrow> ('k \<times> nat list) list \<Rightarrow> bool" where
  "groups_of K xs gs =
     (sorted_wrt (<) (map fst gs) \<and>
      (\<forall>k. map_of gs k = (if k \<in> K ` set xs then Some (filter (\<lambda>i. K i = k) xs) else None)))"

lemma groups_of_insert:
  assumes "groups_of K xs gs"
  shows "groups_of K (xs @ [i]) (group_insert (K i) i gs)"
proof -
  have s: "sorted_wrt (<) (map fst gs)" using assms by (simp add: groups_of_def)
  have m: "map_of gs k = (if k \<in> K ` set xs then Some (filter (\<lambda>i. K i = k) xs) else None)" for k
    using assms by (simp add: groups_of_def)
  show ?thesis
    unfolding groups_of_def group_insert_map_of[OF s]
    using group_insert_sorted[OF s] m by (auto simp: filter_empty_conv image_iff)
qed

lemma build_groups_fold:
  assumes "\<forall>i \<in> set xs. state_key d p i \<noteq> None" "groups_of (\<lambda>i. the (state_key d p i)) ys gs"
  shows "\<exists>gs'. build_groups d p xs gs = Some gs' \<and>
               groups_of (\<lambda>i. the (state_key d p i)) (ys @ xs) gs'"
  using assms
proof (induction xs arbitrary: ys gs)
  case Nil
  then show ?case by simp
next
  case (Cons i xs)
  obtain k where k: "state_key d p i = Some k" using Cons.prems(1) by auto
  have "groups_of (\<lambda>i. the (state_key d p i)) (ys @ [i]) (group_insert k i gs)"
    using groups_of_insert[OF Cons.prems(2), of i] k by simp
  from Cons.IH[OF _ this] Cons.prems(1) k show ?case by simp
qed

lemma build_groups_none:
  "\<exists>i \<in> set xs. state_key d p i = None \<Longrightarrow> build_groups d p xs gs = None"
  by (induction xs arbitrary: gs) (auto split: option.splits)

subsection \<open>The class numbers of one pass\<close>

lemma fold_update_nth:
  "length (fold (\<lambda>s np. np[s := c]) ms np) = length np \<and>
   (\<forall>i < length np. fold (\<lambda>s np. np[s := c]) ms np ! i = (if i \<in> set ms then c else np ! i))"
  by (induction ms arbitrary: np) (auto simp: nth_list_update)

lemma assign_classes_nth:
  assumes "\<forall>a < length gs. \<forall>b < length gs. a \<noteq> b \<longrightarrow>
             set (snd (gs ! a)) \<inter> set (snd (gs ! b)) = {}"
  shows "length (assign_classes gs c np) = length np \<and>
         (\<forall>i < length np.
            (\<forall>j < length gs. i \<in> set (snd (gs ! j)) \<longrightarrow> assign_classes gs c np ! i = c + int j) \<and>
            ((\<forall>g \<in> set gs. i \<notin> set (snd g)) \<longrightarrow> assign_classes gs c np ! i = np ! i))"
  using assms
proof (induction gs arbitrary: c np)
  case Nil
  then show ?case by simp
next
  case (Cons g gs)
  obtain k ms where g: "g = (k, ms)" by (cases g) auto
  let ?np = "fold (\<lambda>s np. np[s := c]) ms np"
  have disj: "\<forall>a < length gs. \<forall>b < length gs. a \<noteq> b \<longrightarrow>
             set (snd (gs ! a)) \<inter> set (snd (gs ! b)) = {}"
  proof (intro allI impI)
    fix a b assume "a < length gs" "b < length gs" "a \<noteq> b"
    then show "set (snd (gs ! a)) \<inter> set (snd (gs ! b)) = {}"
      using Cons.prems[rule_format, of "Suc a" "Suc b"] by simp
  qed
  have later: "set ms \<inter> set (snd (gs ! b)) = {}" if "b < length gs" for b
    using Cons.prems[rule_format, of 0 "Suc b"] that g by simp
  note ih = Cons.IH[OF disj, of "c + 1" ?np]
  note fu = fold_update_nth[of c ms np]
  have len: "length (assign_classes (g # gs) c np) = length np"
    using ih fu g by simp
  have a: "assign_classes (g # gs) c np ! i = c + int j"
    if i: "i < length np" and j: "j < length (g # gs)" and mem: "i \<in> set (snd ((g # gs) ! j))" for i j
  proof (cases j)
    case 0
    then have ims: "i \<in> set ms" using mem g by simp
    have "\<forall>g' \<in> set gs. i \<notin> set (snd g')"
    proof
      fix g' assume "g' \<in> set gs"
      then obtain b where "b < length gs" "gs ! b = g'" by (auto simp: in_set_conv_nth)
      then show "i \<notin> set (snd g')" using later[of b] ims by auto
    qed
    then have "assign_classes gs (c + 1) ?np ! i = ?np ! i" using ih i fu by simp
    then show ?thesis using fu i ims g 0 by simp
  next
    case (Suc j')
    then have "j' < length gs" "i \<in> set (snd (gs ! j'))" using j mem by auto
    then have "assign_classes gs (c + 1) ?np ! i = c + 1 + int j'" using ih i fu by simp
    then show ?thesis using g Suc by simp
  qed
  have b: "assign_classes (g # gs) c np ! i = np ! i"
    if i: "i < length np" and no: "\<forall>g' \<in> set (g # gs). i \<notin> set (snd g')" for i
  proof -
    have "assign_classes gs (c + 1) ?np ! i = ?np ! i" using ih i fu no by simp
    then show ?thesis using fu i no g by simp
  qed
  show ?case using len a b by blast
qed

text \<open>
  A pass is defined when every state has a key. Its result, in terms of the keys:
  two states get the same class number exactly when their keys are equal, a
  smaller key gets a smaller number, and the numbers used are 0, 1, ... up to
  the number of distinct keys.
\<close>

definition keys_ok :: "DFA \<Rightarrow> int list \<Rightarrow> bool" where
  "keys_ok d p = (\<forall>i < length (states d). state_key d p i \<noteq> None)"

definition key_of :: "DFA \<Rightarrow> int list \<Rightarrow> nat \<Rightarrow> key" where
  "key_of d p i = the (state_key d p i)"

lemma refine_pass_none: "\<not> keys_ok d p \<Longrightarrow> refine_pass d p = None"
proof -
  assume "\<not> keys_ok d p"
  then obtain i where "i < length (states d)" "state_key d p i = None"
    unfolding keys_ok_def by blast
  then have "\<exists>i \<in> set [0..<length (states d)]. state_key d p i = None"
    by (intro bexI[of _ i]) simp_all
  from build_groups_none[OF this] show ?thesis by (simp add: refine_pass_def)
qed

lemma refine_pass_spec:
  assumes "keys_ok d p"
  shows "\<exists>np. refine_pass d p = Some np \<and> length np = length (states d) \<and>
           (\<forall>i < length (states d). \<forall>j < length (states d).
              (np ! i = np ! j \<longleftrightarrow> key_of d p i = key_of d p j) \<and>
              (key_of d p i < key_of d p j \<longrightarrow> np ! i < np ! j)) \<and>
           set np = {0..<int (card (key_of d p ` {0..<length (states d)}))}"
proof -
  let ?n = "length (states d)"
  let ?K = "key_of d p"
  have "\<forall>i \<in> set [0..<?n]. state_key d p i \<noteq> None"
    using assms by (simp add: keys_ok_def)
  moreover have "groups_of (\<lambda>i. the (state_key d p i)) [] ([] :: (key \<times> nat list) list)"
    by (simp add: groups_of_def)
  ultimately obtain gs where gs: "build_groups d p [0..<?n] [] = Some gs"
    and go0: "groups_of (\<lambda>i. the (state_key d p i)) ([] @ [0..<?n]) gs"
    using build_groups_fold by blast
  have K: "(\<lambda>i. the (state_key d p i)) = ?K" by (simp add: key_of_def fun_eq_iff)
  have go: "groups_of ?K [0..<?n] gs" using go0 unfolding K by simp
  define ks where "ks = map fst gs"
  have sorted: "sorted_wrt (<) ks" using go by (simp add: groups_of_def ks_def)
  then have dist: "distinct ks" by (simp add: strict_sorted_iff)
  have mo0: "map_of gs k = (if k \<in> ?K ` set [0..<?n]
                              then Some (filter (\<lambda>i. ?K i = k) [0..<?n]) else None)"
    for k using go unfolding groups_of_def by blast
  have mo: "map_of gs k = (if k \<in> ?K ` {0..<?n} then Some (filter (\<lambda>i. ?K i = k) [0..<?n]) else None)"
    for k using mo0[of k] by (simp only: set_upt)
  have lks: "length ks = length gs" by (simp add: ks_def)
  have setks: "set ks = ?K ` {0..<?n}"
  proof -
    have "k \<in> set ks \<longleftrightarrow> k \<in> ?K ` {0..<?n}" for k
    proof -
      have "k \<in> set ks \<longleftrightarrow> map_of gs k \<noteq> None"
        unfolding ks_def by (simp add: map_of_eq_None_iff)
      then show ?thesis using mo[of k] by (simp split: if_splits)
    qed
    then show ?thesis by blast
  qed
  have members: "set (snd (gs ! j)) = {i. i < ?n \<and> ?K i = ks ! j}" if j: "j < length gs" for j
  proof -
    have "gs ! j \<in> set gs" using j by simp
    moreover have "distinct (map fst gs)" using dist by (simp add: ks_def)
    ultimately have "map_of gs (fst (gs ! j)) = Some (snd (gs ! j))"
      by (metis map_of_is_SomeI prod.collapse)
    moreover have "fst (gs ! j) = ks ! j" using j by (simp add: ks_def)
    moreover have "ks ! j \<in> ?K ` {0..<?n}" using setks j lks by (metis nth_mem)
    ultimately have "snd (gs ! j) = filter (\<lambda>i. ?K i = ks ! j) [0..<?n]"
      using mo[of "ks ! j"] by simp
    then show ?thesis by auto
  qed
  have disj: "\<forall>a < length gs. \<forall>b < length gs. a \<noteq> b \<longrightarrow>
             set (snd (gs ! a)) \<inter> set (snd (gs ! b)) = {}"
  proof (intro allI impI)
    fix a b assume ab: "a < length gs" "b < length gs" "a \<noteq> b"
    then have "ks ! a \<noteq> ks ! b" using dist lks by (simp add: nth_eq_iff_index_eq)
    then show "set (snd (gs ! a)) \<inter> set (snd (gs ! b)) = {}"
      using members ab by auto
  qed
  define np where "np = assign_classes gs 0 (replicate ?n 0)"
  note an = assign_classes_nth[OF disj, of 0 "replicate ?n 0"]
  have rp: "refine_pass d p = Some np" by (simp add: refine_pass_def gs np_def)
  have len: "length np = ?n" using an by (simp add: np_def)
  have val: "np ! i = int j" if "i < ?n" "j < length ks" "?K i = ks ! j" for i j
  proof -
    have "i \<in> set (snd (gs ! j))" using members[of j] that lks by simp
    then show ?thesis using an that lks by (simp add: np_def)
  qed
  have idx: "\<exists>j < length ks. ks ! j = ?K i" if "i < ?n" for i
  proof -
    have "?K i \<in> set ks" using setks that by auto
    then show ?thesis by (simp add: in_set_conv_nth)
  qed
  have r2: "(np ! i = np ! j \<longleftrightarrow> ?K i = ?K j) \<and> (?K i < ?K j \<longrightarrow> np ! i < np ! j)"
    if i: "i < ?n" and j: "j < ?n" for i j
  proof -
    obtain a where a: "a < length ks" "ks ! a = ?K i" using idx[OF i] by blast
    obtain b where b: "b < length ks" "ks ! b = ?K j" using idx[OF j] by blast
    have va: "np ! i = int a" using val[OF i a(1)] a(2) by simp
    have vb: "np ! j = int b" using val[OF j b(1)] b(2) by simp
    have "a = b \<longleftrightarrow> ks ! a = ks ! b" using dist a(1) b(1) by (simp add: nth_eq_iff_index_eq)
    moreover have "a < b" if "ks ! a < ks ! b"
    proof (rule ccontr)
      assume "\<not> a < b"
      then have "b < a \<or> b = a" by auto
      then show False
      proof
        assume "b < a"
        then have "ks ! b < ks ! a" using sorted a(1) by (simp add: sorted_wrt_nth_less)
        then show False using that by simp
      next
        assume "b = a"
        then show False using that by simp
      qed
    qed
    ultimately show ?thesis using va vb a(2) b(2) by auto
  qed
  have r4: "set np = {0..<int (card (?K ` {0..<?n}))}"
  proof -
    have c: "card (?K ` {0..<?n}) = length ks"
      using setks dist by (metis distinct_card)
    have "set np = int ` {0..<length ks}"
    proof (intro set_eqI iffI)
      fix x assume "x \<in> set np"
      then obtain i where i: "i < ?n" "np ! i = x" using len by (auto simp: in_set_conv_nth)
      obtain a where a: "a < length ks" "ks ! a = ?K i" using idx[OF i(1)] by blast
      have "x = int a" using val[OF i(1) a(1)] a(2) i(2) by simp
      then show "x \<in> int ` {0..<length ks}" using a(1) by simp
    next
      fix x assume "x \<in> int ` {0..<length ks}"
      then obtain a where a: "a < length ks" "x = int a" by auto
      then have "ks ! a \<in> ?K ` {0..<?n}" using setks by (metis nth_mem)
      then obtain i where i: "i < ?n" "?K i = ks ! a" by auto
      have "np ! i = x" using val[OF i(1) a(1) i(2)] a(2) by simp
      then show "x \<in> set np" using i(1) len by (metis nth_mem)
    qed
    also have "\<dots> = {0..<int (length ks)}"
      by (simp add: image_int_atLeastLessThan)
    finally show ?thesis using c by simp
  qed
  show ?thesis using rp len r2 r4 by blast
qed

lemma state_key_Some:
  "state_key d p i = Some k \<longleftrightarrow>
     (in_range (t0 (states d ! i)) p \<and> in_range (t1 (states d ! i)) p \<and> i < length p \<and>
      k = (p ! i, p ! nat (t0 (states d ! i)), p ! nat (t1 (states d ! i))))"
  by (auto simp: state_key_def nth_opt_def in_range_def split: option.splits)

lemma key_of_eq:
  assumes "keys_ok d p" "i < length (states d)"
  shows "key_of d p i = (p ! i, p ! nat (t0 (states d ! i)), p ! nat (t1 (states d ! i)))"
    and "in_range (t0 (states d ! i)) p" and "in_range (t1 (states d ! i)) p" and "i < length p"
proof -
  obtain k where k: "state_key d p i = Some k"
    using assms unfolding keys_ok_def by blast
  then show "key_of d p i = (p ! i, p ! nat (t0 (states d ! i)), p ! nat (t1 (states d ! i)))"
    and "in_range (t0 (states d ! i)) p" and "in_range (t1 (states d ! i)) p" and "i < length p"
    using state_key_Some[of d p i k] by (simp_all add: key_of_def)
qed

text \<open>
  A partition is canonical when its class numbers are 0, 1, ..., one less than
  the number of classes.
\<close>

definition canonical :: "int list \<Rightarrow> bool" where
  "canonical p = (set p = {0..<int (card (set p))})"

lemma refine_pass_props:
  assumes "refine_pass d p = Some np"
  shows "keys_ok d p" and "length np = length (states d)"
    and "\<And>i j. i < length (states d) \<Longrightarrow> j < length (states d) \<Longrightarrow>
           (np ! i = np ! j \<longleftrightarrow> key_of d p i = key_of d p j)"
    and "\<And>i j. i < length (states d) \<Longrightarrow> j < length (states d) \<Longrightarrow>
           key_of d p i < key_of d p j \<Longrightarrow> np ! i < np ! j"
    and "set np = {0..<int (card (key_of d p ` {0..<length (states d)}))}"
    and "canonical np"
proof -
  show ok: "keys_ok d p" using assms refine_pass_none by fastforce
  from refine_pass_spec[OF ok] assms
  have len: "length np = length (states d)"
    and r: "\<forall>i < length (states d). \<forall>j < length (states d).
              (np ! i = np ! j \<longleftrightarrow> key_of d p i = key_of d p j) \<and>
              (key_of d p i < key_of d p j \<longrightarrow> np ! i < np ! j)"
    and s: "set np = {0..<int (card (key_of d p ` {0..<length (states d)}))}"
    by auto
  show "length np = length (states d)" by (rule len)
  show "\<And>i j. i < length (states d) \<Longrightarrow> j < length (states d) \<Longrightarrow>
           (np ! i = np ! j \<longleftrightarrow> key_of d p i = key_of d p j)" using r by blast
  show "\<And>i j. i < length (states d) \<Longrightarrow> j < length (states d) \<Longrightarrow>
           key_of d p i < key_of d p j \<Longrightarrow> np ! i < np ! j" using r by blast
  show "set np = {0..<int (card (key_of d p ` {0..<length (states d)}))}" by (rule s)
  have "card (set np) = card (key_of d p ` {0..<length (states d)})"
    unfolding s by simp
  then show "canonical np" unfolding canonical_def using s by simp
qed

lemma set_conv_nth_image: "set p = (\<lambda>i. p ! i) ` {0..<length p}"
  by (auto simp: in_set_conv_nth)

text \<open>A pass never merges classes: the number of classes does not decrease.\<close>

lemma refine_pass_refines:
  assumes "refine_pass d p = Some np" "i < length (states d)" "j < length (states d)"
    "np ! i = np ! j"
  shows "p ! i = p ! j"
proof -
  note pr = refine_pass_props[OF assms(1)]
  have "key_of d p i = key_of d p j" using pr(3)[OF assms(2,3)] assms(4) by simp
  then show ?thesis using key_of_eq(1)[OF pr(1)] assms(2,3) by simp
qed

lemma refine_pass_card:
  assumes "refine_pass d p = Some np" "length p = length (states d)"
  shows "card (set p) \<le> card (set np)"
proof -
  note pr = refine_pass_props[OF assms(1)]
  let ?I = "{0..<length (states d)}"
  have "set p = (\<lambda>i. p ! i) ` ?I" using set_conv_nth_image[of p] assms(2) by simp
  also have "\<dots> = (\<lambda>i. fst (key_of d p i)) ` ?I"
    by (intro image_cong refl) (simp add: key_of_eq(1)[OF pr(1)])
  also have "\<dots> = fst ` (key_of d p ` ?I)"
    by (simp add: image_image)
  finally have "card (set p) \<le> card (key_of d p ` ?I)"
    by (simp add: card_image_le)
  moreover have "card (set np) = card (key_of d p ` ?I)" unfolding pr(5) by simp
  ultimately show ?thesis by simp
qed

text \<open>
  A pass that leaves the number of classes of a canonical partition unchanged
  returns that partition: the loop stops there.
\<close>

lemma refine_pass_stable:
  assumes rp: "refine_pass d p = Some np" and len: "length p = length (states d)"
    and can: "canonical p" and card: "card (set np) = card (set p)"
  shows "np = p"
proof -
  note pr = refine_pass_props[OF rp]
  let ?n = "length (states d)"
  define m where "m = int (card (set p))"
  have sp: "set p = {0..<m}" using can by (simp add: canonical_def m_def)
  have snp: "set np = {0..<m}" using pr(6) card by (simp add: canonical_def m_def)
  have mono: "np ! i < np ! j" if "i < ?n" "j < ?n" "p ! i < p ! j" for i j
  proof -
    have "key_of d p i < key_of d p j"
      using key_of_eq(1)[OF pr(1)] that by (simp add: less_prod_def)
    then show ?thesis using pr(4) that by blast
  qed
  have pin: "0 \<le> p ! i \<and> p ! i < m" if "i < ?n" for i
    using sp that len by (metis atLeastLessThan_iff nth_mem)
  have npin: "0 \<le> np ! i \<and> np ! i < m" if "i < ?n" for i
    using snp that pr(2) by (metis atLeastLessThan_iff nth_mem)
  have ex: "\<exists>j < ?n. p ! j = c" if "0 \<le> c" "c < m" for c
  proof -
    have "c \<in> set p" using sp that by simp
    then show ?thesis using len by (auto simp: in_set_conv_nth)
  qed
  have lower: "\<forall>i < ?n. p ! i = int k \<longrightarrow> int k \<le> np ! i" for k
  proof (induction k)
    case 0
    then show ?case using npin by auto
  next
    case (Suc k)
    show ?case
    proof (intro allI impI)
      fix i assume i: "i < ?n" and pi: "p ! i = int (Suc k)"
      have "int k < m" using pin[OF i] pi by simp
      then obtain j where j: "j < ?n" "p ! j = int k" using ex[of "int k"] by auto
      have "np ! j < np ! i" using mono[OF j(1) i] j(2) pi by simp
      moreover have "int k \<le> np ! j" using Suc j by blast
      ultimately show "int (Suc k) \<le> np ! i" by simp
    qed
  qed
  have upper: "\<forall>i < ?n. m - 1 - p ! i = int k \<longrightarrow> np ! i \<le> p ! i" for k
  proof (induction k)
    case 0
    then show ?case using npin by fastforce
  next
    case (Suc k)
    show ?case
    proof (intro allI impI)
      fix i assume i: "i < ?n" and pi: "m - 1 - p ! i = int (Suc k)"
      have "0 \<le> p ! i + 1" "p ! i + 1 < m" using pin[OF i] pi by auto
      then obtain j where j: "j < ?n" "p ! j = p ! i + 1" using ex[of "p ! i + 1"] by auto
      have "np ! i < np ! j" using mono[OF i j(1)] j(2) by simp
      moreover have "np ! j \<le> p ! j" using Suc j pi by auto
      ultimately show "np ! i \<le> p ! i" using j(2) by simp
    qed
  qed
  have "np ! i = p ! i" if i: "i < ?n" for i
  proof -
    have "int (nat (p ! i)) = p ! i" using pin[OF i] by simp
    then have a: "p ! i \<le> np ! i" using lower[of "nat (p ! i)"] i by auto
    have "m - 1 - p ! i = int (nat (m - 1 - p ! i))" using pin[OF i] by simp
    then have "np ! i \<le> p ! i" using upper[of "nat (m - 1 - p ! i)"] i by blast
    then show ?thesis using a by simp
  qed
  then show ?thesis using len pr(2) by (simp add: nth_equalityI)
qed

subsection \<open>The refinement loop\<close>

definition loop_measure :: "DFA \<Rightarrow> int list \<Rightarrow> nat" where
  "loop_measure d p =
     (if length p \<noteq> length (states d) then 2 * length (states d) + 2
      else 2 * (length (states d) - card (set p)) + (if canonical p then 0 else 1))"

lemma refine_pass_measure:
  assumes "refine_pass d p = Some np" "np \<noteq> p"
  shows "loop_measure d np < loop_measure d p"
proof -
  note pr = refine_pass_props[OF assms(1)]
  let ?n = "length (states d)"
  have cn: "card (set np) \<le> ?n" using card_length[of np] pr(2) by simp
  have mnp: "loop_measure d np = 2 * (?n - card (set np))"
    using pr(2,6) by (simp add: loop_measure_def)
  show ?thesis
  proof (cases "length p = ?n")
    case False
    then show ?thesis using mnp by (simp add: loop_measure_def)
  next
    case True
    have le: "card (set p) \<le> card (set np)" by (rule refine_pass_card[OF assms(1) True])
    show ?thesis
    proof (cases "card (set np) = card (set p)")
      case eq: True
      have "\<not> canonical p" using refine_pass_stable[OF assms(1) True _ eq] assms(2) by blast
      then show ?thesis using mnp True eq by (simp add: loop_measure_def)
    next
      case False
      then have "card (set p) < card (set np)" using le by simp
      then show ?thesis using mnp True cn by (simp add: loop_measure_def)
    qed
  qed
qed

text \<open>
  The \<open>while (changed)\<close> loop. The second component counts the passes (the
  executions of the loop body); it is not part of the source and only serves to
  state how many passes the loop makes.
\<close>

function refine_loop :: "DFA \<Rightarrow> int list \<Rightarrow> nat \<Rightarrow> (int list \<times> nat) option" where
  "refine_loop d part passes =
     (case refine_pass d part of
        None \<Rightarrow> None
      | Some new_part \<Rightarrow>
          if new_part \<noteq> part then refine_loop d new_part (Suc passes)
          else Some (part, Suc passes))"
  by pat_completeness auto
termination
  by (relation "measure (\<lambda>(d, p, k). loop_measure d p)") (auto simp: refine_pass_measure)

declare refine_loop.simps [simp del]

subsection \<open>The rest of minimize\<close>

definition initial_partition :: "DFA \<Rightarrow> int list" where
  "initial_partition d = map (\<lambda>s. if accept s then 1 else 0) (states d)"

text \<open>\<open>*max_element(begin, end)\<close> dereferences the end iterator on an empty vector.\<close>

definition max_element :: "int list \<Rightarrow> int option" where
  "max_element xs = (case xs of [] \<Rightarrow> None | x # rest \<Rightarrow> Some (fold max rest x))"

fun build_repr :: "int list \<Rightarrow> nat list \<Rightarrow> int list \<Rightarrow> int list option" where
  "build_repr part [] repr = Some repr"
| "build_repr part (i # rest) repr =
     (case nth_opt repr (part ! i) of
        None \<Rightarrow> None
      | Some r \<Rightarrow>
          build_repr part rest (if r < 0 then repr[nat (part ! i) := int i] else repr))"

text \<open>
  The state of class \<open>c\<close> in the minimized automaton: its transitions are those of
  the representative \<open>repr[c]\<close>, mapped to classes; it accepts when some state of
  the class accepts.
\<close>

definition class_state :: "DFA \<Rightarrow> int list \<Rightarrow> int list \<Rightarrow> nat \<Rightarrow> DFA_State option" where
  "class_state d part repr c =
     (case nth_opt (states d) (repr ! c) of
        None \<Rightarrow> None
      | Some st \<Rightarrow>
          (case nth_opt part (t0 st) of
             None \<Rightarrow> None
           | Some c0 \<Rightarrow>
               (case nth_opt part (t1 st) of
                  None \<Rightarrow> None
                | Some c1 \<Rightarrow>
                    Some \<lparr>sid = int c,
                          accept = list_ex (\<lambda>i. part ! i = int c \<and> accept (states d ! i))
                                     [0..<length (states d)],
                          t0 = c0, t1 = c1\<rparr>)))"

definition minimize :: "DFA \<Rightarrow> DFA option" where
  "minimize d =
     (case refine_loop d (initial_partition d) 0 of
        None \<Rightarrow> None
      | Some (part, passes) \<Rightarrow>
          (case max_element part of
             None \<Rightarrow> None
           | Some mx \<Rightarrow>
               (let count_classes = mx + 1 in
                case build_repr part [0..<length part] (replicate (nat count_classes) (-1)) of
                  None \<Rightarrow> None
                | Some repr \<Rightarrow>
                    (case nth_opt part (start d) of
                       None \<Rightarrow> None
                     | Some start_class \<Rightarrow>
                         (case nth_opt part (trap d) of
                            None \<Rightarrow> None
                          | Some trap_class \<Rightarrow>
                              (case those (map (class_state d part repr)
                                             [0..<nat count_classes]) of
                                 None \<Rightarrow> None
                               | Some sts \<Rightarrow>
                                   Some \<lparr>states = sts, start = start_class,
                                         trap = trap_class\<rparr>))))))"

subsection \<open>Total automata and the loop on them\<close>

text \<open>
  In a total automaton both successors of every state are existing states.
\<close>

definition total_dfa :: "DFA \<Rightarrow> bool" where
  "total_dfa d = (\<forall>s \<in> set (states d). in_range (t0 s) (states d) \<and> in_range (t1 s) (states d))"

lemma total_keys_ok:
  assumes "total_dfa d" "length p = length (states d)"
  shows "keys_ok d p"
proof -
  have "state_key d p i \<noteq> None" if "i < length (states d)" for i
  proof -
    have "states d ! i \<in> set (states d)" using that by simp
    then have "in_range (t0 (states d ! i)) p" "in_range (t1 (states d ! i)) p"
      using assms by (auto simp: total_dfa_def in_range_def)
    then show ?thesis
      using state_key_Some[of d p i] that assms(2) by auto
  qed
  then show ?thesis by (simp add: keys_ok_def)
qed

lemma refine_loop_total:
  "total_dfa d \<Longrightarrow> length p = length (states d) \<Longrightarrow>
   \<exists>q k. refine_loop d p k0 = Some (q, k)"
proof (induction d p k0 rule: refine_loop.induct)
  case (1 d part passes)
  show ?case
  proof (cases "refine_pass d part")
    case None
    then show ?thesis
      using refine_pass_spec[OF total_keys_ok[OF 1(2,3)]] by simp
  next
    case (Some np)
    show ?thesis
    proof (cases "np = part")
      case True
      then show ?thesis using Some by (subst refine_loop.simps) simp
    next
      case False
      have "length np = length (states d)" using refine_pass_props(2)[OF Some] .
      from 1(1)[OF Some False 1(2) this] show ?thesis
        using Some False by (subst refine_loop.simps) simp
    qed
  qed
qed

text \<open>
  An invariant of the partition that every pass preserves holds for the result
  of the loop, and the result is a fixpoint of the pass.
\<close>

lemma refine_loop_invariant:
  assumes "refine_loop d p k0 = Some (q, k)" "I p"
    and "\<And>p np. I p \<Longrightarrow> refine_pass d p = Some np \<Longrightarrow> I np"
  shows "I q \<and> refine_pass d q = Some q"
  using assms
proof (induction d p k0 rule: refine_loop.induct)
  case (1 d part passes)
  show ?case
  proof (cases "refine_pass d part")
    case None
    then show ?thesis using 1(2) by (subst (asm) refine_loop.simps) simp
  next
    case (Some np)
    show ?thesis
    proof (cases "np = part")
      case True
      then show ?thesis
        using 1(2,3) Some by (subst (asm) refine_loop.simps) simp
    next
      case False
      have "refine_loop d np (Suc passes) = Some (q, k)"
        using 1(2) Some False by (subst (asm) refine_loop.simps) simp
      from 1(1)[OF Some False this 1(4)[OF 1(3) Some] 1(4)] show ?thesis .
    qed
  qed
qed

subsection \<open>The partition at the fixpoint\<close>

definition accept_at :: "DFA \<Rightarrow> nat \<Rightarrow> bool" where
  "accept_at d i = accept (states d ! i)"

definition succ0 :: "DFA \<Rightarrow> nat \<Rightarrow> nat" where
  "succ0 d i = nat (t0 (states d ! i))"

definition succ1 :: "DFA \<Rightarrow> nat \<Rightarrow> nat" where
  "succ1 d i = nat (t1 (states d ! i))"

text \<open>
  The invariant of the loop: states of one class agree on acceptance, and two
  states that agree on acceptance and on the classes of both successors are in
  one class.
\<close>

definition part_inv :: "DFA \<Rightarrow> int list \<Rightarrow> bool" where
  "part_inv d p =
     (length p = length (states d) \<and>
      (\<forall>i < length (states d). \<forall>j < length (states d).
         (p ! i = p ! j \<longrightarrow> accept_at d i = accept_at d j) \<and>
         (accept_at d i = accept_at d j \<and> p ! succ0 d i = p ! succ0 d j \<and>
          p ! succ1 d i = p ! succ1 d j \<longrightarrow> p ! i = p ! j)))"

lemma part_inv_initial: "part_inv d (initial_partition d)"
  by (auto simp: part_inv_def initial_partition_def accept_at_def)

lemma keys_ok_succ:
  assumes "keys_ok d p" "length p = length (states d)" "i < length (states d)"
  shows "succ0 d i < length (states d)" and "succ1 d i < length (states d)"
    and "key_of d p i = (p ! i, p ! succ0 d i, p ! succ1 d i)"
  using key_of_eq[OF assms(1,3)] assms(2)
  by (auto simp: succ0_def succ1_def in_range_def)

lemma part_inv_step:
  assumes "part_inv d p" "refine_pass d p = Some np"
  shows "part_inv d np"
proof -
  note pr = refine_pass_props[OF assms(2)]
  have len: "length p = length (states d)" using assms(1) by (simp add: part_inv_def)
  note ks = keys_ok_succ[OF pr(1) len]
  let ?n = "length (states d)"
  have a: "accept_at d i = accept_at d j" if "i < ?n" "j < ?n" "np ! i = np ! j" for i j
  proof -
    have "p ! i = p ! j" using refine_pass_refines[OF assms(2) that] .
    then show ?thesis using assms(1) that unfolding part_inv_def by blast
  qed
  have b: "np ! i = np ! j"
    if ij: "i < ?n" "j < ?n" and acc: "accept_at d i = accept_at d j"
      and s0: "np ! succ0 d i = np ! succ0 d j" and s1: "np ! succ1 d i = np ! succ1 d j" for i j
  proof -
    have p0: "p ! succ0 d i = p ! succ0 d j"
      using refine_pass_refines[OF assms(2) ks(1)[OF ij(1)] ks(1)[OF ij(2)] s0] .
    have p1: "p ! succ1 d i = p ! succ1 d j"
      using refine_pass_refines[OF assms(2) ks(2)[OF ij(1)] ks(2)[OF ij(2)] s1] .
    have "p ! i = p ! j"
      using assms(1) ij acc p0 p1 unfolding part_inv_def by blast
    then have "key_of d p i = key_of d p j" using ks(3) ij p0 p1 by simp
    then show ?thesis using pr(3)[OF ij] by simp
  qed
  show ?thesis unfolding part_inv_def using pr(2) a b by blast
qed

lemma fixpoint_classes:
  assumes "refine_pass d q = Some q" "length q = length (states d)"
    "i < length (states d)" "j < length (states d)" "q ! i = q ! j"
  shows "q ! succ0 d i = q ! succ0 d j \<and> q ! succ1 d i = q ! succ1 d j"
proof -
  note pr = refine_pass_props[OF assms(1)]
  note ks = keys_ok_succ[OF pr(1) assms(2)]
  have "key_of d q i = key_of d q j" using pr(3)[OF assms(3,4)] assms(5) by simp
  then show ?thesis using ks(3) assms(3,4) by simp
qed

text \<open>
  Claim C4. On a total automaton the refinement loop, started from the partition
  into accepting and non-accepting states, returns a partition; in it two states
  are in the same class if and only if they agree on acceptance and, on each of
  the symbols 0 and 1, their successors are in the same class.
\<close>

theorem fixpoint_partition:
  assumes "total_dfa d"
  shows "\<exists>part passes.
           refine_loop d (initial_partition d) 0 = Some (part, passes) \<and>
           length part = length (states d) \<and>
           (\<forall>i < length (states d). \<forall>j < length (states d).
              part ! i = part ! j \<longleftrightarrow>
                (accept (states d ! i) = accept (states d ! j) \<and>
                 part ! nat (t0 (states d ! i)) = part ! nat (t0 (states d ! j)) \<and>
                 part ! nat (t1 (states d ! i)) = part ! nat (t1 (states d ! j))))"
proof -
  have "length (initial_partition d) = length (states d)"
    by (simp add: initial_partition_def)
  from refine_loop_total[OF assms this, of 0]
  obtain q k where loop: "refine_loop d (initial_partition d) 0 = Some (q, k)" by blast
  from refine_loop_invariant[of d _ 0 q k "part_inv d", OF loop part_inv_initial part_inv_step]
  have inv: "part_inv d q" and fp: "refine_pass d q = Some q" by auto
  have len: "length q = length (states d)" using inv by (simp add: part_inv_def)
  have "q ! i = q ! j \<longleftrightarrow>
          (accept (states d ! i) = accept (states d ! j) \<and>
           q ! nat (t0 (states d ! i)) = q ! nat (t0 (states d ! j)) \<and>
           q ! nat (t1 (states d ! i)) = q ! nat (t1 (states d ! j)))"
    if ij: "i < length (states d)" "j < length (states d)" for i j
  proof
    assume eq: "q ! i = q ! j"
    have "accept_at d i = accept_at d j"
      using inv ij eq unfolding part_inv_def by blast
    then show "accept (states d ! i) = accept (states d ! j) \<and>
           q ! nat (t0 (states d ! i)) = q ! nat (t0 (states d ! j)) \<and>
           q ! nat (t1 (states d ! i)) = q ! nat (t1 (states d ! j))"
      using fixpoint_classes[OF fp len ij eq]
      by (simp add: accept_at_def succ0_def succ1_def)
  next
    assume "accept (states d ! i) = accept (states d ! j) \<and>
           q ! nat (t0 (states d ! i)) = q ! nat (t0 (states d ! j)) \<and>
           q ! nat (t1 (states d ! i)) = q ! nat (t1 (states d ! j))"
    then have "accept_at d i = accept_at d j \<and> q ! succ0 d i = q ! succ0 d j \<and>
               q ! succ1 d i = q ! succ1 d j"
      by (simp add: accept_at_def succ0_def succ1_def)
    then show "q ! i = q ! j" using inv ij unfolding part_inv_def by blast
  qed
  then show ?thesis using loop len by blast
qed

text \<open>
  The theorem at the automaton that subset construction builds for the
  expression 0 (state 2 is the trap).
\<close>

theorem fixpoint_partition_witness:
  "total_dfa \<lparr>states = [\<lparr>sid = 0, accept = False, t0 = 1, t1 = 2\<rparr>,
                        \<lparr>sid = 1, accept = True, t0 = 2, t1 = 2\<rparr>,
                        \<lparr>sid = 2, accept = False, t0 = 2, t1 = 2\<rparr>],
              start = 0, trap = 2\<rparr> \<and>
   (\<exists>part passes.
      refine_loop \<lparr>states = [\<lparr>sid = 0, accept = False, t0 = 1, t1 = 2\<rparr>,
                             \<lparr>sid = 1, accept = True, t0 = 2, t1 = 2\<rparr>,
                             \<lparr>sid = 2, accept = False, t0 = 2, t1 = 2\<rparr>],
                   start = 0, trap = 2\<rparr> [0, 1, 0] 0 = Some (part, passes) \<and>
      length part = 3 \<and> part ! 0 \<noteq> part ! 2)"
proof -
  let ?d = "\<lparr>states = [\<lparr>sid = 0, accept = False, t0 = 1, t1 = 2\<rparr>,
                        \<lparr>sid = 1, accept = True, t0 = 2, t1 = 2\<rparr>,
                        \<lparr>sid = 2, accept = False, t0 = 2, t1 = 2\<rparr>],
              start = 0, trap = 2\<rparr>"
  have t: "total_dfa ?d" by (simp add: total_dfa_def in_range_def)
  from fixpoint_partition[OF t] obtain part passes
    where l: "refine_loop ?d (initial_partition ?d) 0 = Some (part, passes)"
      and n: "length part = length (states ?d)"
      and c: "\<forall>i < length (states ?d). \<forall>j < length (states ?d).
              part ! i = part ! j \<longleftrightarrow>
                (accept (states ?d ! i) = accept (states ?d ! j) \<and>
                 part ! nat (t0 (states ?d ! i)) = part ! nat (t0 (states ?d ! j)) \<and>
                 part ! nat (t1 (states ?d ! i)) = part ! nat (t1 (states ?d ! j)))"
    by blast
  have "part ! 1 \<noteq> part ! 2" using c[rule_format, of 1 2] by simp
  then have "part ! 0 \<noteq> part ! 2" using c[rule_format, of 0 2] by simp
  then show ?thesis using t l n by (simp add: initial_partition_def)
qed

subsection \<open>The number of passes\<close>

definition potential :: "DFA \<Rightarrow> int list \<Rightarrow> nat" where
  "potential d p = (length (states d) - card (set p)) + (if canonical p then 0 else 1)"

lemma refine_pass_potential:
  assumes "refine_pass d p = Some np" "np \<noteq> p" "length p = length (states d)"
  shows "Suc (potential d np) \<le> potential d p"
proof -
  note pr = refine_pass_props[OF assms(1)]
  let ?n = "length (states d)"
  have cn: "card (set np) \<le> ?n" using card_length[of np] pr(2) by simp
  have le: "card (set p) \<le> card (set np)" by (rule refine_pass_card[OF assms(1,3)])
  show ?thesis
  proof (cases "card (set np) = card (set p)")
    case True
    have "\<not> canonical p" using refine_pass_stable[OF assms(1,3) _ True] assms(2) by blast
    then show ?thesis using pr(6) True by (simp add: potential_def)
  next
    case False
    then have "card (set p) < card (set np)" using le by simp
    then show ?thesis using pr(6) cn by (simp add: potential_def)
  qed
qed

lemma refine_loop_passes:
  "refine_loop d p k0 = Some (q, k) \<Longrightarrow> length p = length (states d) \<Longrightarrow>
   k \<le> k0 + 1 + potential d p"
proof (induction d p k0 rule: refine_loop.induct)
  case (1 d part passes)
  show ?case
  proof (cases "refine_pass d part")
    case None
    then show ?thesis using 1(2) by (subst (asm) refine_loop.simps) simp
  next
    case (Some np)
    show ?thesis
    proof (cases "np = part")
      case True
      then show ?thesis using 1(2) Some by (subst (asm) refine_loop.simps) simp
    next
      case False
      have l: "refine_loop d np (Suc passes) = Some (q, k)"
        using 1(2) Some False by (subst (asm) refine_loop.simps) simp
      have "k \<le> Suc passes + 1 + potential d np"
        using 1(1)[OF Some False l refine_pass_props(2)[OF Some]] .
      then show ?thesis using refine_pass_potential[OF Some False 1(3)] by simp
    qed
  qed
qed

lemma init_set_cases:
  "set (initial_partition d) =
     (if \<exists>s \<in> set (states d). \<not> accept s then {0} else {}) \<union>
     (if \<exists>s \<in> set (states d). accept s then {1} else {})"
  by (auto simp: initial_partition_def)

lemma canonical_singleton: "canonical p" if "set p = {0}"
proof -
  have "{0} = {0..<(1::int)}" by auto
  then show ?thesis using that by (simp add: canonical_def)
qed

lemma canonical_pair: "canonical p" if "set p = {0, 1}"
proof -
  have "card (set p) = 2" using that by simp
  moreover have "{0, 1} = {0..<(2::int)}" by auto
  ultimately show ?thesis using that by (simp add: canonical_def)
qed

lemma initial_potential:
  "potential d (initial_partition d) \<le> length (states d)"
  "\<exists>s \<in> set (states d). \<not> accept s \<Longrightarrow>
     Suc (potential d (initial_partition d)) \<le> length (states d)"
proof -
  let ?p = "initial_partition d"
  let ?n = "length (states d)"
  let ?A = "\<exists>s \<in> set (states d). accept s"
  let ?B = "\<exists>s \<in> set (states d). \<not> accept s"
  have len: "length ?p = ?n" by (simp add: initial_partition_def)
  have pos: "0 < ?n" if "set ?p \<noteq> {}"
    using that len by (cases "states d") (simp_all add: initial_partition_def)
  have "potential d ?p \<le> ?n \<and> (?B \<longrightarrow> Suc (potential d ?p) \<le> ?n)"
  proof (cases ?B)
    case b: True
    show ?thesis
    proof (cases ?A)
      case True
      have s: "set ?p = {0, 1}" using init_set_cases[of d] b True by auto
      have c: "card (set ?p) = 2" unfolding s by simp
      have "2 \<le> ?n" using card_length[of ?p] c len by simp
      then show ?thesis using canonical_pair[OF s] c by (auto simp: potential_def)
    next
      case False
      have s: "set ?p = {0}" using init_set_cases[of d] b False by simp
      have c: "card (set ?p) = 1" unfolding s by simp
      have "0 < ?n" using pos s by simp
      then show ?thesis using canonical_singleton[OF s] c by (simp add: potential_def)
    qed
  next
    case nb: False
    show ?thesis
    proof (cases ?A)
      case True
      have s: "set ?p = {1}" using init_set_cases[of d] nb True by simp
      have c: "card (set ?p) = 1" unfolding s by simp
      have "0 < ?n" using pos s by simp
      then show ?thesis using nb c by (simp add: potential_def)
    next
      case False
      have s: "set ?p = {}" using init_set_cases[of d] nb False by simp
      then show ?thesis using nb by (simp add: potential_def canonical_def)
    qed
  qed
  then show "potential d ?p \<le> ?n" and "?B \<Longrightarrow> Suc (potential d ?p) \<le> ?n"
    by blast+
qed

text \<open>
  When every state is in the same class, one pass maps every state to class 0:
  all keys are equal.
\<close>

lemma refine_pass_constant:
  assumes "total_dfa d" "length p = length (states d)" "\<forall>i < length p. p ! i = c"
  shows "refine_pass d p = Some (replicate (length (states d)) 0)"
proof -
  let ?n = "length (states d)"
  have ok: "keys_ok d p" by (rule total_keys_ok[OF assms(1,2)])
  from refine_pass_spec[OF ok] obtain np where
    np: "refine_pass d p = Some np" "length np = ?n"
        "set np = {0..<int (card (key_of d p ` {0..<?n}))}" by blast
  have key: "key_of d p i = (c, c, c)" if "i < ?n" for i
  proof -
    note k = key_of_eq[OF ok that]
    have "nat (t0 (states d ! i)) < length p" "nat (t1 (states d ! i)) < length p"
      using k(2,3) by (auto simp: in_range_def nat_less_iff)
    then show ?thesis using k(1,4) assms(3) by simp
  qed
  have "key_of d p ` {0..<?n} \<subseteq> {(c, c, c)}" using key by auto
  then have "card (key_of d p ` {0..<?n}) \<le> 1"
    using card_mono[of "{(c, c, c)}" "key_of d p ` {0..<?n}"] by simp
  then have "set np \<subseteq> {0}" unfolding np(3) by auto
  then have "\<forall>i < length np. np ! i = 0" using nth_mem by blast
  then have "np = replicate ?n 0" using np(2) by (simp add: nth_equalityI)
  then show ?thesis using np(1) by simp
qed

lemma refine_loop_all_accepting:
  assumes "total_dfa d" "\<forall>s \<in> set (states d). accept s" "0 < length (states d)"
  shows "refine_loop d (initial_partition d) 0 = Some (replicate (length (states d)) 0, 2)"
proof -
  let ?n = "length (states d)"
  let ?p = "initial_partition d"
  let ?q = "replicate ?n (0::int)"
  have len: "length ?p = ?n" by (simp add: initial_partition_def)
  have "\<forall>i < length ?p. ?p ! i = 1" using assms(2) by (simp add: initial_partition_def)
  from refine_pass_constant[OF assms(1) len this]
  have p1: "refine_pass d ?p = Some ?q" .
  have "?p ! 0 = 1" using assms(2,3) by (simp add: initial_partition_def)
  moreover have "?q ! 0 = 0" using assms(3) by simp
  ultimately have ne: "?q \<noteq> ?p" by auto
  have "refine_pass d ?q = Some ?q"
    using refine_pass_constant[OF assms(1), of ?q 0] by simp
  then have "refine_loop d ?q (Suc 0) = Some (?q, 2)"
    by (subst refine_loop.simps) (simp add: numeral_2_eq_2)
  then show ?thesis using p1 ne by (subst refine_loop.simps) simp
qed

text \<open>
  The input of the minimizer is a determinized automaton with its trap, which
  is not accepting: such an automaton has a state that is not accepting. On a
  total automaton that has a state that is not accepting, or at least two
  states, the loop returns after at most as many passes as there are states.
\<close>

lemma refine_loop_bound:
  assumes "total_dfa d"
    and "(\<exists>s \<in> set (states d). \<not> accept s) \<or> 2 \<le> length (states d)"
  shows "\<exists>part passes. refine_loop d (initial_partition d) 0 = Some (part, passes) \<and>
           passes \<le> length (states d)"
proof (cases "\<exists>s \<in> set (states d). \<not> accept s")
  case True
  let ?p = "initial_partition d"
  have len: "length ?p = length (states d)" by (simp add: initial_partition_def)
  from refine_loop_total[OF assms(1) len, of 0]
  obtain q k where loop: "refine_loop d ?p 0 = Some (q, k)" by blast
  have "k \<le> 1 + potential d ?p" using refine_loop_passes[OF loop len] by simp
  then have "k \<le> length (states d)" using initial_potential(2)[OF True] by simp
  then show ?thesis using loop by blast
next
  case False
  then have all: "\<forall>s \<in> set (states d). accept s" by blast
  have n: "2 \<le> length (states d)" using assms(2) False by blast
  then have "0 < length (states d)" by linarith
  from refine_loop_all_accepting[OF assms(1) all this] show ?thesis using n by simp
qed

lemma refine_pass_splits:
  assumes "length p = length (states d)" "refine_pass d p = Some np"
  shows "(\<forall>i < length (states d). \<forall>j < length (states d).
            np ! i = np ! j \<longrightarrow> p ! i = p ! j) \<and>
         card (set p) \<le> card (set np) \<and> card (set np) \<le> length (states d)"
proof (intro conjI allI impI)
  show "p ! i = p ! j"
    if "i < length (states d)" "j < length (states d)" "np ! i = np ! j" for i j
    using refine_pass_refines[OF assms(2) that] .
  show "card (set p) \<le> card (set np)" by (rule refine_pass_card[OF assms(2,1)])
  show "card (set np) \<le> length (states d)"
    using card_length[of np] refine_pass_props(2)[OF assms(2)] by simp
qed

text \<open>
  Claim C7. The minimizer receives a total automaton that includes its trap, a
  state that is not accepting. On every total automaton that has a state that
  is not accepting (or that has at least two states) the refinement loop
  returns after at most as many passes as there are states, the pass that finds
  no change included. A pass never puts two states of different classes into
  one class, so the number of classes does not decrease from pass to pass, and
  it is at most the number of states.
\<close>

theorem refinement_passes:
  assumes "total_dfa d"
    and "(\<exists>s \<in> set (states d). \<not> accept s) \<or> 2 \<le> length (states d)"
  shows "(\<exists>part passes.
            refine_loop d (initial_partition d) 0 = Some (part, passes) \<and>
            passes \<le> length (states d)) \<and>
         (\<forall>p np. length p = length (states d) \<longrightarrow> refine_pass d p = Some np \<longrightarrow>
            (\<forall>i < length (states d). \<forall>j < length (states d).
               np ! i = np ! j \<longrightarrow> p ! i = p ! j) \<and>
            card (set p) \<le> card (set np) \<and> card (set np) \<le> length (states d))"
  using refine_loop_bound[OF assms] refine_pass_splits[of _ d] by blast

theorem refinement_passes_witness:
  "total_dfa \<lparr>states = [\<lparr>sid = 0, accept = False, t0 = 1, t1 = 2\<rparr>,
                         \<lparr>sid = 1, accept = True, t0 = 2, t1 = 2\<rparr>,
                         \<lparr>sid = 2, accept = False, t0 = 2, t1 = 2\<rparr>],
               start = 0, trap = 2\<rparr> \<and>
   \<not> accept \<lparr>sid = 2, accept = False, t0 = 2, t1 = 2\<rparr> \<and>
   (\<exists>part passes.
     refine_loop \<lparr>states = [\<lparr>sid = 0, accept = False, t0 = 1, t1 = 2\<rparr>,
                            \<lparr>sid = 1, accept = True, t0 = 2, t1 = 2\<rparr>,
                            \<lparr>sid = 2, accept = False, t0 = 2, t1 = 2\<rparr>],
                  start = 0, trap = 2\<rparr> [0, 1, 0] 0 = Some (part, passes) \<and>
     passes \<le> 3)"
proof -
  let ?d = "\<lparr>states = [\<lparr>sid = 0, accept = False, t0 = 1, t1 = 2\<rparr>,
                        \<lparr>sid = 1, accept = True, t0 = 2, t1 = 2\<rparr>,
                        \<lparr>sid = 2, accept = False, t0 = 2, t1 = 2\<rparr>],
              start = 0, trap = 2\<rparr>"
  have t: "total_dfa ?d" by (simp add: total_dfa_def in_range_def)
  have h: "(\<exists>s \<in> set (states ?d). \<not> accept s) \<or> 2 \<le> length (states ?d)" by simp
  from conjunct1[OF refinement_passes[OF t h]] obtain part passes
    where "refine_loop ?d (initial_partition ?d) 0 = Some (part, passes)"
      and "passes \<le> length (states ?d)"
    by blast
  then show ?thesis using t by (auto simp: initial_partition_def)
qed

text \<open>
  The bound needs the condition on the input. The automaton with one accepting
  state that loops to itself has no trap that is not accepting: there the
  first pass renumbers class 1 to class 0 and the second pass finds no change,
  which are two passes on one state. On every total automaton the loop returns
  after at most one pass more than there are states.
\<close>

lemma refine_loop_single_accepting:
  "refine_loop \<lparr>states = [\<lparr>sid = 0, accept = True, t0 = 0, t1 = 0\<rparr>], start = 0, trap = 0\<rparr>
     (initial_partition
        \<lparr>states = [\<lparr>sid = 0, accept = True, t0 = 0, t1 = 0\<rparr>], start = 0, trap = 0\<rparr>) 0 =
   Some ([0], 2)"
  by (simp add: initial_partition_def refine_loop.simps refine_pass_def state_key_def
      nth_opt_def)

lemma refine_loop_bound_any:
  assumes "total_dfa d"
  shows "\<exists>part passes. refine_loop d (initial_partition d) 0 = Some (part, passes) \<and>
           passes \<le> length (states d) + 1"
proof -
  let ?p = "initial_partition d"
  have len: "length ?p = length (states d)" by (simp add: initial_partition_def)
  from refine_loop_total[OF assms len, of 0]
  obtain q k where loop: "refine_loop d ?p 0 = Some (q, k)" by blast
  have "k \<le> 1 + potential d ?p" using refine_loop_passes[OF loop len] by simp
  then have "k \<le> length (states d) + 1" using initial_potential(1)[of d] by simp
  then show ?thesis using loop by blast
qed

subsection \<open>The minimized automaton as a quotient\<close>

text \<open>
  A well-formed automaton for the minimizer: total, with a start index and a
  trap index that address states.
\<close>

definition wf_dfa :: "DFA \<Rightarrow> bool" where
  "wf_dfa d = (total_dfa d \<and> in_range (start d) (states d) \<and> in_range (trap d) (states d))"

lemma those_map_Some:
  assumes "\<forall>x \<in> set xs. f x \<noteq> None"
  shows "those (map f xs) = Some (map (\<lambda>x. the (f x)) xs)"
  using assms by (induction xs) auto

lemma max_element_canonical:
  assumes "canonical p" "p \<noteq> []"
  shows "max_element p = Some (int (card (set p)) - 1)"
proof -
  obtain x xs where p: "p = x # xs" using assms(2) by (cases p) auto
  have "fold max xs x = Max (set (x # xs))" by (rule Max.set_eq_fold[symmetric])
  also have "\<dots> = Max {0..<int (card (set p))}"
    using assms(1) p unfolding canonical_def by simp
  also have "\<dots> = int (card (set p)) - 1"
  proof -
    have "0 < card (set p)" using assms(2) by (simp add: card_gt_0_iff)
    then show ?thesis by (intro Max_eqI) auto
  qed
  finally show ?thesis by (simp add: max_element_def p)
qed

text \<open>
  The representatives: after the loop over the states in \<open>S\<close>, an entry is
  negative when no state of \<open>S\<close> has that class, and is otherwise a state of \<open>S\<close>
  of that class.
\<close>

definition repr_inv :: "int list \<Rightarrow> nat set \<Rightarrow> int list \<Rightarrow> bool" where
  "repr_inv q S repr =
     (\<forall>c < length repr.
        (repr ! c < 0 \<longrightarrow> (\<forall>i \<in> S. q ! i \<noteq> int c)) \<and>
        (0 \<le> repr ! c \<longrightarrow> nat (repr ! c) \<in> S \<and> q ! nat (repr ! c) = int c))"

lemma build_repr_inv:
  assumes "\<forall>i \<in> set xs. 0 \<le> q ! i \<and> q ! i < int (length repr)" "repr_inv q S repr"
  shows "\<exists>r. build_repr q xs repr = Some r \<and> length r = length repr \<and>
             repr_inv q (S \<union> set xs) r"
  using assms
proof (induction xs arbitrary: repr S)
  case Nil
  then show ?case by simp
next
  case (Cons i xs)
  let ?c = "nat (q ! i)"
  have c0: "0 \<le> q ! i \<and> q ! i < int (length repr)" using Cons.prems(1) by simp
  have c: "0 \<le> q ! i" "?c < length repr" "int ?c = q ! i" using c0 by auto
  let ?r = "if repr ! ?c < 0 then repr[?c := int i] else repr"
  have look: "nth_opt repr (q ! i) = Some (repr ! ?c)"
    using c0 by (simp add: nth_opt_def)
  have inv: "repr_inv q (insert i S) ?r"
    unfolding repr_inv_def
  proof (intro allI impI)
    fix c' assume c': "c' < length ?r"
    then have c'l: "c' < length repr" by (simp split: if_splits)
    note old = Cons.prems(2)[unfolded repr_inv_def, rule_format, OF c'l]
    show "(?r ! c' < 0 \<longrightarrow> (\<forall>j \<in> insert i S. q ! j \<noteq> int c')) \<and>
          (0 \<le> ?r ! c' \<longrightarrow> nat (?r ! c') \<in> insert i S \<and> q ! nat (?r ! c') = int c')"
    proof (cases "c' = ?c")
      case True
      show ?thesis
      proof (cases "repr ! ?c < 0")
        case neg: True
        then show ?thesis using True c by simp
      next
        case False
        then show ?thesis using True old c by auto
      qed
    next
      case False
      then have "q ! i \<noteq> int c'" using c by auto
      then show ?thesis using False old c'l by (auto simp: nth_list_update)
    qed
  qed
  have "\<forall>j \<in> set xs. 0 \<le> q ! j \<and> q ! j < int (length ?r)"
    using Cons.prems(1) by simp
  from Cons.IH[OF this inv] obtain r where
    r: "build_repr q xs ?r = Some r" "length r = length ?r" "repr_inv q (insert i S \<union> set xs) r"
    by blast
  have "build_repr q (i # xs) repr = Some r" using look r(1) by simp
  moreover have "length r = length repr" using r(2) by (simp split: if_splits)
  moreover have "repr_inv q (S \<union> set (i # xs)) r" using r(3) by simp
  ultimately show ?case by blast
qed

text \<open>
  \<open>quotient_of d q m\<close>: the automaton \<open>m\<close> is the quotient of \<open>d\<close> by the partition
  \<open>q\<close>: the states of \<open>m\<close> are the classes, and the state of the class of \<open>i\<close>
  accepts as \<open>i\<close> does and leads to the classes of the successors of \<open>i\<close>.
\<close>

definition quotient_of :: "DFA \<Rightarrow> int list \<Rightarrow> DFA \<Rightarrow> bool" where
  "quotient_of d q m =
     (part_inv d q \<and> refine_pass d q = Some q \<and>
      set q = {0..<int (length (states m))} \<and>
      start m = q ! nat (start d) \<and> trap m = q ! nat (trap d) \<and>
      (\<forall>i < length (states d).
         states m ! nat (q ! i) =
           \<lparr>sid = q ! i, accept = accept_at d i, t0 = q ! succ0 d i, t1 = q ! succ1 d i\<rparr>))"

lemma minimize_quotient:
  assumes "wf_dfa d"
  shows "\<exists>q k m. refine_loop d (initial_partition d) 0 = Some (q, k) \<and>
                 minimize d = Some m \<and> quotient_of d q m"
proof -
  let ?n = "length (states d)"
  have tot: "total_dfa d" and st: "in_range (start d) (states d)"
    and tr: "in_range (trap d) (states d)"
    using assms by (auto simp: wf_dfa_def)
  have len0: "length (initial_partition d) = ?n" by (simp add: initial_partition_def)
  from refine_loop_total[OF tot len0, of 0]
  obtain q k where loop: "refine_loop d (initial_partition d) 0 = Some (q, k)" by blast
  from refine_loop_invariant[of d _ 0 q k "part_inv d", OF loop part_inv_initial part_inv_step]
  have inv: "part_inv d q" and fp: "refine_pass d q = Some q" by auto
  have len: "length q = ?n" using inv by (simp add: part_inv_def)
  note pr = refine_pass_props[OF fp]
  note ks = keys_ok_succ[OF pr(1) len]
  have can: "canonical q" by (rule pr(6))
  have ne: "q \<noteq> []" using st len by (auto simp: in_range_def)
  define K where "K = card (set q)"
  have Kpos: "0 < K" using ne by (simp add: K_def card_gt_0_iff)
  have setq: "set q = {0..<int K}" using can by (simp add: canonical_def K_def)
  have mx: "max_element q = Some (int K - 1)"
    using max_element_canonical[OF can ne] by (simp add: K_def)
  have cnt: "nat (int K - 1 + 1) = K" by simp
  have qin: "0 \<le> q ! i \<and> q ! i < int K" if "i < ?n" for i
    using setq that len by (metis atLeastLessThan_iff nth_mem)
  have "\<forall>i \<in> set [0..<length q]. 0 \<le> q ! i \<and> q ! i < int (length (replicate K (-1::int)))"
    using qin len by simp
  moreover have "repr_inv q {} (replicate K (-1))" by (simp add: repr_inv_def)
  ultimately obtain repr where
    rp: "build_repr q [0..<length q] (replicate K (-1)) = Some repr"
    and rl: "length repr = K" and ri: "repr_inv q ({} \<union> set [0..<length q]) repr"
    using build_repr_inv[of "[0..<length q]" q "replicate K (-1)" "{}"] by auto
  have rep: "0 \<le> repr ! c \<and> nat (repr ! c) < ?n \<and> q ! nat (repr ! c) = int c" if "c < K" for c
  proof -
    have "int c \<in> set q" using setq that by simp
    then obtain i where i: "i < ?n" "q ! i = int c" using len by (auto simp: in_set_conv_nth)
    have "\<not> repr ! c < 0"
      using ri[unfolded repr_inv_def, rule_format, of c] that rl i len by auto
    then show ?thesis
      using ri[unfolded repr_inv_def, rule_format, of c] that rl len by auto
  qed
  define cls where "cls c = \<lparr>sid = int c,
        accept = list_ex (\<lambda>i. q ! i = int c \<and> accept (states d ! i)) [0..<?n],
        t0 = q ! succ0 d (nat (repr ! c)), t1 = q ! succ1 d (nat (repr ! c))\<rparr>" for c
  have cs: "class_state d q repr c = Some (cls c)" if "c < K" for c
  proof -
    let ?r = "nat (repr ! c)"
    have r: "0 \<le> repr ! c" "?r < ?n" using rep[OF that] by auto
    have a: "nth_opt (states d) (repr ! c) = Some (states d ! ?r)"
      using r by (simp add: nth_opt_def)
    have b: "nth_opt q (t0 (states d ! ?r)) = Some (q ! succ0 d ?r)"
      using key_of_eq(2)[OF pr(1) r(2)] by (simp add: nth_opt_def in_range_def succ0_def)
    have c: "nth_opt q (t1 (states d ! ?r)) = Some (q ! succ1 d ?r)"
      using key_of_eq(3)[OF pr(1) r(2)] by (simp add: nth_opt_def in_range_def succ1_def)
    show ?thesis by (simp add: class_state_def a b c cls_def)
  qed
  have th: "those (map (class_state d q repr) [0..<K]) = Some (map cls [0..<K])"
  proof -
    have "those (map (class_state d q repr) [0..<K]) =
          Some (map (\<lambda>x. the (class_state d q repr x)) [0..<K])"
      by (rule those_map_Some) (simp add: cs)
    also have "map (\<lambda>x. the (class_state d q repr x)) [0..<K] = map cls [0..<K]"
      by (rule map_cong) (simp_all add: cs)
    finally show ?thesis .
  qed
  have s1: "nth_opt q (start d) = Some (q ! nat (start d))"
    using st len by (simp add: nth_opt_def in_range_def)
  have s2: "nth_opt q (trap d) = Some (q ! nat (trap d))"
    using tr len by (simp add: nth_opt_def in_range_def)
  define m where "m = \<lparr>states = map cls [0..<K], start = q ! nat (start d),
                        trap = q ! nat (trap d)\<rparr>"
  have mini: "minimize d = Some m"
    by (simp add: minimize_def loop mx cnt rp th s1 s2 m_def Let_def)
  have stm: "states m ! nat (q ! i) =
           \<lparr>sid = q ! i, accept = accept_at d i, t0 = q ! succ0 d i, t1 = q ! succ1 d i\<rparr>"
    if i: "i < ?n" for i
  proof -
    let ?c = "nat (q ! i)"
    have c: "?c < K" "int ?c = q ! i" using qin[OF i] by auto
    let ?r = "nat (repr ! ?c)"
    have r: "?r < ?n" "q ! ?r = q ! i" using rep[OF c(1)] c(2) by auto
    have sc: "q ! succ0 d ?r = q ! succ0 d i \<and> q ! succ1 d ?r = q ! succ1 d i"
      by (rule fixpoint_classes[OF fp len r(1) i r(2)])
    have acc: "list_ex (\<lambda>j. q ! j = int ?c \<and> accept (states d ! j)) [0..<?n] = accept_at d i"
    proof
      assume "list_ex (\<lambda>j. q ! j = int ?c \<and> accept (states d ! j)) [0..<?n]"
      then obtain j where j: "j < ?n" "q ! j = q ! i" "accept_at d j"
        using c(2) by (auto simp: list_ex_iff accept_at_def)
      then show "accept_at d i" using inv i unfolding part_inv_def by blast
    next
      assume "accept_at d i"
      then show "list_ex (\<lambda>j. q ! j = int ?c \<and> accept (states d ! j)) [0..<?n]"
        using i c(2) by (auto simp: list_ex_iff accept_at_def)
    qed
    have "states m ! ?c = cls ?c" using c(1) by (simp add: m_def)
    then show ?thesis using sc acc c(2) by (simp add: cls_def)
  qed
  have "quotient_of d q m"
    unfolding quotient_of_def using inv fp setq stm by (simp add: m_def)
  then show ?thesis using loop mini by blast
qed

section \<open>Running an automaton on a string\<close>

text \<open>
  The source never runs its automata; acceptance is defined here as the claims
  state it: start in the start state, follow \<open>t0\<close> on the character 0 and \<open>t1\<close> on
  the character 1; a missing transition (-1, or any index that addresses no
  state) rejects; the string is accepted when the run ends in an accepting state.
\<close>

definition next_state :: "DFA \<Rightarrow> int \<Rightarrow> char \<Rightarrow> int" where
  "next_state d q c =
     (if in_range q (states d) then
        (if c = CHR ''0'' then t0 (states d ! nat q)
         else if c = CHR ''1'' then t1 (states d ! nat q)
         else -1)
      else -1)"

fun run :: "DFA \<Rightarrow> int \<Rightarrow> string \<Rightarrow> int" where
  "run d q [] = q"
| "run d q (c # w) = run d (next_state d q c) w"

definition accepts_from :: "DFA \<Rightarrow> int \<Rightarrow> string \<Rightarrow> bool" where
  "accepts_from d q w =
     (in_range (run d q w) (states d) \<and> accept (states d ! nat (run d q w)))"

definition dfa_accepts :: "DFA \<Rightarrow> string \<Rightarrow> bool" where
  "dfa_accepts d w = accepts_from d (start d) w"

lemma accepts_from_Nil:
  "accepts_from d q [] = (in_range q (states d) \<and> accept (states d ! nat q))"
  by (simp add: accepts_from_def)

lemma accepts_from_Cons:
  "accepts_from d q (c # w) = accepts_from d (next_state d q c) w"
  by (simp add: accepts_from_def)

lemma run_dead: "\<not> in_range q (states d) \<Longrightarrow> run d q w = q \<or> run d q w = -1"
proof (induction w arbitrary: q)
  case Nil
  then show ?case by simp
next
  case (Cons c w)
  have "next_state d q c = -1" using Cons.prems by (simp add: next_state_def)
  moreover have "\<not> in_range (-1) (states d)" by (simp add: in_range_def)
  ultimately show ?case using Cons.IH[of "-1"] by auto
qed

lemma accepts_from_dead: "\<not> in_range q (states d) \<Longrightarrow> \<not> accepts_from d q w"
proof -
  assume a: "\<not> in_range q (states d)"
  have "\<not> in_range (-1) (states d)" by (simp add: in_range_def)
  then show ?thesis using run_dead[OF a, of w] a by (auto simp: accepts_from_def)
qed

subsection \<open>The quotient accepts the same strings\<close>

lemma quotient_props:
  assumes "quotient_of d q m"
  shows "length q = length (states d)"
    and "\<And>i. i < length (states d) \<Longrightarrow> in_range (q ! i) (states m)"
    and "\<And>i. i < length (states d) \<Longrightarrow> accept (states m ! nat (q ! i)) = accept_at d i"
    and "\<And>i. i < length (states d) \<Longrightarrow> t0 (states m ! nat (q ! i)) = q ! succ0 d i"
    and "\<And>i. i < length (states d) \<Longrightarrow> t1 (states m ! nat (q ! i)) = q ! succ1 d i"
    and "\<And>i. i < length (states d) \<Longrightarrow> succ0 d i < length (states d)"
    and "\<And>i. i < length (states d) \<Longrightarrow> succ1 d i < length (states d)"
    and "\<And>c. in_range c (states m) \<Longrightarrow> \<exists>i < length (states d). q ! i = c"
proof -
  have inv: "part_inv d q" and fp: "refine_pass d q = Some q"
    and setq: "set q = {0..<int (length (states m))}"
    and stm: "\<And>i. i < length (states d) \<Longrightarrow> states m ! nat (q ! i) =
           \<lparr>sid = q ! i, accept = accept_at d i, t0 = q ! succ0 d i, t1 = q ! succ1 d i\<rparr>"
    using assms by (auto simp: quotient_of_def)
  show len: "length q = length (states d)" using inv by (simp add: part_inv_def)
  note ks = keys_ok_succ[OF refine_pass_props(1)[OF fp] len]
  show "in_range (q ! i) (states m)" if "i < length (states d)" for i
  proof -
    have "q ! i \<in> set q" using that len by simp
    then show ?thesis unfolding setq by (simp add: in_range_def)
  qed
  show "accept (states m ! nat (q ! i)) = accept_at d i" if "i < length (states d)" for i
    using stm[OF that] by simp
  show "t0 (states m ! nat (q ! i)) = q ! succ0 d i" if "i < length (states d)" for i
    using stm[OF that] by simp
  show "t1 (states m ! nat (q ! i)) = q ! succ1 d i" if "i < length (states d)" for i
    using stm[OF that] by simp
  show "succ0 d i < length (states d)" if "i < length (states d)" for i
    using ks(1)[OF that] .
  show "succ1 d i < length (states d)" if "i < length (states d)" for i
    using ks(2)[OF that] .
  show "\<exists>i < length (states d). q ! i = c" if "in_range c (states m)" for c
  proof -
    have "c \<in> set q" using that unfolding setq by (simp add: in_range_def)
    then show ?thesis using len by (auto simp: in_set_conv_nth)
  qed
qed

lemma total_next_state:
  assumes "i < length (states d)" "0 \<le> t0 (states d ! i)" "0 \<le> t1 (states d ! i)"
  shows "next_state d (int i) CHR ''0'' = int (succ0 d i)"
    and "next_state d (int i) CHR ''1'' = int (succ1 d i)"
    and "c \<noteq> CHR ''0'' \<Longrightarrow> c \<noteq> CHR ''1'' \<Longrightarrow> next_state d (int i) c = -1"
  using assms by (simp_all add: next_state_def in_range_def succ0_def succ1_def)

lemma quotient_accepts_from:
  assumes "quotient_of d q m" "total_dfa d"
  shows "i < length (states d) \<Longrightarrow> accepts_from m (q ! i) w = accepts_from d (int i) w"
proof (induction w arbitrary: i)
  case Nil
  show ?case
    using quotient_props(2,3)[OF assms(1) Nil] Nil
    by (simp add: accepts_from_Nil accept_at_def in_range_def)
next
  case (Cons c w)
  note qp = quotient_props[OF assms(1)]
  have si: "states d ! i \<in> set (states d)" using Cons.prems by simp
  then have nn: "0 \<le> t0 (states d ! i)" "0 \<le> t1 (states d ! i)"
    using assms(2) by (auto simp: total_dfa_def in_range_def)
  note ns = total_next_state[OF Cons.prems nn]
  have qi: "in_range (q ! i) (states m)" by (rule qp(2)[OF Cons.prems])
  show ?case
  proof (cases "c = CHR ''0''")
    case True
    have "next_state m (q ! i) c = q ! succ0 d i"
      using qi qp(4)[OF Cons.prems] True by (simp add: next_state_def)
    then show ?thesis
      using Cons.IH[OF qp(6)[OF Cons.prems]] ns(1) True by (simp add: accepts_from_Cons)
  next
    case c0: False
    show ?thesis
    proof (cases "c = CHR ''1''")
      case True
      have "next_state m (q ! i) c = q ! succ1 d i"
        using qi qp(5)[OF Cons.prems] True c0 by (simp add: next_state_def)
      then show ?thesis
        using Cons.IH[OF qp(7)[OF Cons.prems]] ns(2) True by (simp add: accepts_from_Cons)
    next
      case False
      have "next_state m (q ! i) c = -1" using c0 False by (simp add: next_state_def)
      moreover have "\<not> in_range (-1) (states m)" "\<not> in_range (-1) (states d)"
        by (simp_all add: in_range_def)
      ultimately show ?thesis
        using ns(3)[OF c0 False] by (simp add: accepts_from_Cons accepts_from_dead)
    qed
  qed
qed

text \<open>States in different classes are told apart by some string.\<close>

definition dist_inv :: "DFA \<Rightarrow> int list \<Rightarrow> bool" where
  "dist_inv d p =
     (length p = length (states d) \<and>
      (\<forall>i < length (states d). \<forall>j < length (states d).
         p ! i \<noteq> p ! j \<longrightarrow> (\<exists>w. accepts_from d (int i) w \<noteq> accepts_from d (int j) w)))"

lemma dist_inv_initial: "dist_inv d (initial_partition d)"
proof -
  have "\<exists>w. accepts_from d (int i) w \<noteq> accepts_from d (int j) w"
    if "i < length (states d)" "j < length (states d)"
      "initial_partition d ! i \<noteq> initial_partition d ! j" for i j
  proof -
    have "accept (states d ! i) \<noteq> accept (states d ! j)"
      using that by (auto simp: initial_partition_def split: if_splits)
    then have "accepts_from d (int i) [] \<noteq> accepts_from d (int j) []"
      using that by (simp add: accepts_from_Nil in_range_def)
    then show ?thesis by blast
  qed
  then show ?thesis by (simp add: dist_inv_def initial_partition_def)
qed

lemma dist_inv_step:
  assumes "dist_inv d p" "refine_pass d p = Some np"
  shows "dist_inv d np"
proof -
  note pr = refine_pass_props[OF assms(2)]
  have len: "length p = length (states d)" using assms(1) by (simp add: dist_inv_def)
  note ks = keys_ok_succ[OF pr(1) len]
  note ko = key_of_eq[OF pr(1)]
  have d: "\<exists>w. accepts_from d (int i) w \<noteq> accepts_from d (int j) w"
    if "i < length (states d)" "j < length (states d)" "p ! i \<noteq> p ! j" for i j
    using assms(1) that unfolding dist_inv_def by blast
  have "\<exists>w. accepts_from d (int i) w \<noteq> accepts_from d (int j) w"
    if ij: "i < length (states d)" "j < length (states d)" and ne: "np ! i \<noteq> np ! j" for i j
  proof -
    have nni: "0 \<le> t0 (states d ! i)" "0 \<le> t1 (states d ! i)"
      using ko(2,3)[OF ij(1)] by (auto simp: in_range_def)
    have nnj: "0 \<le> t0 (states d ! j)" "0 \<le> t1 (states d ! j)"
      using ko(2,3)[OF ij(2)] by (auto simp: in_range_def)
    have "key_of d p i \<noteq> key_of d p j" using pr(3)[OF ij] ne by simp
    then consider "p ! i \<noteq> p ! j" | "p ! succ0 d i \<noteq> p ! succ0 d j"
      | "p ! succ1 d i \<noteq> p ! succ1 d j"
      using ks(3) ij by auto
    then show ?thesis
    proof cases
      case 1
      then show ?thesis using d ij by blast
    next
      case 2
      then obtain w where
        "accepts_from d (int (succ0 d i)) w \<noteq> accepts_from d (int (succ0 d j)) w"
        using d[OF ks(1)[OF ij(1)] ks(1)[OF ij(2)]] by blast
      then have "accepts_from d (int i) (CHR ''0'' # w) \<noteq> accepts_from d (int j) (CHR ''0'' # w)"
        using total_next_state(1)[OF ij(1) nni] total_next_state(1)[OF ij(2) nnj]
        by (simp add: accepts_from_Cons)
      then show ?thesis by blast
    next
      case 3
      then obtain w where
        "accepts_from d (int (succ1 d i)) w \<noteq> accepts_from d (int (succ1 d j)) w"
        using d[OF ks(2)[OF ij(1)] ks(2)[OF ij(2)]] by blast
      then have "accepts_from d (int i) (CHR ''1'' # w) \<noteq> accepts_from d (int j) (CHR ''1'' # w)"
        using total_next_state(2)[OF ij(1) nni] total_next_state(2)[OF ij(2) nnj]
        by (simp add: accepts_from_Cons)
      then show ?thesis by blast
    qed
  qed
  then show ?thesis unfolding dist_inv_def using pr(2) by blast
qed

text \<open>
  The result of minimize on a well-formed automaton: it exists, it is the
  quotient by a partition whose classes are exactly the sets of states that
  accept the same strings.
\<close>

lemma minimize_spec:
  assumes "wf_dfa d"
  shows "\<exists>q m. minimize d = Some m \<and> quotient_of d q m \<and>
           (\<forall>i < length (states d). \<forall>j < length (states d).
              q ! i = q ! j \<longleftrightarrow> (\<forall>w. accepts_from d (int i) w = accepts_from d (int j) w))"
proof -
  from minimize_quotient[OF assms] obtain q k m
    where loop: "refine_loop d (initial_partition d) 0 = Some (q, k)"
      and mini: "minimize d = Some m" and quo: "quotient_of d q m" by blast
  have tot: "total_dfa d" using assms by (simp add: wf_dfa_def)
  from refine_loop_invariant[of d _ 0 q k "dist_inv d", OF loop dist_inv_initial dist_inv_step]
  have di: "dist_inv d q" by simp
  have "q ! i = q ! j \<longleftrightarrow> (\<forall>w. accepts_from d (int i) w = accepts_from d (int j) w)"
    if ij: "i < length (states d)" "j < length (states d)" for i j
  proof
    assume "q ! i = q ! j"
    then show "\<forall>w. accepts_from d (int i) w = accepts_from d (int j) w"
      using quotient_accepts_from[OF quo tot ij(1)] quotient_accepts_from[OF quo tot ij(2)]
      by metis
  next
    assume "\<forall>w. accepts_from d (int i) w = accepts_from d (int j) w"
    then show "q ! i = q ! j" using di ij unfolding dist_inv_def by blast
  qed
  then show ?thesis using mini quo by blast
qed

subsection \<open>Minimizing a minimal automaton\<close>

text \<open>
  An automaton is minimal when it is well-formed and any two different states
  are told apart by some string. An isomorphism is a bijection of the states
  that carries start to start, trap to trap, and commutes with the accept flags
  and with both transition functions.
\<close>

definition minimal_dfa :: "DFA \<Rightarrow> bool" where
  "minimal_dfa m =
     (wf_dfa m \<and>
      (\<forall>i < length (states m). \<forall>j < length (states m).
         i \<noteq> j \<longrightarrow> (\<exists>w. accepts_from m (int i) w \<noteq> accepts_from m (int j) w)))"

definition isomorphic_by :: "(nat \<Rightarrow> nat) \<Rightarrow> DFA \<Rightarrow> DFA \<Rightarrow> bool" where
  "isomorphic_by f m m' =
     (length (states m') = length (states m) \<and>
      bij_betw f {0..<length (states m)} {0..<length (states m)} \<and>
      start m' = int (f (nat (start m))) \<and>
      trap m' = int (f (nat (trap m))) \<and>
      (\<forall>i < length (states m).
         accept (states m' ! f i) = accept (states m ! i) \<and>
         t0 (states m' ! f i) = int (f (nat (t0 (states m ! i)))) \<and>
         t1 (states m' ! f i) = int (f (nat (t1 (states m ! i))))))"

lemma in_range_nat: "in_range i xs \<Longrightarrow> nat i < length xs \<and> int (nat i) = i"
  by (auto simp: in_range_def)

lemma minimize_minimal:
  assumes "wf_dfa d"
  shows "\<exists>m. minimize d = Some m \<and> minimal_dfa m"
proof -
  from minimize_spec[OF assms] obtain q m
    where mini: "minimize d = Some m" and quo: "quotient_of d q m"
      and eq: "\<forall>i < length (states d). \<forall>j < length (states d).
              q ! i = q ! j \<longleftrightarrow> (\<forall>w. accepts_from d (int i) w = accepts_from d (int j) w)"
    by blast
  note qp = quotient_props[OF quo]
  have tot: "total_dfa d" and st: "in_range (start d) (states d)"
    and tr: "in_range (trap d) (states d)"
    using assms by (auto simp: wf_dfa_def)
  have sm: "start m = q ! nat (start d)" "trap m = q ! nat (trap d)"
    using quo by (auto simp: quotient_of_def)
  have "total_dfa m"
    unfolding total_dfa_def
  proof
    fix s assume "s \<in> set (states m)"
    then obtain c where c: "c < length (states m)" "s = states m ! c"
      by (auto simp: in_set_conv_nth)
    then have "in_range (int c) (states m)" by (simp add: in_range_def)
    from qp(8)[OF this] obtain i where i: "i < length (states d)" "q ! i = int c" by blast
    have "t0 s = q ! succ0 d i" "t1 s = q ! succ1 d i"
      using qp(4,5)[OF i(1)] i(2) c(2) by simp_all
    then show "in_range (t0 s) (states m) \<and> in_range (t1 s) (states m)"
      using qp(2)[OF qp(6)[OF i(1)]] qp(2)[OF qp(7)[OF i(1)]] by simp
  qed
  moreover have "in_range (start m) (states m)"
    using qp(2)[of "nat (start d)"] in_range_nat[OF st] sm by simp
  moreover have "in_range (trap m) (states m)"
    using qp(2)[of "nat (trap d)"] in_range_nat[OF tr] sm by simp
  moreover have "\<exists>w. accepts_from m (int a) w \<noteq> accepts_from m (int b) w"
    if ab: "a < length (states m)" "b < length (states m)" "a \<noteq> b" for a b
  proof -
    have "in_range (int a) (states m)" "in_range (int b) (states m)"
      using ab by (simp_all add: in_range_def)
    then obtain i j where i: "i < length (states d)" "q ! i = int a"
      and j: "j < length (states d)" "q ! j = int b"
      using qp(8) by blast
    have "q ! i \<noteq> q ! j" using i j ab(3) by simp
    then obtain w where "accepts_from d (int i) w \<noteq> accepts_from d (int j) w"
      using eq i(1) j(1) by blast
    then have "accepts_from m (q ! i) w \<noteq> accepts_from m (q ! j) w"
      using quotient_accepts_from[OF quo tot] i(1) j(1) by simp
    then show ?thesis using i(2) j(2) by auto
  qed
  ultimately have "minimal_dfa m" by (simp add: minimal_dfa_def wf_dfa_def)
  then show ?thesis using mini by blast
qed

lemma minimize_of_minimal:
  assumes "minimal_dfa m"
  shows "\<exists>m' q. minimize m = Some m' \<and> isomorphic_by (\<lambda>i. nat (q ! i)) m m'"
proof -
  let ?n = "length (states m)"
  have wf: "wf_dfa m"
    and apart: "\<And>i j. i < ?n \<Longrightarrow> j < ?n \<Longrightarrow> i \<noteq> j \<Longrightarrow>
                  \<exists>w. accepts_from m (int i) w \<noteq> accepts_from m (int j) w"
    using assms unfolding minimal_dfa_def by blast+
  from minimize_spec[OF wf] obtain q m'
    where mini: "minimize m = Some m'" and quo: "quotient_of m q m'"
      and eq: "\<forall>i < ?n. \<forall>j < ?n.
              q ! i = q ! j \<longleftrightarrow> (\<forall>w. accepts_from m (int i) w = accepts_from m (int j) w)"
    by blast
  note qp = quotient_props[OF quo]
  have tot: "total_dfa m" and st: "in_range (start m) (states m)"
    and tr: "in_range (trap m) (states m)"
    using wf by (auto simp: wf_dfa_def)
  have setq: "set q = {0..<int (length (states m'))}"
    and sm: "start m' = q ! nat (start m)" "trap m' = q ! nat (trap m)"
    using quo by (auto simp: quotient_of_def)
  have inj: "i = j" if "i < ?n" "j < ?n" "q ! i = q ! j" for i j
    using eq apart that by blast
  have "distinct q"
    unfolding distinct_conv_nth using inj qp(1) by auto
  then have "card (set q) = ?n" using qp(1) by (simp add: distinct_card)
  then have len: "length (states m') = ?n" unfolding setq by simp
  let ?f = "\<lambda>i. nat (q ! i)"
  have qnn: "0 \<le> q ! i \<and> q ! i < int ?n" if "i < ?n" for i
    using qp(2)[OF that] len by (simp add: in_range_def)
  have "inj_on ?f {0..<?n}"
  proof (rule inj_onI)
    fix x y assume "x \<in> {0..<?n}" "y \<in> {0..<?n}" "nat (q ! x) = nat (q ! y)"
    then show "x = y" using inj[of x y] qnn[of x] qnn[of y] by auto
  qed
  moreover have "?f ` {0..<?n} = {0..<?n}"
  proof (intro set_eqI iffI)
    fix c assume "c \<in> ?f ` {0..<?n}"
    then obtain i where "i < ?n" "c = nat (q ! i)" by auto
    then show "c \<in> {0..<?n}" using qnn[of i] by (simp add: nat_less_iff)
  next
    fix c assume "c \<in> {0..<?n}"
    then have "in_range (int c) (states m')" using len by (simp add: in_range_def)
    from qp(8)[OF this] obtain i where "i < ?n" "q ! i = int c" by blast
    then show "c \<in> ?f ` {0..<?n}" by force
  qed
  ultimately have bij: "bij_betw ?f {0..<?n} {0..<?n}" by (simp add: bij_betw_def)
  have s1: "start m' = int (?f (nat (start m)))"
    using sm(1) qnn[of "nat (start m)"] in_range_nat[OF st] by simp
  have s2: "trap m' = int (?f (nat (trap m)))"
    using sm(2) qnn[of "nat (trap m)"] in_range_nat[OF tr] by simp
  have tr: "accept (states m' ! ?f i) = accept (states m ! i) \<and>
         t0 (states m' ! ?f i) = int (?f (nat (t0 (states m ! i)))) \<and>
         t1 (states m' ! ?f i) = int (?f (nat (t1 (states m ! i))))" if i: "i < ?n" for i
    using qp(3,4,5)[OF i] qnn[OF qp(6)[OF i]] qnn[OF qp(7)[OF i]]
    by (simp add: accept_at_def succ0_def succ1_def)
  have "isomorphic_by ?f m m'"
    unfolding isomorphic_by_def using len bij s1 s2 tr by blast
  then show ?thesis using mini by blast
qed

text \<open>
  Claim C8. Minimizing a minimal automaton \<open>m\<close> returns an automaton with as many
  states, and the final partition is an isomorphism from \<open>m\<close> onto it. The result
  of minimizing any well-formed automaton \<open>d\<close> is minimal, so minimizing it again
  returns an isomorphic automaton.
\<close>

theorem minimize_idempotent:
  "(minimal_dfa m \<longrightarrow> (\<exists>m' f. minimize m = Some m' \<and> isomorphic_by f m m')) \<and>
   (wf_dfa d \<longrightarrow>
      (\<exists>m1 m2 f. minimize d = Some m1 \<and> minimal_dfa m1 \<and>
                  minimize m1 = Some m2 \<and> isomorphic_by f m1 m2))"
proof (intro conjI impI)
  assume "minimal_dfa m"
  from minimize_of_minimal[OF this]
  show "\<exists>m' f. minimize m = Some m' \<and> isomorphic_by f m m'" by blast
next
  assume "wf_dfa d"
  from minimize_minimal[OF this] obtain m1 where m1: "minimize d = Some m1" "minimal_dfa m1"
    by blast
  from minimize_of_minimal[OF m1(2)] m1
  show "\<exists>m1 m2 f. minimize d = Some m1 \<and> minimal_dfa m1 \<and>
                  minimize m1 = Some m2 \<and> isomorphic_by f m1 m2" by blast
qed

text \<open>
  The theorem at the determinized automaton of the expression 0: it is
  well-formed, its minimization is minimal, and minimizing that once more gives
  an isomorphic automaton.
\<close>

theorem minimize_idempotent_witness:
  "\<exists>m1 m2 f.
     minimize \<lparr>states = [\<lparr>sid = 0, accept = False, t0 = 1, t1 = 2\<rparr>,
                         \<lparr>sid = 1, accept = True, t0 = 2, t1 = 2\<rparr>,
                         \<lparr>sid = 2, accept = False, t0 = 2, t1 = 2\<rparr>],
               start = 0, trap = 2\<rparr> = Some m1 \<and>
     minimal_dfa m1 \<and> (\<exists>m' g. minimize m1 = Some m' \<and> isomorphic_by g m1 m') \<and>
     minimize m1 = Some m2 \<and> isomorphic_by f m1 m2"
proof -
  let ?d = "\<lparr>states = [\<lparr>sid = 0, accept = False, t0 = 1, t1 = 2\<rparr>,
                        \<lparr>sid = 1, accept = True, t0 = 2, t1 = 2\<rparr>,
                        \<lparr>sid = 2, accept = False, t0 = 2, t1 = 2\<rparr>],
              start = 0, trap = 2\<rparr>"
  have wf: "wf_dfa ?d" by (simp add: wf_dfa_def total_dfa_def in_range_def)
  from minimize_idempotent[of _ ?d] wf obtain m1 m2 f
    where a: "minimize ?d = Some m1" "minimal_dfa m1" "minimize m1 = Some m2"
      "isomorphic_by f m1 m2"
    by blast
  from minimize_idempotent[of m1] a(2)
  have "\<exists>m' g. minimize m1 = Some m' \<and> isomorphic_by g m1 m'" by blast
  then show ?thesis using a by blast
qed

section \<open>Nondeterministic automata (struct NFA)\<close>

text \<open>
  The states of an NFA are numbered by \<open>new_state\<close> with the size of the vector of
  states, so their numbers are never negative; they are modelled as natural
  numbers. A \<open>std::map<char, vector<int>>\<close> is an association list with one
  entry per key; the source only looks keys up (\<open>find\<close>) and iterates over the
  entries to build sets, so the order of the entries is not observable.
  A \<open>std::set<int>\<close> is a strictly increasing list. The field \<open>id\<close> is \<open>nid\<close>, the
  flag \<open>accept\<close> of an NFA state is \<open>naccept\<close>, its map \<open>trans\<close> is \<open>ntrans\<close>, and the
  fields of the automaton are \<open>nstates\<close> and \<open>nstart\<close>, to keep them apart from
  those of the DFA and from constants of HOL.
\<close>

record NFA_State =
  nid :: nat
  naccept :: bool
  ntrans :: "(char \<times> nat list) list"

record NFA =
  nstates :: "NFA_State list"
  nstart :: nat

definition EPS :: char where
  "EPS = CHR 0x00"

text \<open>\<open>trans.find(c)\<close>, with the empty vector when the key is absent.\<close>

definition targets :: "NFA_State \<Rightarrow> char \<Rightarrow> nat list" where
  "targets st c = (case map_of (ntrans st) c of None \<Rightarrow> [] | Some vs \<Rightarrow> vs)"

text \<open>\<open>std::set::insert\<close> on a strictly increasing list.\<close>

definition set_insert :: "nat \<Rightarrow> nat list \<Rightarrow> nat list" where
  "set_insert x xs = (if x \<in> set xs then xs else insort x xs)"

section \<open>EpsilonRemover\<close>

subsection \<open>compute\_epsilon\_closure\<close>

text \<open>
  The loop of \<open>compute_epsilon_closure\<close>: a stack (its top is the head of the
  list) and the closure found so far. \<open>push_new\<close> is the body of the inner loop
  over the silent successors of the state \<open>u\<close> just popped. Reading
  \<open>infa.states[u]\<close> for a \<open>u\<close> that is no state is undefined behaviour.
\<close>

definition push_new :: "nat \<Rightarrow> nat list \<times> nat list \<Rightarrow> nat list \<times> nat list" where
  "push_new nxt s = (case s of (st, cl) \<Rightarrow>
                       if nxt \<in> set cl then (st, cl) else (nxt # st, set_insert nxt cl))"

definition all_targets :: "NFA \<Rightarrow> nat set" where
  "all_targets n = (\<Union>s \<in> set (nstates n). \<Union>e \<in> set (ntrans s). set (snd e))"

definition closure_measure :: "NFA \<Rightarrow> nat list \<times> nat list \<Rightarrow> nat" where
  "closure_measure n s = (case s of (st, cl) \<Rightarrow>
                            2 * card (all_targets n - set cl) + length st)"

lemma finite_all_targets: "finite (all_targets n)"
  by (simp add: all_targets_def)

lemma set_insert_set [simp]: "set (set_insert x xs) = insert x (set xs)"
  by (auto simp: set_insert_def set_insort_key)

lemma set_insert_sorted:
  "sorted xs \<Longrightarrow> distinct xs \<Longrightarrow> sorted (set_insert x xs) \<and> distinct (set_insert x xs)"
  by (auto simp: set_insert_def sorted_insort distinct_insort)

lemma push_new_measure:
  assumes "nxt \<in> all_targets n"
  shows "closure_measure n (push_new nxt s) \<le> closure_measure n s"
proof -
  obtain st cl where s: "s = (st, cl)" by (cases s) auto
  show ?thesis
  proof (cases "nxt \<in> set cl")
    case True
    then show ?thesis by (simp add: s push_new_def closure_measure_def)
  next
    case False
    have "nxt \<in> all_targets n - set cl" using assms False by simp
    then have "card (all_targets n - insert nxt (set cl)) < card (all_targets n - set cl)"
      using finite_all_targets[of n]
      by (metis Diff_insert card_Diff1_less finite_Diff)
    then show ?thesis using False by (simp add: s push_new_def closure_measure_def)
  qed
qed

lemma fold_push_new_measure:
  assumes "set vs \<subseteq> all_targets n"
  shows "closure_measure n (fold push_new vs s) \<le> closure_measure n s"
  using assms
proof (induction vs arbitrary: s)
  case Nil
  then show ?case by simp
next
  case (Cons v vs)
  have "closure_measure n (fold push_new vs (push_new v s)) \<le> closure_measure n (push_new v s)"
    using Cons by simp
  also have "\<dots> \<le> closure_measure n s" using push_new_measure[of v n s] Cons.prems by simp
  finally show ?case by simp
qed

lemma targets_subset:
  "u < length (nstates n) \<Longrightarrow> set (targets (nstates n ! u) c) \<subseteq> all_targets n"
proof
  fix x assume u: "u < length (nstates n)" and x: "x \<in> set (targets (nstates n ! u) c)"
  then obtain vs where vs: "map_of (ntrans (nstates n ! u)) c = Some vs" "x \<in> set vs"
    by (cases "map_of (ntrans (nstates n ! u)) c") (auto simp: targets_def)
  then have "(c, vs) \<in> set (ntrans (nstates n ! u))" by (simp add: map_of_SomeD)
  then show "x \<in> all_targets n"
    using u vs(2) unfolding all_targets_def by (force intro: nth_mem)
qed

function closure_loop :: "NFA \<Rightarrow> nat list \<Rightarrow> nat list \<Rightarrow> nat list option" where
  "closure_loop n [] cl = Some cl"
| "closure_loop n (u # st) cl =
     (if u < length (nstates n)
      then (case fold push_new (targets (nstates n ! u) EPS) (st, cl) of
              (st', cl') \<Rightarrow> closure_loop n st' cl')
      else None)"
  by pat_completeness auto
termination
proof (relation "measure (\<lambda>(n, st, cl). closure_measure n (st, cl))", goal_cases)
  case 1
  show ?case by simp
next
  case (2 n u st cl st' cl')
  have "closure_measure n (st', cl') \<le> closure_measure n (st, cl)"
    using fold_push_new_measure[OF targets_subset[OF 2(1)], of EPS "(st, cl)"] 2(2) by simp
  also have "\<dots> < closure_measure n (u # st, cl)" by (simp add: closure_measure_def)
  finally show ?case by simp
qed

declare closure_loop.simps [simp del]

text \<open>
  \<open>compute_epsilon_closure(s)\<close> returns at once when the closure of \<open>s\<close> is already
  there (it is never empty once computed, since it contains \<open>s\<close>).
\<close>

definition compute_epsilon_closure :: "NFA \<Rightarrow> nat \<Rightarrow> nat list list \<Rightarrow> nat list list option" where
  "compute_epsilon_closure n s eps_closures =
     (if s < length eps_closures then
        (if eps_closures ! s \<noteq> [] then Some eps_closures
         else (case closure_loop n [s] (set_insert s (eps_closures ! s)) of
                 None \<Rightarrow> None
               | Some cl \<Rightarrow> Some (eps_closures[s := cl])))
      else None)"

fun fold_opt :: "('a \<Rightarrow> 'b \<Rightarrow> 'b option) \<Rightarrow> 'a list \<Rightarrow> 'b \<Rightarrow> 'b option" where
  "fold_opt f [] s = Some s"
| "fold_opt f (x # xs) s = (case f x s of None \<Rightarrow> None | Some s' \<Rightarrow> fold_opt f xs s')"

subsection \<open>remove\<close>

text \<open>
  \<open>combined\<close> is a \<open>std::map<char, set<int>>\<close>; \<open>combined_insert c ec\<close> is
  \<open>combined[c].insert(ec)\<close>.
\<close>

fun combined_insert :: "char \<Rightarrow> nat \<Rightarrow> (char \<times> nat list) list \<Rightarrow> (char \<times> nat list) list" where
  "combined_insert c ec [] = [(c, set_insert ec [])]"
| "combined_insert c ec ((c', s) # m) =
     (if c = c' then (c', set_insert ec s) # m else (c', s) # combined_insert c ec m)"

text \<open>The four nested loops of \<open>remove\<close>, from the innermost to the outermost.\<close>

definition add_closure ::
  "nat list list \<Rightarrow> char \<Rightarrow> nat \<Rightarrow> (char \<times> nat list) list \<Rightarrow> (char \<times> nat list) list option" where
  "add_closure eps_closures c nxt combined =
     (if nxt < length eps_closures
      then Some (fold (combined_insert c) (eps_closures ! nxt) combined)
      else None)"

definition add_entry ::
  "nat list list \<Rightarrow> char \<times> nat list \<Rightarrow> (char \<times> nat list) list
     \<Rightarrow> (char \<times> nat list) list option" where
  "add_entry eps_closures kv combined =
     (if fst kv = EPS then Some combined
      else fold_opt (add_closure eps_closures (fst kv)) (snd kv) combined)"

definition add_member ::
  "NFA \<Rightarrow> nat list list \<Rightarrow> nat \<Rightarrow> bool \<times> (char \<times> nat list) list
     \<Rightarrow> (bool \<times> (char \<times> nat list) list) option" where
  "add_member infa eps_closures cst s =
     (case s of (is_accept, combined) \<Rightarrow>
        if cst < length (nstates infa) then
          (case fold_opt (add_entry eps_closures) (ntrans (nstates infa ! cst)) combined of
             None \<Rightarrow> None
           | Some combined' \<Rightarrow>
               Some (is_accept \<or> naccept (nstates infa ! cst), combined'))
        else None)"

definition remove_state :: "NFA \<Rightarrow> nat list list \<Rightarrow> nat \<Rightarrow> NFA_State option" where
  "remove_state infa eps_closures i =
     (case fold_opt (add_member infa eps_closures) (eps_closures ! i) (False, []) of
        None \<Rightarrow> None
      | Some (is_accept, combined) \<Rightarrow>
          Some \<lparr>nid = i, naccept = is_accept, ntrans = combined\<rparr>)"

definition remove :: "NFA \<Rightarrow> NFA option" where
  "remove infa =
     (let n = length (nstates infa) in
      case fold_opt (compute_epsilon_closure infa) [0..<n] (replicate n []) of
        None \<Rightarrow> None
      | Some eps_closures \<Rightarrow>
          (case those (map (remove_state infa eps_closures) [0..<n]) of
             None \<Rightarrow> None
           | Some sts \<Rightarrow> Some \<lparr>nstates = sts, nstart = nstart infa\<rparr>))"

subsection \<open>The silent closure\<close>

text \<open>
  A well-formed NFA: the keys of every transition map are distinct (as in a
  \<open>std::map\<close>) and every target of a transition is an existing state.
\<close>

definition wf_nfa :: "NFA \<Rightarrow> bool" where
  "wf_nfa n =
     (\<forall>s \<in> set (nstates n).
        distinct (map fst (ntrans s)) \<and>
        (\<forall>e \<in> set (ntrans s). \<forall>v \<in> set (snd e). v < length (nstates n)))"

definition eps_step :: "NFA \<Rightarrow> (nat \<times> nat) set" where
  "eps_step n = {(u, v). u < length (nstates n) \<and> v \<in> set (targets (nstates n ! u) EPS)}"

definition eps_closure :: "NFA \<Rightarrow> nat \<Rightarrow> nat set" where
  "eps_closure n s = {v. (s, v) \<in> (eps_step n)\<^sup>*}"

lemma wf_targets:
  assumes "wf_nfa n" "u < length (nstates n)" "v \<in> set (targets (nstates n ! u) c)"
  shows "v < length (nstates n)"
proof -
  have "v \<in> all_targets n" using targets_subset[OF assms(2)] assms(3) by blast
  then show ?thesis using assms(1) unfolding all_targets_def wf_nfa_def by auto
qed

lemma fold_push_new_sets:
  assumes "fold push_new vs (st, cl) = (st', cl')" "sorted cl" "distinct cl"
  shows "set cl' = set cl \<union> set vs \<and> set st' = set st \<union> (set vs - set cl) \<and>
         sorted cl' \<and> distinct cl'"
  using assms
proof (induction vs arbitrary: st cl)
  case Nil
  then show ?case by simp
next
  case (Cons v vs)
  show ?case
  proof (cases "v \<in> set cl")
    case True
    then have "push_new v (st, cl) = (st, cl)" by (simp add: push_new_def)
    then have "fold push_new vs (st, cl) = (st', cl')"
      using Cons.prems(1) by simp
    from Cons.IH[OF this Cons.prems(2,3)] True show ?thesis by auto
  next
    case False
    then have "push_new v (st, cl) = (v # st, set_insert v cl)" by (simp add: push_new_def)
    then have "fold push_new vs (v # st, set_insert v cl) = (st', cl')"
      using Cons.prems(1) by simp
    from Cons.IH[OF this] set_insert_sorted[OF Cons.prems(2,3), of v] False
    show ?thesis by auto
  qed
qed

definition closure_inv :: "NFA \<Rightarrow> nat \<Rightarrow> nat list \<Rightarrow> nat list \<Rightarrow> bool" where
  "closure_inv n s st cl =
     (s \<in> set cl \<and> set st \<subseteq> set cl \<and> set cl \<subseteq> eps_closure n s \<and>
      (\<forall>u \<in> set cl - set st. \<forall>v. (u, v) \<in> eps_step n \<longrightarrow> v \<in> set cl) \<and>
      sorted cl \<and> distinct cl \<and> (\<forall>u \<in> set cl. u < length (nstates n)))"

lemma closure_loop_correct:
  "wf_nfa n \<Longrightarrow> closure_inv n s st cl \<Longrightarrow>
   \<exists>cl'. closure_loop n st cl = Some cl' \<and> set cl' = eps_closure n s \<and>
         sorted cl' \<and> distinct cl'"
proof (induction n st cl rule: closure_loop.induct)
  case (1 n cl)
  have inv: "s \<in> set cl" "set cl \<subseteq> eps_closure n s"
    "\<forall>u \<in> set cl. \<forall>v. (u, v) \<in> eps_step n \<longrightarrow> v \<in> set cl" "sorted cl" "distinct cl"
    using 1(2) by (auto simp: closure_inv_def)
  have "v \<in> set cl" if "(s, v) \<in> (eps_step n)\<^sup>*" for v
    using that
  proof (induction rule: rtrancl_induct)
    case base
    then show ?case using inv(1) .
  next
    case (step y z)
    then show ?case using inv(3) by blast
  qed
  then have "eps_closure n s \<subseteq> set cl" by (auto simp: eps_closure_def)
  then show ?case using inv by (auto simp: closure_loop.simps)
next
  case (2 n u st cl)
  let ?N = "length (nstates n)"
  let ?vs = "targets (nstates n ! u) EPS"
  have inv: "s \<in> set cl" "set (u # st) \<subseteq> set cl" "set cl \<subseteq> eps_closure n s"
    "\<forall>w \<in> set cl - set (u # st). \<forall>v. (w, v) \<in> eps_step n \<longrightarrow> v \<in> set cl"
    "sorted cl" "distinct cl" "\<forall>w \<in> set cl. w < ?N"
    using 2(3) by (auto simp: closure_inv_def)
  have u: "u < ?N" "u \<in> eps_closure n s" using inv(2,3,7) by auto
  obtain st' cl' where f: "fold push_new ?vs (st, cl) = (st', cl')"
    by (cases "fold push_new ?vs (st, cl)") auto
  note fs = fold_push_new_sets[OF f inv(5,6)]
  have succ: "(u, v) \<in> eps_step n \<longleftrightarrow> v \<in> set ?vs" for v
    using u(1) by (simp add: eps_step_def)
  have c1: "set cl' \<subseteq> eps_closure n s"
  proof
    fix v assume "v \<in> set cl'"
    then consider "v \<in> set cl" | "v \<in> set ?vs" using fs by auto
    then show "v \<in> eps_closure n s"
    proof cases
      case 1
      then show ?thesis using inv(3) by auto
    next
      case 2
      then have "(u, v) \<in> eps_step n" using succ by simp
      then show ?thesis using u(2) unfolding eps_closure_def by (auto intro: rtrancl_into_rtrancl)
    qed
  qed
  have c2: "\<forall>w \<in> set cl' - set st'. \<forall>v. (w, v) \<in> eps_step n \<longrightarrow> v \<in> set cl'"
  proof (intro ballI allI impI)
    fix w v assume w: "w \<in> set cl' - set st'" and e: "(w, v) \<in> eps_step n"
    have wcl: "w \<in> set cl" using w fs by auto
    show "v \<in> set cl'"
    proof (cases "w = u")
      case True
      then show ?thesis using e succ fs by auto
    next
      case False
      then have "w \<in> set cl - set (u # st)" using w wcl fs by auto
      then show ?thesis using inv(4) e fs by blast
    qed
  qed
  have c3: "\<forall>w \<in> set cl'. w < ?N"
    using fs inv(7) wf_targets[OF 2(2) u(1)] by auto
  have "closure_inv n s st' cl'"
    unfolding closure_inv_def using inv(1,2) fs c1 c2 c3 by auto
  from 2(1)[OF u(1) f[symmetric] 2(2) this]
  show ?case using u(1) f by (simp add: closure_loop.simps)
qed

lemma closure_start:
  assumes "wf_nfa n" "s < length (nstates n)"
  shows "\<exists>cl. closure_loop n [s] (set_insert s []) = Some cl \<and>
              set cl = eps_closure n s \<and> sorted cl \<and> distinct cl"
proof -
  have "closure_inv n s [s] (set_insert s [])"
    using assms(2) by (simp add: closure_inv_def set_insert_def eps_closure_def)
  from closure_loop_correct[OF assms(1) this] show ?thesis .
qed

text \<open>All closures, as the first loop of \<open>remove\<close> computes them.\<close>

definition closures_ok :: "NFA \<Rightarrow> nat list list \<Rightarrow> bool" where
  "closures_ok n cls =
     (length cls = length (nstates n) \<and>
      (\<forall>i < length (nstates n). set (cls ! i) = eps_closure n i))"

lemma compute_all:
  assumes "wf_nfa n" "length cls = length (nstates n)" "distinct xs"
    "\<forall>i \<in> set xs. i < length (nstates n) \<and> cls ! i = []"
  shows "\<exists>cls'. fold_opt (compute_epsilon_closure n) xs cls = Some cls' \<and>
           length cls' = length (nstates n) \<and>
           (\<forall>i \<in> set xs. set (cls' ! i) = eps_closure n i) \<and>
           (\<forall>i < length (nstates n). i \<notin> set xs \<longrightarrow> cls' ! i = cls ! i)"
  using assms(2,3,4)
proof (induction xs arbitrary: cls)
  case Nil
  then show ?case by simp
next
  case (Cons s xs)
  have s: "s < length (nstates n)" "cls ! s = []" "s \<notin> set xs" using Cons.prems by auto
  from closure_start[OF assms(1) s(1)] obtain cl where
    cl: "closure_loop n [s] (set_insert s []) = Some cl" "set cl = eps_closure n s" by blast
  let ?cls = "cls[s := cl]"
  have step: "compute_epsilon_closure n s cls = Some ?cls"
    using s Cons.prems(1) cl(1) by (simp add: compute_epsilon_closure_def)
  have "length ?cls = length (nstates n)" using Cons.prems(1) by simp
  moreover have "distinct xs" using Cons.prems(2) by simp
  moreover have "\<forall>i \<in> set xs. i < length (nstates n) \<and> ?cls ! i = []"
    using Cons.prems(1,3) s(3) by (auto simp: nth_list_update)
  ultimately obtain cls' where r: "fold_opt (compute_epsilon_closure n) xs ?cls = Some cls'"
    "length cls' = length (nstates n)"
    "\<forall>i \<in> set xs. set (cls' ! i) = eps_closure n i"
    "\<forall>i < length (nstates n). i \<notin> set xs \<longrightarrow> cls' ! i = ?cls ! i"
    using Cons.IH[of ?cls] by blast
  have "cls' ! s = cl" using r(4) s Cons.prems(1) by simp
  then have "\<forall>i \<in> set (s # xs). set (cls' ! i) = eps_closure n i" using r(3) cl(2) by simp
  moreover have "\<forall>i < length (nstates n). i \<notin> set (s # xs) \<longrightarrow> cls' ! i = cls ! i"
    using r(4) by (auto simp: nth_list_update)
  ultimately show ?case using step r(1,2) by simp
qed

lemma closures_computed:
  assumes "wf_nfa n"
  shows "\<exists>cls. fold_opt (compute_epsilon_closure n) [0..<length (nstates n)]
                  (replicate (length (nstates n)) []) = Some cls \<and> closures_ok n cls"
  using compute_all[OF assms, of "replicate (length (nstates n)) []" "[0..<length (nstates n)]"]
  by (auto simp: closures_ok_def)

subsection \<open>The combined transitions\<close>

definition lookup :: "(char \<times> nat list) list \<Rightarrow> char \<Rightarrow> nat set" where
  "lookup m c = set (case map_of m c of None \<Rightarrow> [] | Some vs \<Rightarrow> vs)"

lemma targets_lookup: "set (targets st c) = lookup (ntrans st) c"
  by (simp add: targets_def lookup_def)

lemma combined_insert_map_of:
  "map_of (combined_insert c x m) c' =
     (if c' = c then Some (set_insert x (case map_of m c of None \<Rightarrow> [] | Some s \<Rightarrow> s))
      else map_of m c')"
  by (induction c x m rule: combined_insert.induct) auto

lemma combined_insert_lookup:
  "lookup (combined_insert c x m) c' = (if c' = c then insert x (lookup m c) else lookup m c')"
proof (cases "c' = c")
  case True
  have "map_of (combined_insert c x m) c =
          Some (set_insert x (case map_of m c of None \<Rightarrow> [] | Some s \<Rightarrow> s))"
    by (simp add: combined_insert_map_of)
  then show ?thesis using True by (simp add: lookup_def)
next
  case False
  have "map_of (combined_insert c x m) c' = map_of m c'"
    using False by (simp add: combined_insert_map_of)
  then show ?thesis using False by (simp add: lookup_def)
qed

lemma combined_insert_keys:
  "set (map fst (combined_insert c x m)) = insert c (set (map fst m))"
  by (induction c x m rule: combined_insert.induct) auto

lemma combined_insert_distinct:
  "distinct (map fst m) \<Longrightarrow> distinct (map fst (combined_insert c x m))"
proof (induction m)
  case Nil
  then show ?case by simp
next
  case (Cons e m)
  obtain c' s where e: "e = (c', s)" by (cases e) auto
  show ?case
  proof (cases "c = c'")
    case True
    then show ?thesis using Cons.prems e by simp
  next
    case False
    have "c' \<notin> set (map fst (combined_insert c x m))"
      unfolding combined_insert_keys using Cons.prems e False by simp
    then show ?thesis using Cons e False by simp
  qed
qed

text \<open>
  The state of the loops over the entries of \<open>combined\<close>: the keys stay distinct,
  silent transitions never enter, and \<open>lookup\<close> grows by what the loop adds.
\<close>

definition comb_ok :: "(char \<times> nat list) list \<Rightarrow> bool" where
  "comb_ok m = (distinct (map fst m) \<and> EPS \<notin> set (map fst m))"

lemma fold_combined_insert:
  "lookup (fold (combined_insert c) xs m) c' =
     (if c' = c then set xs \<union> lookup m c else lookup m c')"
  by (induction xs arbitrary: m) (auto simp: combined_insert_lookup)

lemma fold_combined_insert_ok:
  "c \<noteq> EPS \<Longrightarrow> comb_ok m \<Longrightarrow> comb_ok (fold (combined_insert c) xs m)"
proof (induction xs arbitrary: m)
  case Nil
  then show ?case by simp
next
  case (Cons x xs)
  have "comb_ok (combined_insert c x m)"
    using Cons.prems combined_insert_distinct[of m c x]
    by (simp add: comb_ok_def combined_insert_keys del: set_map)
  then show ?case using Cons by simp
qed

lemma add_closure_fold:
  assumes "\<forall>v \<in> set vs. v < length cls" "c \<noteq> EPS" "comb_ok m"
  shows "\<exists>m'. fold_opt (add_closure cls c) vs m = Some m' \<and> comb_ok m' \<and>
           (\<forall>c'. lookup m' c' =
              (if c' = c then (\<Union>v \<in> set vs. set (cls ! v)) \<union> lookup m c else lookup m c'))"
  using assms
proof (induction vs arbitrary: m)
  case Nil
  then show ?case by simp
next
  case (Cons v vs)
  let ?m = "fold (combined_insert c) (cls ! v) m"
  have st: "add_closure cls c v m = Some ?m" using Cons.prems(1) by (simp add: add_closure_def)
  have ok: "comb_ok ?m" by (rule fold_combined_insert_ok[OF Cons.prems(2,3)])
  from Cons.IH[OF _ Cons.prems(2) ok] Cons.prems(1)
  obtain m' where m': "fold_opt (add_closure cls c) vs ?m = Some m'" "comb_ok m'"
    "\<forall>c'. lookup m' c' =
       (if c' = c then (\<Union>v \<in> set vs. set (cls ! v)) \<union> lookup ?m c else lookup ?m c')"
    by auto
  have "\<forall>c'. lookup m' c' =
       (if c' = c then (\<Union>v \<in> set (v # vs). set (cls ! v)) \<union> lookup m c else lookup m c')"
    using m'(3) by (auto simp: fold_combined_insert)
  then show ?case using st m'(1,2) by simp
qed

text \<open>What the real-symbol entries of a list of map entries contribute.\<close>

definition entries_add :: "nat list list \<Rightarrow> (char \<times> nat list) list \<Rightarrow> char \<Rightarrow> nat set" where
  "entries_add cls es c =
     (if c = EPS then {} else (\<Union>e \<in> set es. if fst e = c then (\<Union>v \<in> set (snd e). set (cls ! v)) else {}))"

lemma add_entry_fold:
  assumes "\<forall>e \<in> set es. \<forall>v \<in> set (snd e). v < length cls" "comb_ok m"
  shows "\<exists>m'. fold_opt (add_entry cls) es m = Some m' \<and> comb_ok m' \<and>
           (\<forall>c'. lookup m' c' = lookup m c' \<union> entries_add cls es c')"
  using assms
proof (induction es arbitrary: m)
  case Nil
  then show ?case by (simp add: entries_add_def)
next
  case (Cons e es)
  obtain c vs where e: "e = (c, vs)" by (cases e) auto
  have "\<exists>m1. add_entry cls e m = Some m1 \<and> comb_ok m1 \<and>
          (\<forall>c'. lookup m1 c' = lookup m c' \<union> entries_add cls [e] c')"
  proof (cases "c = EPS")
    case True
    then show ?thesis using Cons.prems(2) e by (simp add: add_entry_def entries_add_def)
  next
    case False
    have "\<forall>v \<in> set vs. v < length cls" using Cons.prems(1) e by simp
    from add_closure_fold[OF this False Cons.prems(2)]
    show ?thesis using False e by (auto simp: add_entry_def entries_add_def)
  qed
  then obtain m1 where m1: "add_entry cls e m = Some m1" "comb_ok m1"
    "\<forall>c'. lookup m1 c' = lookup m c' \<union> entries_add cls [e] c'" by blast
  from Cons.IH[OF _ m1(2)] Cons.prems(1)
  obtain m' where m': "fold_opt (add_entry cls) es m1 = Some m'" "comb_ok m'"
    "\<forall>c'. lookup m' c' = lookup m1 c' \<union> entries_add cls es c'" by auto
  have "\<forall>c'. lookup m' c' = lookup m c' \<union> entries_add cls (e # es) c'"
    using m'(3) m1(3) by (auto simp: entries_add_def)
  then show ?case using m1(1) m'(1,2) by simp
qed

lemma entries_add_targets:
  assumes "distinct (map fst (ntrans st))" "c \<noteq> EPS"
  shows "entries_add cls (ntrans st) c = (\<Union>v \<in> set (targets st c). set (cls ! v))"
proof (cases "map_of (ntrans st) c")
  case None
  then have "\<forall>e \<in> set (ntrans st). fst e \<noteq> c"
    by (metis map_of_eq_None_iff image_eqI)
  then show ?thesis using None assms(2) by (simp add: entries_add_def targets_def)
next
  case (Some vs)
  have in_es: "(c, vs) \<in> set (ntrans st)" using Some by (rule map_of_SomeD)
  have uniq: "snd e = vs" if "e \<in> set (ntrans st)" "fst e = c" for e
  proof -
    have "map_of (ntrans st) (fst e) = Some (snd e)"
      using assms(1) that(1) by (metis map_of_is_SomeI prod.collapse)
    then show ?thesis using Some that(2) by simp
  qed
  have "(\<Union>e \<in> set (ntrans st). if fst e = c then (\<Union>v \<in> set (snd e). set (cls ! v)) else {})
        = (\<Union>v \<in> set vs. set (cls ! v))"
  proof (intro set_eqI iffI)
    fix x
    assume "x \<in> (\<Union>e \<in> set (ntrans st). if fst e = c then (\<Union>v \<in> set (snd e). set (cls ! v)) else {})"
    then obtain e where e: "e \<in> set (ntrans st)" "fst e = c" "x \<in> (\<Union>v \<in> set (snd e). set (cls ! v))"
      by (auto split: if_splits)
    then show "x \<in> (\<Union>v \<in> set vs. set (cls ! v))" using uniq[OF e(1,2)] by simp
  next
    fix x assume "x \<in> (\<Union>v \<in> set vs. set (cls ! v))"
    then show "x \<in> (\<Union>e \<in> set (ntrans st). if fst e = c then (\<Union>v \<in> set (snd e). set (cls ! v)) else {})"
      using in_es by force
  qed
  then show ?thesis using Some assms(2) by (simp add: entries_add_def targets_def)
qed

lemma add_member_fold:
  assumes "wf_nfa n" "length cls = length (nstates n)" "\<forall>u \<in> set us. u < length (nstates n)"
    "comb_ok m"
  shows "\<exists>acc' m'. fold_opt (add_member n cls) us (acc, m) = Some (acc', m') \<and> comb_ok m' \<and>
           (acc' \<longleftrightarrow> acc \<or> (\<exists>u \<in> set us. naccept (nstates n ! u))) \<and>
           (\<forall>c. c \<noteq> EPS \<longrightarrow> lookup m' c =
              lookup m c \<union> (\<Union>u \<in> set us. \<Union>v \<in> set (targets (nstates n ! u) c). set (cls ! v))) \<and>
           lookup m' EPS = lookup m EPS"
  using assms(3,4)
proof (induction us arbitrary: acc m)
  case Nil
  then show ?case by simp
next
  case (Cons u us)
  let ?st = "nstates n ! u"
  have u: "u < length (nstates n)" using Cons.prems(1) by simp
  then have mem: "?st \<in> set (nstates n)" by simp
  have d: "distinct (map fst (ntrans ?st))" using assms(1) mem by (simp add: wf_nfa_def)
  have "\<forall>e \<in> set (ntrans ?st). \<forall>v \<in> set (snd e). v < length cls"
    using assms(1,2) mem unfolding wf_nfa_def by auto
  from add_entry_fold[OF this Cons.prems(2)]
  obtain m1 where m1: "fold_opt (add_entry cls) (ntrans ?st) m = Some m1" "comb_ok m1"
    "\<forall>c'. lookup m1 c' = lookup m c' \<union> entries_add cls (ntrans ?st) c'" by blast
  have st: "add_member n cls u (acc, m) = Some (acc \<or> naccept ?st, m1)"
    using u m1(1) by (simp add: add_member_def)
  from Cons.IH[OF _ m1(2), of "acc \<or> naccept ?st"] Cons.prems(1)
  obtain acc' m' where r:
    "fold_opt (add_member n cls) us (acc \<or> naccept ?st, m1) = Some (acc', m')" "comb_ok m'"
    "acc' \<longleftrightarrow> (acc \<or> naccept ?st) \<or> (\<exists>u \<in> set us. naccept (nstates n ! u))"
    "\<forall>c. c \<noteq> EPS \<longrightarrow> lookup m' c =
        lookup m1 c \<union> (\<Union>u \<in> set us. \<Union>v \<in> set (targets (nstates n ! u) c). set (cls ! v))"
    "lookup m' EPS = lookup m1 EPS"
    by auto
  have a: "acc' \<longleftrightarrow> acc \<or> (\<exists>u \<in> set (u # us). naccept (nstates n ! u))" using r(3) by auto
  have b: "lookup m' c = lookup m c \<union>
             (\<Union>u \<in> set (u # us). \<Union>v \<in> set (targets (nstates n ! u) c). set (cls ! v))"
    if "c \<noteq> EPS" for c
    using r(4) m1(3) entries_add_targets[OF d that, of cls] that by auto
  have c: "lookup m' EPS = lookup m EPS" using r(5) m1(3) by (simp add: entries_add_def)
  show ?case using st r(1,2) a b c by simp
qed

text \<open>
  For a well-formed automaton \<open>remove\<close> returns an automaton with the
  same vector length and start state in which, for every state \<open>i\<close>: \<open>i\<close> accepts
  exactly when some state of the silent closure of \<open>i\<close> accepts in the input;
  for every symbol other than the silent one, the successors of \<open>i\<close> are the
  union, over the members \<open>u\<close> of the closure of \<open>i\<close> and the direct successors \<open>w\<close>
  of \<open>u\<close> on that symbol, of the closures of \<open>w\<close>; and the transition map of \<open>i\<close>
  has no entry for the silent symbol.
\<close>

lemma remove_props:
  assumes "wf_nfa infa"
  shows "\<exists>onfa.
           remove infa = Some onfa \<and>
           length (nstates onfa) = length (nstates infa) \<and>
           nstart onfa = nstart infa \<and>
           (\<forall>i < length (nstates infa).
              (naccept (nstates onfa ! i) \<longleftrightarrow>
                 (\<exists>u \<in> eps_closure infa i. naccept (nstates infa ! u))) \<and>
              (\<forall>c. c \<noteq> EPS \<longrightarrow>
                 set (targets (nstates onfa ! i) c) =
                   (\<Union>u \<in> eps_closure infa i.
                      \<Union>w \<in> set (targets (nstates infa ! u) c). eps_closure infa w)) \<and>
              map_of (ntrans (nstates onfa ! i)) EPS = None \<and>
              distinct (map fst (ntrans (nstates onfa ! i))))"
proof -
  let ?N = "length (nstates infa)"
  from closures_computed[OF assms] obtain cls where
    cls: "fold_opt (compute_epsilon_closure infa) [0..<?N] (replicate ?N []) = Some cls"
    and ok: "closures_ok infa cls" by blast
  have len: "length cls = ?N" and cl: "\<And>i. i < ?N \<Longrightarrow> set (cls ! i) = eps_closure infa i"
    using ok by (auto simp: closures_ok_def)
  have inr: "u < ?N" if "i < ?N" "u \<in> eps_closure infa i" for i u
  proof -
    have "(i, u) \<in> (eps_step infa)\<^sup>*" using that(2) by (simp add: eps_closure_def)
    then show ?thesis
    proof (induction rule: rtrancl_induct)
      case base
      then show ?case using that(1) .
    next
      case (step y z)
      then show ?case using wf_targets[OF assms] by (auto simp: eps_step_def)
    qed
  qed
  have st: "\<exists>s. remove_state infa cls i = Some s \<and> nid s = i \<and>
              (naccept s \<longleftrightarrow> (\<exists>u \<in> eps_closure infa i. naccept (nstates infa ! u))) \<and>
              (\<forall>c. c \<noteq> EPS \<longrightarrow> set (targets s c) =
                   (\<Union>u \<in> eps_closure infa i.
                      \<Union>w \<in> set (targets (nstates infa ! u) c). eps_closure infa w)) \<and>
              map_of (ntrans s) EPS = None \<and> distinct (map fst (ntrans s))"
    if i: "i < ?N" for i
  proof -
    have mem: "\<forall>u \<in> set (cls ! i). u < ?N" using cl[OF i] inr[OF i] by auto
    have e: "comb_ok []" by (simp add: comb_ok_def)
    from add_member_fold[OF assms len mem e, of False]
    obtain acc m where r: "fold_opt (add_member infa cls) (cls ! i) (False, []) = Some (acc, m)"
      "comb_ok m" "acc \<longleftrightarrow> (\<exists>u \<in> set (cls ! i). naccept (nstates infa ! u))"
      "\<forall>c. c \<noteq> EPS \<longrightarrow> lookup m c =
          lookup [] c \<union> (\<Union>u \<in> set (cls ! i). \<Union>v \<in> set (targets (nstates infa ! u) c). set (cls ! v))"
      by auto
    let ?s = "\<lparr>nid = i, naccept = acc, ntrans = m\<rparr>"
    have rs: "remove_state infa cls i = Some ?s" using r(1) by (simp add: remove_state_def)
    have t: "set (targets ?s c) =
                   (\<Union>u \<in> eps_closure infa i.
                      \<Union>w \<in> set (targets (nstates infa ! u) c). eps_closure infa w)"
      if c: "c \<noteq> EPS" for c
    proof -
      have "set (targets ?s c) =
              (\<Union>u \<in> set (cls ! i). \<Union>v \<in> set (targets (nstates infa ! u) c). set (cls ! v))"
        using r(4) c by (simp add: targets_lookup lookup_def)
      also have "\<dots> = (\<Union>u \<in> eps_closure infa i.
                      \<Union>w \<in> set (targets (nstates infa ! u) c). eps_closure infa w)"
        unfolding cl[OF i]
      proof (intro SUP_cong refl)
        fix u w assume "u \<in> eps_closure infa i" "w \<in> set (targets (nstates infa ! u) c)"
        then have "w < ?N" using wf_targets[OF assms inr[OF i]] by blast
        then show "set (cls ! w) = eps_closure infa w" by (rule cl)
      qed
      finally show ?thesis .
    qed
    have "map_of m EPS = None"
      using r(2) by (simp add: comb_ok_def map_of_eq_None_iff)
    then show ?thesis using rs r(2,3) t cl[OF i] by (auto simp: comb_ok_def)
  qed
  have "remove_state infa cls i \<noteq> None" if "i < ?N" for i using st[OF that] by blast
  then have "\<forall>i \<in> set [0..<?N]. remove_state infa cls i \<noteq> None" by simp
  from those_map_Some[OF this]
  have th: "those (map (remove_state infa cls) [0..<?N]) =
              Some (map (\<lambda>i. the (remove_state infa cls i)) [0..<?N])" .
  let ?o = "\<lparr>nstates = map (\<lambda>i. the (remove_state infa cls i)) [0..<?N], nstart = nstart infa\<rparr>"
  have rem: "remove infa = Some ?o" by (simp add: remove_def Let_def cls th)
  have nth: "nstates ?o ! i = the (remove_state infa cls i)" if "i < ?N" for i
    using that by simp
  show ?thesis
  proof (intro exI[of _ ?o] conjI allI impI)
    show "remove infa = Some ?o" by (rule rem)
    show "length (nstates ?o) = ?N" by simp
    show "nstart ?o = nstart infa" by simp
  next
    fix i assume i: "i < ?N"
    from st[OF i] obtain s where s: "remove_state infa cls i = Some s"
      "naccept s \<longleftrightarrow> (\<exists>u \<in> eps_closure infa i. naccept (nstates infa ! u))"
      "\<forall>c. c \<noteq> EPS \<longrightarrow> set (targets s c) =
                   (\<Union>u \<in> eps_closure infa i.
                      \<Union>w \<in> set (targets (nstates infa ! u) c). eps_closure infa w)"
      "map_of (ntrans s) EPS = None" "distinct (map fst (ntrans s))" by blast
    have e: "nstates ?o ! i = s" using nth[OF i] s(1) by simp
    show "naccept (nstates ?o ! i) \<longleftrightarrow> (\<exists>u \<in> eps_closure infa i. naccept (nstates infa ! u))"
      unfolding e by (rule s(2))
    show "map_of (ntrans (nstates ?o ! i)) EPS = None" unfolding e by (rule s(4))
    show "distinct (map fst (ntrans (nstates ?o ! i)))" unfolding e by (rule s(5))
    fix c assume "c \<noteq> EPS"
    then show "set (targets (nstates ?o ! i) c) =
                   (\<Union>u \<in> eps_closure infa i.
                      \<Union>w \<in> set (targets (nstates infa ! u) c). eps_closure infa w)"
      unfolding e using s(3) by blast
  qed
qed

text \<open>
  An automaton with a silent cycle between the states 0 and 2.
\<close>

definition example_nfa :: NFA where
  "example_nfa =
     \<lparr>nstates = [\<lparr>nid = 0, naccept = False, ntrans = [(EPS, [1, 2])]\<rparr>,
                \<lparr>nid = 1, naccept = False, ntrans = [(CHR ''0'', [3])]\<rparr>,
                \<lparr>nid = 2, naccept = False, ntrans = [(CHR ''1'', [3]), (EPS, [0])]\<rparr>,
                \<lparr>nid = 3, naccept = True, ntrans = []\<rparr>],
      nstart = 0\<rparr>"

lemma example_nfa_wf: "wf_nfa example_nfa"
  by (simp add: wf_nfa_def example_nfa_def EPS_def)

text \<open>
  Claim C6. In the automaton returned by \<open>remove\<close> for a well-formed input
  (every transition target is a state, one map entry per symbol), a state \<open>i\<close>
  is accepting if and only if some state of the silent closure of \<open>i\<close> is
  accepting in the input; for each symbol other than the silent one, the
  successors of \<open>i\<close> are the union, over the members \<open>u\<close> of the closure of \<open>i\<close>
  and the direct successors \<open>w\<close> of \<open>u\<close> on that symbol, of the silent closures
  of \<open>w\<close>; and no state of the output has an entry for the silent symbol. The
  call returns, and the output has the states and the start state of the input.
\<close>

theorem remove_spec:
  assumes "wf_nfa infa"
  shows "\<exists>onfa.
           remove infa = Some onfa \<and>
           length (nstates onfa) = length (nstates infa) \<and>
           nstart onfa = nstart infa \<and>
           (\<forall>i < length (nstates infa).
              (naccept (nstates onfa ! i) \<longleftrightarrow>
                 (\<exists>u \<in> eps_closure infa i. naccept (nstates infa ! u))) \<and>
              (\<forall>c. c \<noteq> EPS \<longrightarrow>
                 set (targets (nstates onfa ! i) c) =
                   (\<Union>u \<in> eps_closure infa i.
                      \<Union>w \<in> set (targets (nstates infa ! u) c). eps_closure infa w)) \<and>
              map_of (ntrans (nstates onfa ! i)) EPS = None)"
proof -
  from remove_props[OF assms] obtain onfa where
    o: "remove infa = Some onfa"
       "length (nstates onfa) = length (nstates infa)"
       "nstart onfa = nstart infa"
    and a: "\<forall>i < length (nstates infa).
              (naccept (nstates onfa ! i) \<longleftrightarrow>
                 (\<exists>u \<in> eps_closure infa i. naccept (nstates infa ! u))) \<and>
              (\<forall>c. c \<noteq> EPS \<longrightarrow>
                 set (targets (nstates onfa ! i) c) =
                   (\<Union>u \<in> eps_closure infa i.
                      \<Union>w \<in> set (targets (nstates infa ! u) c). eps_closure infa w)) \<and>
              map_of (ntrans (nstates onfa ! i)) EPS = None \<and>
              distinct (map fst (ntrans (nstates onfa ! i)))"
    by blast
  from a have "\<forall>i < length (nstates infa).
              (naccept (nstates onfa ! i) \<longleftrightarrow>
                 (\<exists>u \<in> eps_closure infa i. naccept (nstates infa ! u))) \<and>
              (\<forall>c. c \<noteq> EPS \<longrightarrow>
                 set (targets (nstates onfa ! i) c) =
                   (\<Union>u \<in> eps_closure infa i.
                      \<Union>w \<in> set (targets (nstates infa ! u) c). eps_closure infa w)) \<and>
              map_of (ntrans (nstates onfa ! i)) EPS = None"
    by blast
  then show ?thesis using o by blast
qed

theorem remove_spec_witness:
  "wf_nfa example_nfa \<and> 0 < length (nstates example_nfa) \<and> CHR ''0'' \<noteq> EPS \<and>
   (\<exists>onfa. remove example_nfa = Some onfa \<and>
      length (nstates onfa) = length (nstates example_nfa) \<and>
      nstart onfa = nstart example_nfa \<and>
      (naccept (nstates onfa ! 0) \<longleftrightarrow>
         (\<exists>u \<in> eps_closure example_nfa 0. naccept (nstates example_nfa ! u))) \<and>
      set (targets (nstates onfa ! 0) (CHR ''0'')) =
        (\<Union>u \<in> eps_closure example_nfa 0.
           \<Union>w \<in> set (targets (nstates example_nfa ! u) (CHR ''0'')). eps_closure example_nfa w) \<and>
      map_of (ntrans (nstates onfa ! 0)) EPS = None)"
proof -
  have pos: "0 < length (nstates example_nfa)" by (simp add: example_nfa_def)
  have ne: "CHR ''0'' \<noteq> EPS" by (simp add: EPS_def)
  from remove_spec[OF example_nfa_wf] obtain onfa where
    o: "remove example_nfa = Some onfa"
       "length (nstates onfa) = length (nstates example_nfa)"
       "nstart onfa = nstart example_nfa"
    and a: "\<forall>i < length (nstates example_nfa).
              (naccept (nstates onfa ! i) \<longleftrightarrow>
                 (\<exists>u \<in> eps_closure example_nfa i. naccept (nstates example_nfa ! u))) \<and>
              (\<forall>c. c \<noteq> EPS \<longrightarrow>
                 set (targets (nstates onfa ! i) c) =
                   (\<Union>u \<in> eps_closure example_nfa i.
                      \<Union>w \<in> set (targets (nstates example_nfa ! u) c). eps_closure example_nfa w)) \<and>
              map_of (ntrans (nstates onfa ! i)) EPS = None"
    by blast
  from a pos ne have
    "(naccept (nstates onfa ! 0) \<longleftrightarrow>
         (\<exists>u \<in> eps_closure example_nfa 0. naccept (nstates example_nfa ! u)))"
    "set (targets (nstates onfa ! 0) (CHR ''0'')) =
        (\<Union>u \<in> eps_closure example_nfa 0.
           \<Union>w \<in> set (targets (nstates example_nfa ! u) (CHR ''0'')). eps_closure example_nfa w)"
    "map_of (ntrans (nstates onfa ! 0)) EPS = None"
    by blast+
  then show ?thesis using example_nfa_wf pos ne o by blast
qed

section \<open>SubsetConstruction\<close>

subsection \<open>move\_set and get\_state\_id\<close>

text \<open>
  \<open>move_set\<close> reads \<open>infa.states[s]\<close> for every member \<open>s\<close> of the subset, which is
  undefined behaviour when \<open>s\<close> is no state.
\<close>

definition move_state :: "NFA \<Rightarrow> char \<Rightarrow> nat \<Rightarrow> nat list \<Rightarrow> nat list option" where
  "move_state n c s res =
     (if s < length (nstates n)
      then Some (fold set_insert (targets (nstates n ! s) c) res)
      else None)"

definition move_set :: "NFA \<Rightarrow> nat list \<Rightarrow> char \<Rightarrow> nat list option" where
  "move_set n cur c = fold_opt (move_state n c) cur []"

text \<open>The loop that looks for an accepting member, with its \<open>break\<close>.\<close>

fun accept_scan :: "NFA \<Rightarrow> nat list \<Rightarrow> bool option" where
  "accept_scan n [] = Some False"
| "accept_scan n (s # ss) =
     (if s < length (nstates n)
      then (if naccept (nstates n ! s) then Some True else accept_scan n ss)
      else None)"

text \<open>
  The state of the construction: \<open>state_map\<close> (a \<open>std::map<set<int>, int>\<close>),
  \<open>dfa_sets\<close> and the queue \<open>q\<close> (its front is the head of the list).
\<close>

type_synonym subset_state = "(nat list \<rightharpoonup> int) \<times> nat list list \<times> nat list list"

definition get_state_id :: "nat list \<Rightarrow> subset_state \<Rightarrow> int \<times> subset_state" where
  "get_state_id S st = (case st of (m, d, q) \<Rightarrow>
     if S = [] then (-1, st)
     else (case m S of
             None \<Rightarrow> (int (length d), (m(S \<mapsto> int (length d)), d @ [S], q @ [S]))
           | Some i \<Rightarrow> (i, st)))"

text \<open>
  The body of the loop of \<open>convert\<close> for the subset \<open>cur\<close> just popped.
  \<open>state_map[cur]\<close> is \<open>operator[]\<close>, which enters the key with the value 0 when
  it is absent.
\<close>

definition convert_step :: "NFA \<Rightarrow> nat list \<Rightarrow> subset_state \<Rightarrow> (DFA_State \<times> subset_state) option" where
  "convert_step n cur st = (case st of (m, d, q) \<Rightarrow>
     let cid = (case m cur of None \<Rightarrow> 0 | Some i \<Rightarrow> i);
         m0 = (case m cur of None \<Rightarrow> m(cur \<mapsto> 0) | Some i \<Rightarrow> m)
     in case accept_scan n cur of
          None \<Rightarrow> None
        | Some is_accept \<Rightarrow>
           (case move_set n cur (CHR ''0'') of
              None \<Rightarrow> None
            | Some go0 \<Rightarrow>
               (case move_set n cur (CHR ''1'') of
                  None \<Rightarrow> None
                | Some go1 \<Rightarrow>
                   (case get_state_id go0 (m0, d, q) of (go0_id, st1) \<Rightarrow>
                    case get_state_id go1 st1 of (go1_id, st2) \<Rightarrow>
                      Some (\<lparr>sid = cid, accept = is_accept, t0 = go0_id, t1 = go1_id\<rparr>, st2)))))"

text \<open>
  Every subset that \<open>move_set\<close> returns is a duplicate-free list of transition
  targets; there are finitely many of them, which bounds the number of
  subsets that can still be entered into \<open>state_map\<close>.
\<close>

definition universe :: "NFA \<Rightarrow> nat list set" where
  "universe n = {xs. set xs \<subseteq> all_targets n \<and> distinct xs}"

definition convert_measure :: "NFA \<Rightarrow> subset_state \<Rightarrow> nat" where
  "convert_measure n st = (case st of (m, d, q) \<Rightarrow> 2 * card (universe n - dom m) + length q)"

lemma finite_universe: "finite (universe n)"
  unfolding universe_def by (rule finite_subset_distinct[OF finite_all_targets])

lemma fold_set_insert_set:
  "set (fold set_insert xs res) = set xs \<union> set res"
  by (induction xs arbitrary: res) auto

lemma fold_set_insert_sorted:
  "sorted res \<Longrightarrow> distinct res \<Longrightarrow>
   sorted (fold set_insert xs res) \<and> distinct (fold set_insert xs res)"
  by (induction xs arbitrary: res) (auto simp: set_insert_sorted)

lemma move_fold:
  assumes "fold_opt (move_state n c) cur res = Some S"
  shows "set S = set res \<union> (\<Union>s \<in> set cur. set (targets (nstates n ! s) c)) \<and>
         (\<forall>s \<in> set cur. s < length (nstates n)) \<and>
         (sorted res \<and> distinct res \<longrightarrow> sorted S \<and> distinct S)"
  using assms
proof (induction cur arbitrary: res)
  case Nil
  then show ?case by simp
next
  case (Cons s cur)
  from Cons.prems have s: "s < length (nstates n)"
    by (auto simp: move_state_def split: if_splits)
  let ?r = "fold set_insert (targets (nstates n ! s) c) res"
  have "move_state n c s res = Some ?r" using s by (simp add: move_state_def)
  then have "fold_opt (move_state n c) cur ?r = Some S"
    using Cons.prems by simp
  from Cons.IH[OF this] show ?case
    using s fold_set_insert_set[of "targets (nstates n ! s) c" res]
      fold_set_insert_sorted[of res "targets (nstates n ! s) c"]
    by auto
qed

lemma move_set_props:
  assumes "move_set n cur c = Some S"
  shows "set S = (\<Union>s \<in> set cur. set (targets (nstates n ! s) c))" "sorted S" "distinct S"
    "S \<in> universe n"
proof -
  from move_fold[OF assms[unfolded move_set_def]]
  have a: "set S = (\<Union>s \<in> set cur. set (targets (nstates n ! s) c))"
    and b: "\<forall>s \<in> set cur. s < length (nstates n)" and c: "sorted S" "distinct S"
    by auto
  show "set S = (\<Union>s \<in> set cur. set (targets (nstates n ! s) c))" by (rule a)
  show "sorted S" "distinct S" by (rule c)+
  have "set S \<subseteq> all_targets n" unfolding a using b targets_subset by blast
  then show "S \<in> universe n" using c by (simp add: universe_def)
qed

lemma get_state_id_measure:
  assumes "S \<in> universe n" "get_state_id S st = (i, st')"
  shows "convert_measure n st' \<le> convert_measure n st"
proof -
  obtain m d q where st: "st = (m, d, q)" by (cases st) auto
  show ?thesis
  proof (cases "S = [] \<or> m S \<noteq> None")
    case True
    then have "st' = st" using assms(2) st
      by (auto simp: get_state_id_def split: if_splits option.splits)
    then show ?thesis by simp
  next
    case False
    then have st': "st' = (m(S \<mapsto> int (length d)), d @ [S], q @ [S])"
      using assms(2) st by (auto simp: get_state_id_def split: if_splits option.splits)
    have mem: "S \<in> universe n - dom m" using False assms(1) by auto
    have fin: "finite (universe n - dom m)" using finite_universe[of n] by simp
    have "universe n - dom (m(S \<mapsto> int (length d))) = (universe n - dom m) - {S}"
      by auto
    then have "card (universe n - dom (m(S \<mapsto> int (length d)))) < card (universe n - dom m)"
      using card_Diff1_less[OF fin mem] by simp
    then show ?thesis unfolding st st' convert_measure_def by simp
  qed
qed

lemma dom_insert_measure:
  "card (universe n - dom (m(k \<mapsto> v))) \<le> card (universe n - dom m)"
  by (rule card_mono) (auto simp: finite_universe)

lemma convert_step_measure:
  assumes "convert_step n cur (m, d, q) = Some (s, st')"
  shows "convert_measure n st' < convert_measure n (m, d, cur # q)"
proof -
  define m0 where "m0 = (case m cur of None \<Rightarrow> m(cur \<mapsto> 0) | Some i \<Rightarrow> m)"
  from assms obtain acc go0 go1 i0 st1 i1 where
    g0: "move_set n cur (CHR ''0'') = Some go0" and g1: "move_set n cur (CHR ''1'') = Some go1"
    and s1: "get_state_id go0 (m0, d, q) = (i0, st1)" and s2: "get_state_id go1 st1 = (i1, st')"
    unfolding convert_step_def m0_def
    by (auto simp: Let_def split: option.splits prod.splits)
  have "convert_measure n st' \<le> convert_measure n st1"
    by (rule get_state_id_measure[OF move_set_props(4)[OF g1] s2])
  also have "\<dots> \<le> convert_measure n (m0, d, q)"
    by (rule get_state_id_measure[OF move_set_props(4)[OF g0] s1])
  also have "\<dots> \<le> convert_measure n (m, d, q)"
    unfolding convert_measure_def m0_def using dom_insert_measure[of n m cur 0]
    by (simp split: option.splits)
  also have "\<dots> < convert_measure n (m, d, cur # q)" by (simp add: convert_measure_def)
  finally show ?thesis .
qed

function convert_loop :: "NFA \<Rightarrow> subset_state \<Rightarrow> DFA_State list
                            \<Rightarrow> ((nat list \<rightharpoonup> int) \<times> nat list list \<times> DFA_State list) option" where
  "convert_loop n (m, d, []) tmp = Some (m, d, tmp)"
| "convert_loop n (m, d, cur # q) tmp =
     (case convert_step n cur (m, d, q) of
        None \<Rightarrow> None
      | Some (s, st') \<Rightarrow> convert_loop n st' (tmp @ [s]))"
  by pat_completeness auto
termination
proof (relation "measure (\<lambda>(n, st, tmp). convert_measure n st)")
  show "wf (measure (\<lambda>(n, st, tmp). convert_measure n st))" by simp
next
  fix n m d cur q tmp x2 s st'
  assume "convert_step n cur (m, d, q) = Some x2" "(s, st') = x2"
  then have "convert_step n cur (m, d, q) = Some (s, st')" by simp
  from convert_step_measure[OF this]
  show "((n, st', tmp @ [s]), (n, (m, d, cur # q), tmp)) \<in> measure (\<lambda>(n, st, tmp). convert_measure n st)"
    by simp
qed

declare convert_loop.simps [simp del]

subsection \<open>convert\<close>

text \<open>
  After the loop the empty subset gets the next index, unless \<open>state_map\<close> holds
  it already; the transitions that \<open>get_state_id\<close> left negative are sent
  there. \<open>resize\<close> value-initialises the states of the result, which the last
  loop overwrites at the index \<open>st.id\<close>; an index outside the vector is undefined
  behaviour. \<open>convert_sets\<close> returns \<open>dfa_sets\<close> next to the automaton, and
  \<open>convert\<close> is what the source returns.
\<close>

definition add_trap :: "(nat list \<rightharpoonup> int) \<times> nat list list \<times> DFA_State list
                          \<Rightarrow> (nat list \<rightharpoonup> int) \<times> nat list list \<times> DFA_State list" where
  "add_trap st = (case st of (m, d, tmp) \<Rightarrow>
     (case m [] of
        None \<Rightarrow> (let tid = int (length tmp)
                 in (m([] \<mapsto> tid), d @ [[]],
                     tmp @ [\<lparr>sid = tid, accept = False, t0 = tid, t1 = tid\<rparr>]))
      | Some i \<Rightarrow> st))"

definition redirect :: "int \<Rightarrow> DFA_State \<Rightarrow> DFA_State" where
  "redirect trap_id st =
     st\<lparr>t0 := (if t0 st < 0 then trap_id else t0 st),
        t1 := (if t1 st < 0 then trap_id else t1 st)\<rparr>"

definition write_state :: "DFA_State \<Rightarrow> DFA_State list \<Rightarrow> DFA_State list option" where
  "write_state st sts =
     (if in_range (sid st) sts then Some (sts[nat (sid st) := st]) else None)"

definition convert_sets :: "NFA \<Rightarrow> (DFA \<times> nat list list) option" where
  "convert_sets n =
     (let start_set = [nstart n]
      in case convert_loop n ([start_set \<mapsto> 0], [start_set], [start_set]) [] of
           None \<Rightarrow> None
         | Some st \<Rightarrow>
            (case add_trap st of (m, d, tmp) \<Rightarrow>
               let trap_id = (case m [] of None \<Rightarrow> 0 | Some i \<Rightarrow> i);
                   tmp' = map (redirect trap_id) tmp
               in case fold_opt write_state tmp'
                         (replicate (length tmp') \<lparr>sid = 0, accept = False, t0 = 0, t1 = 0\<rparr>) of
                    None \<Rightarrow> None
                  | Some sts \<Rightarrow> Some (\<lparr>states = sts, start = 0, trap = trap_id\<rparr>, d)))"

definition convert :: "NFA \<Rightarrow> DFA option" where
  "convert n = map_option fst (convert_sets n)"

subsection \<open>The invariant of the loop of convert\<close>

text \<open>
  A subset is good when it is a strictly increasing list of states of the
  automaton. On a good subset \<open>accept_scan\<close> and \<open>move_set\<close> return, and in a
  well-formed automaton \<open>move_set\<close> returns a good subset.
\<close>

definition good_set :: "NFA \<Rightarrow> nat list \<Rightarrow> bool" where
  "good_set n S = (sorted S \<and> distinct S \<and> (\<forall>s \<in> set S. s < length (nstates n)))"

lemma accept_scan_Some:
  assumes "\<forall>s \<in> set S. s < length (nstates n)"
  shows "accept_scan n S = Some (\<exists>x \<in> set S. naccept (nstates n ! x))"
  using assms by (induction S) auto

lemma move_fold_Some:
  assumes "\<forall>s \<in> set cur. s < length (nstates n)"
  shows "\<exists>S. fold_opt (move_state n c) cur res = Some S"
  using assms
proof (induction cur arbitrary: res)
  case Nil
  then show ?case by simp
next
  case (Cons s cur)
  have "move_state n c s res = Some (fold set_insert (targets (nstates n ! s) c) res)"
    using Cons.prems by (simp add: move_state_def)
  then show ?case using Cons.IH[of "fold set_insert (targets (nstates n ! s) c) res"] Cons.prems
    by simp
qed

lemma move_set_good:
  assumes "wf_nfa n" "good_set n S"
  shows "\<exists>T. move_set n S c = Some T \<and> good_set n T"
proof -
  have r: "\<forall>s \<in> set S. s < length (nstates n)" using assms(2) by (simp add: good_set_def)
  from move_fold_Some[OF this] obtain T where T: "move_set n S c = Some T"
    unfolding move_set_def by blast
  have "\<forall>x \<in> set T. x < length (nstates n)"
    using move_set_props(1)[OF T] r wf_targets[OF assms(1)] by blast
  then show ?thesis using T move_set_props(2,3)[OF T] by (simp add: good_set_def)
qed

lemma move_set_Nil: "move_set n [] c = Some []"
  by (simp add: move_set_def)

text \<open>
  The invariant on \<open>state_map\<close>, \<open>dfa_sets\<close> and the queue, when \<open>p\<close> subsets have
  been popped: the queue holds the subsets from index \<open>p\<close> on, \<open>dfa_sets\<close> has no
  duplicate and not the empty subset, and \<open>state_map\<close> maps each subset of
  \<open>dfa_sets\<close> to its index and nothing else.
\<close>

definition core_inv :: "NFA \<Rightarrow> nat \<Rightarrow> subset_state \<Rightarrow> bool" where
  "core_inv n p st = (case st of (m, d, q) \<Rightarrow>
     q = drop p d \<and> p \<le> length d \<and> distinct d \<and> [] \<notin> set d \<and>
     (\<forall>i < length d. m (d ! i) = Some (int i)) \<and> dom m = set d \<and>
     (\<forall>S \<in> set d. good_set n S) \<and> d \<noteq> [] \<and> d ! 0 = [nstart n])"

text \<open>
  What \<open>get_state_id\<close> returns for the subset \<open>T\<close>: -1 for the empty one, else
  the index of \<open>T\<close> in \<open>dfa_sets\<close>.
\<close>

definition id_of :: "nat list list \<Rightarrow> nat list \<Rightarrow> int \<Rightarrow> bool" where
  "id_of d T i = (if T = [] then i = -1 else in_range i d \<and> d ! nat i = T)"

lemma id_of_append: "id_of d T i \<Longrightarrow> id_of (d @ e) T i"
  by (auto simp: id_of_def in_range_def nth_append)

lemma get_state_id_inv:
  assumes "core_inv n p (m, d, q)" "good_set n T" "get_state_id T (m, d, q) = (i, st')"
  shows "\<exists>m' d' q' e. st' = (m', d', q') \<and> core_inv n p st' \<and> d' = d @ e \<and> id_of d' T i"
proof (cases "T = []")
  case True
  then have "st' = (m, d, q)" "i = -1" using assms(3) by (auto simp: get_state_id_def)
  then show ?thesis using assms(1) True by (auto simp: id_of_def)
next
  case ne: False
  from assms(1) have inv: "q = drop p d" "p \<le> length d" "distinct d" "[] \<notin> set d"
    "\<forall>i < length d. m (d ! i) = Some (int i)" "dom m = set d" "\<forall>S \<in> set d. good_set n S"
    "d \<noteq> []" "d ! 0 = [nstart n]"
    by (auto simp: core_inv_def)
  show ?thesis
  proof (cases "m T")
    case None
    then have notin: "T \<notin> set d" using inv(6) by auto
    let ?m = "m(T \<mapsto> int (length d))"
    have st': "st' = (?m, d @ [T], q @ [T])" and i: "i = int (length d)"
      using assms(3) ne None by (auto simp: get_state_id_def)
    have a: "q @ [T] = drop p (d @ [T])" using inv(1,2) by simp
    have b: "\<forall>j < length (d @ [T]). ?m ((d @ [T]) ! j) = Some (int j)"
    proof (intro allI impI)
      fix j assume j: "j < length (d @ [T])"
      show "?m ((d @ [T]) ! j) = Some (int j)"
      proof (cases "j < length d")
        case True
        then have "d ! j \<noteq> T" using notin by (metis nth_mem)
        then show ?thesis using True inv(5) by (simp add: nth_append)
      next
        case False
        then have "j = length d" using j by simp
        then show ?thesis by simp
      qed
    qed
    have c: "dom ?m = set (d @ [T])" using inv(6) by auto
    have e: "(d @ [T]) ! 0 = [nstart n]" using inv(8,9) by (simp add: nth_append)
    have "core_inv n p (?m, d @ [T], q @ [T])"
      unfolding core_inv_def using a b c e inv(2,3,4,7) notin ne assms(2)
      by (simp del: fun_upd_apply)
    moreover have "id_of (d @ [T]) T i" using ne i by (simp add: id_of_def in_range_def)
    ultimately show ?thesis using st' by blast
  next
    case (Some j)
    then have st': "st' = (m, d, q)" and i: "i = j"
      using assms(3) ne by (auto simp: get_state_id_def)
    from Some have "T \<in> set d" using inv(6) by auto
    then obtain k where k: "k < length d" "d ! k = T" by (auto simp: in_set_conv_nth)
    then have "j = int k" using inv(5) Some by auto
    then have "id_of d T i" using ne i k by (simp add: id_of_def in_range_def)
    then show ?thesis using st' assms(1) by auto
  qed
qed

text \<open>
  The state recorded for the subset of index \<open>k\<close>: its number is \<open>k\<close>, it
  accepts when a member of the subset does, and its transitions are what
  \<open>get_state_id\<close> returns for the two moves of the subset.
\<close>

definition tgt_ok :: "NFA \<Rightarrow> nat list list \<Rightarrow> nat list \<Rightarrow> char \<Rightarrow> int \<Rightarrow> bool" where
  "tgt_ok n d S c i = (\<exists>T. move_set n S c = Some T \<and> id_of d T i)"

definition state_ok :: "NFA \<Rightarrow> nat list list \<Rightarrow> nat \<Rightarrow> DFA_State \<Rightarrow> bool" where
  "state_ok n d k s =
     (sid s = int k \<and> (accept s \<longleftrightarrow> (\<exists>x \<in> set (d ! k). naccept (nstates n ! x))) \<and>
      tgt_ok n d (d ! k) (CHR ''0'') (t0 s) \<and> tgt_ok n d (d ! k) (CHR ''1'') (t1 s))"

lemma state_ok_append:
  "k < length d \<Longrightarrow> state_ok n d k s \<Longrightarrow> state_ok n (d @ e) k s"
  unfolding state_ok_def tgt_ok_def using id_of_append by (auto simp: nth_append)

definition subset_inv :: "NFA \<Rightarrow> subset_state \<Rightarrow> DFA_State list \<Rightarrow> bool" where
  "subset_inv n st tmp =
     (core_inv n (length tmp) st \<and>
      (\<forall>k < length tmp. state_ok n (fst (snd st)) k (tmp ! k)))"

lemma convert_step_inv:
  assumes "wf_nfa n" "subset_inv n (m, d, cur # q) tmp"
  shows "\<exists>s st'. convert_step n cur (m, d, q) = Some (s, st') \<and> subset_inv n st' (tmp @ [s])"
proof -
  let ?p = "length tmp"
  from assms(2) have inv: "cur # q = drop ?p d" "?p \<le> length d" "distinct d" "[] \<notin> set d"
    "\<forall>i < length d. m (d ! i) = Some (int i)" "dom m = set d" "\<forall>S \<in> set d. good_set n S"
    "d \<noteq> []" "d ! 0 = [nstart n]"
    and tmp: "\<forall>k < ?p. state_ok n d k (tmp ! k)"
    by (auto simp: subset_inv_def core_inv_def)
  have p: "?p < length d" using inv(1,2) by (cases "?p = length d") auto
  have cur: "cur = d ! ?p" and q: "q = drop (Suc ?p) d"
    using inv(1) p by (simp_all add: Cons_nth_drop_Suc[symmetric])
  have mcur: "m cur = Some (int ?p)" using inv(5) p cur by simp
  have good: "good_set n cur" using inv(7) p cur by simp
  have core: "core_inv n (Suc ?p) (m, d, q)"
    unfolding core_inv_def using inv q p by simp
  have acc: "accept_scan n cur = Some (\<exists>x \<in> set cur. naccept (nstates n ! x))"
    using good by (intro accept_scan_Some) (simp add: good_set_def)
  from move_set_good[OF assms(1) good] obtain go0 go1 where
    g0: "move_set n cur (CHR ''0'') = Some go0" "good_set n go0" and
    g1: "move_set n cur (CHR ''1'') = Some go1" "good_set n go1" by blast
  obtain i0 st1 where s1: "get_state_id go0 (m, d, q) = (i0, st1)" by (cases "get_state_id go0 (m, d, q)") auto
  from get_state_id_inv[OF core g0(2) s1] obtain m1 d1 q1 e1 where
    st1: "st1 = (m1, d1, q1)" "core_inv n (Suc ?p) (m1, d1, q1)" "d1 = d @ e1" "id_of d1 go0 i0"
    by blast
  obtain i1 st2 where s2: "get_state_id go1 (m1, d1, q1) = (i1, st2)"
    by (cases "get_state_id go1 (m1, d1, q1)") auto
  from get_state_id_inv[OF st1(2) g1(2) s2] obtain m2 d2 q2 e2 where
    st2: "st2 = (m2, d2, q2)" "core_inv n (Suc ?p) (m2, d2, q2)" "d2 = d1 @ e2" "id_of d2 go1 i1"
    by blast
  let ?s = "\<lparr>sid = int ?p, accept = (\<exists>x \<in> set cur. naccept (nstates n ! x)), t0 = i0, t1 = i1\<rparr>"
  have step: "convert_step n cur (m, d, q) = Some (?s, st2)"
    unfolding convert_step_def using mcur acc g0(1) g1(1) s1 s2 st1(1) by (simp add: Let_def)
  have d2: "d2 = d @ (e1 @ e2)" using st1(3) st2(3) by simp
  have nthp: "d2 ! ?p = cur" using d2 p cur by (simp add: nth_append)
  have new: "state_ok n d2 ?p ?s"
    unfolding state_ok_def tgt_ok_def nthp
    using g0(1) g1(1) st2(4) id_of_append[OF st1(4), of e2] st2(3) by simp
  have old: "state_ok n d2 k (tmp ! k)" if "k < ?p" for k
    unfolding d2 using state_ok_append[of k d n "tmp ! k" "e1 @ e2"] tmp that p by simp
  have "\<forall>k < length (tmp @ [?s]). state_ok n d2 k ((tmp @ [?s]) ! k)"
  proof (intro allI impI)
    fix k assume "k < length (tmp @ [?s])"
    then consider "k < ?p" | "k = ?p" by fastforce
    then show "state_ok n d2 k ((tmp @ [?s]) ! k)"
    proof cases
      case 1
      then show ?thesis using old by (simp add: nth_append)
    next
      case 2
      then show ?thesis using new by simp
    qed
  qed
  then have "subset_inv n st2 (tmp @ [?s])"
    unfolding subset_inv_def using st2(1,2) by simp
  then show ?thesis using step by blast
qed

lemma convert_loop_inv:
  assumes "wf_nfa n" "subset_inv n st tmp"
  shows "\<exists>m d tmp'. convert_loop n st tmp = Some (m, d, tmp') \<and> subset_inv n (m, d, []) tmp'"
  using assms
proof (induction n st tmp rule: convert_loop.induct)
  case (1 n m d tmp)
  then show ?case by (simp add: convert_loop.simps)
next
  case (2 n m d cur q tmp)
  from convert_step_inv[OF "2.prems"] obtain s st' where
    s: "convert_step n cur (m, d, q) = Some (s, st')" "subset_inv n st' (tmp @ [s])" by blast
  from "2.IH"[OF s(1) refl "2.prems"(1) s(2)] show ?case using s(1)
    by (simp add: convert_loop.simps)
qed

lemma write_states:
  assumes "length acc = length xs" "\<forall>k < length xs. sid (xs ! k) = int k"
    "j \<le> length xs" "take j acc = take j xs"
  shows "fold_opt write_state (drop j xs) acc = Some xs"
  using assms
proof (induction "length xs - j" arbitrary: j acc)
  case 0
  then have "j = length xs" by simp
  then show ?case using "0.prems"(1,4) by simp
next
  case (Suc k)
  then have j: "j < length xs" by simp
  have w: "write_state (xs ! j) acc = Some (acc[j := xs ! j])"
    using j Suc.prems(1,2) by (simp add: write_state_def in_range_def)
  have t: "take (Suc j) (acc[j := xs ! j]) = take (Suc j) xs"
    using j Suc.prems(1,4) by (simp add: take_Suc_conv_app_nth)
  have "fold_opt write_state (drop (Suc j) xs) (acc[j := xs ! j]) = Some xs"
    using Suc.hyps(1)[of "Suc j" "acc[j := xs ! j]"] Suc.hyps(2) Suc.prems(1,2) j t by simp
  then show ?case using w j by (simp add: Cons_nth_drop_Suc[symmetric])
qed

text \<open>
  The automaton that \<open>convert\<close> returns is the subset automaton on \<open>dfa_sets\<close>:
  the state \<open>k\<close> stands for the subset \<open>sets ! k\<close>, the first subset is the start
  subset, the last one is the empty subset and the trap, and each transition
  leads to the index of the move of the subset.
\<close>

definition subset_dfa :: "NFA \<Rightarrow> DFA \<Rightarrow> nat list list \<Rightarrow> bool" where
  "subset_dfa n dfa sets =
     (length (states dfa) = length sets \<and> start dfa = 0 \<and> 0 < length sets \<and>
      sets ! 0 = [nstart n] \<and> distinct sets \<and> (\<forall>S \<in> set sets. good_set n S) \<and>
      trap dfa = int (length sets) - 1 \<and> sets ! (length sets - 1) = [] \<and>
      (\<forall>k < length sets.
         sid (states dfa ! k) = int k \<and>
         (accept (states dfa ! k) \<longleftrightarrow> (\<exists>x \<in> set (sets ! k). naccept (nstates n ! x))) \<and>
         (\<exists>T. move_set n (sets ! k) (CHR ''0'') = Some T \<and>
              in_range (t0 (states dfa ! k)) sets \<and> sets ! nat (t0 (states dfa ! k)) = T) \<and>
         (\<exists>T. move_set n (sets ! k) (CHR ''1'') = Some T \<and>
              in_range (t1 (states dfa ! k)) sets \<and> sets ! nat (t1 (states dfa ! k)) = T)))"

lemma redirect_tgt:
  assumes "tgt_ok n d S c i" "[] \<notin> set d"
  shows "\<exists>T. move_set n S c = Some T \<and>
           in_range (if i < 0 then int (length d) else i) (d @ [[]]) \<and>
           (d @ [[]]) ! nat (if i < 0 then int (length d) else i) = T"
proof -
  from assms(1) obtain T where T: "move_set n S c = Some T" "id_of d T i"
    by (auto simp: tgt_ok_def)
  show ?thesis
  proof (cases "T = []")
    case True
    then have "i = -1" using T(2) by (simp add: id_of_def)
    then show ?thesis using T(1) True by (simp add: in_range_def)
  next
    case False
    then have "in_range i d" "d ! nat i = T" using T(2) by (simp_all add: id_of_def)
    then show ?thesis using T(1) by (auto simp: in_range_def nth_append)
  qed
qed

lemma convert_props:
  assumes "wf_nfa n" "nstart n < length (nstates n)"
  shows "\<exists>dfa sets. convert_sets n = Some (dfa, sets) \<and> subset_dfa n dfa sets"
proof -
  let ?S = "[nstart n]"
  have "subset_inv n ([?S \<mapsto> 0], [?S], [?S]) []"
    using assms(2) by (auto simp: subset_inv_def core_inv_def good_set_def)
  from convert_loop_inv[OF assms(1) this] obtain m d tmp where
    loop: "convert_loop n ([?S \<mapsto> 0], [?S], [?S]) [] = Some (m, d, tmp)"
    and fin: "subset_inv n (m, d, []) tmp" by blast
  from fin have inv: "[] = drop (length tmp) d" "length tmp \<le> length d" "distinct d" "[] \<notin> set d"
    "\<forall>i < length d. m (d ! i) = Some (int i)" "dom m = set d" "\<forall>S \<in> set d. good_set n S"
    "d \<noteq> []" "d ! 0 = [nstart n]"
    and tmp: "\<forall>k < length tmp. state_ok n d k (tmp ! k)"
    by (auto simp: subset_inv_def core_inv_def)
  have len: "length tmp = length d" using inv(1,2) by simp
  have none: "m [] = None" using inv(4,6) by blast
  let ?tid = "int (length tmp)"
  let ?ts = "\<lparr>sid = ?tid, accept = False, t0 = ?tid, t1 = ?tid\<rparr>"
  let ?m = "m([] \<mapsto> ?tid)"
  let ?d = "d @ [[]]"
  let ?tmp = "map (redirect ?tid) (tmp @ [?ts])"
  have trap: "add_trap (m, d, tmp) = (?m, ?d, tmp @ [?ts])"
    using none by (simp add: add_trap_def Let_def)
  have sids: "\<forall>k < length ?tmp. sid (?tmp ! k) = int k"
  proof (intro allI impI)
    fix k assume "k < length ?tmp"
    then consider "k < length tmp" | "k = length tmp" by fastforce
    then show "sid (?tmp ! k) = int k"
    proof cases
      case 1
      then show ?thesis using tmp by (simp add: nth_append redirect_def state_ok_def)
    next
      case 2
      then show ?thesis by (simp add: nth_append redirect_def)
    qed
  qed
  have "fold_opt write_state (drop 0 ?tmp)
          (replicate (length ?tmp) \<lparr>sid = 0, accept = False, t0 = 0, t1 = 0\<rparr>) = Some ?tmp"
    by (rule write_states[OF _ sids]) simp_all
  then have wr: "fold_opt write_state ?tmp
          (replicate (length ?tmp) \<lparr>sid = 0, accept = False, t0 = 0, t1 = 0\<rparr>) = Some ?tmp"
    by simp
  let ?dfa = "\<lparr>states = ?tmp, start = 0, trap = ?tid\<rparr>"
  have conv: "convert_sets n = Some (?dfa, ?d)"
    unfolding convert_sets_def Let_def loop using trap wr by (simp del: fold_opt.simps map_append)
  have k_ok: "sid (?tmp ! k) = int k \<and>
         (accept (?tmp ! k) \<longleftrightarrow> (\<exists>x \<in> set (?d ! k). naccept (nstates n ! x))) \<and>
         (\<exists>T. move_set n (?d ! k) (CHR ''0'') = Some T \<and>
              in_range (t0 (?tmp ! k)) ?d \<and> ?d ! nat (t0 (?tmp ! k)) = T) \<and>
         (\<exists>T. move_set n (?d ! k) (CHR ''1'') = Some T \<and>
              in_range (t1 (?tmp ! k)) ?d \<and> ?d ! nat (t1 (?tmp ! k)) = T)"
    if k: "k < length ?d" for k
  proof (cases "k < length tmp")
    case True
    have e: "?tmp ! k = redirect ?tid (tmp ! k)" "?d ! k = d ! k"
      using True len by (simp_all add: nth_append)
    have ok: "state_ok n d k (tmp ! k)" using tmp True by simp
    have a0: "\<exists>T. move_set n (d ! k) (CHR ''0'') = Some T \<and>
              in_range (t0 (redirect ?tid (tmp ! k))) ?d \<and>
              ?d ! nat (t0 (redirect ?tid (tmp ! k))) = T"
      using redirect_tgt[OF _ inv(4), of n "d ! k" "CHR ''0''" "t0 (tmp ! k)"] ok len
      by (simp add: state_ok_def redirect_def)
    have a1: "\<exists>T. move_set n (d ! k) (CHR ''1'') = Some T \<and>
              in_range (t1 (redirect ?tid (tmp ! k))) ?d \<and>
              ?d ! nat (t1 (redirect ?tid (tmp ! k))) = T"
      using redirect_tgt[OF _ inv(4), of n "d ! k" "CHR ''1''" "t1 (tmp ! k)"] ok len
      by (simp add: state_ok_def redirect_def)
    have b: "sid (redirect ?tid (tmp ! k)) = int k"
      "accept (redirect ?tid (tmp ! k)) \<longleftrightarrow> (\<exists>x \<in> set (d ! k). naccept (nstates n ! x))"
      using ok by (simp_all add: state_ok_def redirect_def)
    show ?thesis unfolding e using a0 a1 b by blast
  next
    case False
    then have kk: "k = length tmp" using k len by simp
    have e: "?tmp ! k = ?ts" "?d ! k = []"
      using kk len by (simp_all add: nth_append redirect_def)
    show ?thesis unfolding e using kk len by (simp add: move_set_Nil in_range_def)
  qed
  have "subset_dfa n ?dfa ?d"
    unfolding subset_dfa_def
  proof (intro conjI allI impI)
    show "length (states ?dfa) = length ?d" using len by simp
    show "start ?dfa = 0" by simp
    show "0 < length ?d" by simp
    show "?d ! 0 = [nstart n]" using inv(8,9) by (simp add: nth_append)
    show "distinct ?d" using inv(3,4) by simp
    show "\<forall>S \<in> set ?d. good_set n S" using inv(7) by (simp add: good_set_def)
    show "trap ?dfa = int (length ?d) - 1" using len by simp
    show "?d ! (length ?d - 1) = []" by simp
  next
    fix k assume k: "k < length ?d"
    from k_ok[OF k]
    show "sid (states ?dfa ! k) = int k"
      "accept (states ?dfa ! k) \<longleftrightarrow> (\<exists>x \<in> set (?d ! k). naccept (nstates n ! x))"
      "\<exists>T. move_set n (?d ! k) (CHR ''0'') = Some T \<and>
              in_range (t0 (states ?dfa ! k)) ?d \<and> ?d ! nat (t0 (states ?dfa ! k)) = T"
      "\<exists>T. move_set n (?d ! k) (CHR ''1'') = Some T \<and>
              in_range (t1 (states ?dfa ! k)) ?d \<and> ?d ! nat (t1 (states ?dfa ! k)) = T"
      by simp_all
  qed
  then show ?thesis using conv by blast
qed

subsection \<open>The automaton of convert is total and has one trap\<close>

lemma in_range_length: "length xs = length ys \<Longrightarrow> in_range i xs = in_range i ys"
  by (simp add: in_range_def)

lemma subset_dfa_empty_index:
  assumes "subset_dfa n dfa sets" "k < length sets"
  shows "sets ! k = [] \<longleftrightarrow> int k = trap dfa"
proof -
  from assms(1) have d: "distinct sets" and l: "0 < length sets"
    and t: "trap dfa = int (length sets) - 1" and e: "sets ! (length sets - 1) = []"
    by (simp_all add: subset_dfa_def)
  have "sets ! k = sets ! (length sets - 1) \<longleftrightarrow> k = length sets - 1"
    using d assms(2) l by (simp add: nth_eq_iff_index_eq)
  moreover have "int k = trap dfa \<longleftrightarrow> k = length sets - 1" using t l by linarith
  ultimately show ?thesis using e by simp
qed

lemma subset_dfa_wf:
  assumes "subset_dfa n dfa sets"
  shows "wf_dfa dfa"
proof -
  from assms have len: "length (states dfa) = length sets" and l: "0 < length sets"
    and s: "start dfa = 0" and t: "trap dfa = int (length sets) - 1"
    by (simp_all add: subset_dfa_def)
  have "in_range (t0 st) (states dfa) \<and> in_range (t1 st) (states dfa)"
    if "st \<in> set (states dfa)" for st
  proof -
    from that obtain k where k: "k < length sets" "st = states dfa ! k"
      using len by (auto simp: in_set_conv_nth)
    from assms k(1) have "in_range (t0 (states dfa ! k)) sets" "in_range (t1 (states dfa ! k)) sets"
      unfolding subset_dfa_def by blast+
    then show ?thesis using k(2) in_range_length[OF len] by simp
  qed
  then have "total_dfa dfa" by (simp add: total_dfa_def)
  moreover have "in_range (start dfa) (states dfa)" "in_range (trap dfa) (states dfa)"
    using len l s t by (simp_all add: in_range_def)
  ultimately show ?thesis by (simp add: wf_dfa_def)
qed

lemma subset_dfa_redirect:
  assumes "subset_dfa n dfa sets" "k < length sets"
  shows "move_set n (sets ! k) (CHR ''0'') = Some [] \<Longrightarrow> t0 (states dfa ! k) = trap dfa"
    and "move_set n (sets ! k) (CHR ''1'') = Some [] \<Longrightarrow> t1 (states dfa ! k) = trap dfa"
proof -
  have idx: "i = trap dfa" if "in_range i sets" "sets ! nat i = []" for i
    using subset_dfa_empty_index[OF assms(1), of "nat i"] that by (auto simp: in_range_def)
  from assms obtain T0 T1 where
    a: "move_set n (sets ! k) (CHR ''0'') = Some T0" "in_range (t0 (states dfa ! k)) sets"
       "sets ! nat (t0 (states dfa ! k)) = T0"
    and b: "move_set n (sets ! k) (CHR ''1'') = Some T1" "in_range (t1 (states dfa ! k)) sets"
       "sets ! nat (t1 (states dfa ! k)) = T1"
    unfolding subset_dfa_def by blast
  show "move_set n (sets ! k) (CHR ''0'') = Some [] \<Longrightarrow> t0 (states dfa ! k) = trap dfa"
    using a idx by simp
  show "move_set n (sets ! k) (CHR ''1'') = Some [] \<Longrightarrow> t1 (states dfa ! k) = trap dfa"
    using b idx by simp
qed

lemma subset_dfa_trap:
  assumes "subset_dfa n dfa sets"
  shows "\<not> accept (states dfa ! nat (trap dfa))"
    "t0 (states dfa ! nat (trap dfa)) = trap dfa" "t1 (states dfa ! nat (trap dfa)) = trap dfa"
proof -
  let ?k = "length sets - 1"
  from assms have l: "0 < length sets" and t: "trap dfa = int (length sets) - 1"
    and e: "sets ! ?k = []"
    by (simp_all add: subset_dfa_def)
  have k: "?k < length sets" "nat (trap dfa) = ?k" using l t by auto
  from assms k(1) have "accept (states dfa ! ?k) \<longleftrightarrow> (\<exists>x \<in> set (sets ! ?k). naccept (nstates n ! x))"
    unfolding subset_dfa_def by blast
  then show "\<not> accept (states dfa ! nat (trap dfa))" using e k(2) by simp
  show "t0 (states dfa ! nat (trap dfa)) = trap dfa"
    using subset_dfa_redirect(1)[OF assms k(1)] e k(2) by (simp add: move_set_Nil)
  show "t1 (states dfa ! nat (trap dfa)) = trap dfa"
    using subset_dfa_redirect(2)[OF assms k(1)] e k(2) by (simp add: move_set_Nil)
qed

text \<open>
  A silent-free automaton in which the start state has no successor on the
  symbol 1.
\<close>

definition example_subset_nfa :: NFA where
  "example_subset_nfa =
     \<lparr>nstates = [\<lparr>nid = 0, naccept = False, ntrans = [(CHR ''0'', [1, 0])]\<rparr>,
                \<lparr>nid = 1, naccept = True, ntrans = []\<rparr>],
      nstart = 0\<rparr>"

text \<open>
  Claim C5. For a well-formed automaton whose start state exists, \<open>convert\<close>
  returns an automaton with one state per subset of \<open>dfa_sets\<close>, the first
  being the start subset, such that: both successors of every state are
  indices of existing states, and so are the start and the trap index (the
  automaton is total and well-formed); exactly one index stands for the empty
  subset, and it is the trap index; the trap state is not accepting and both
  its transitions lead to itself; and whenever the move of a subset on a
  symbol is the empty subset, the transition of its state on that symbol is
  the trap index.
\<close>

theorem convert_total_with_trap:
  assumes "wf_nfa n" "nstart n < length (nstates n)"
  shows "\<exists>dfa sets.
           convert_sets n = Some (dfa, sets) \<and> convert n = Some dfa \<and>
           length (states dfa) = length sets \<and> sets ! 0 = [nstart n] \<and>
           total_dfa dfa \<and>
           in_range (start dfa) (states dfa) \<and> in_range (trap dfa) (states dfa) \<and>
           (\<forall>k < length sets. sets ! k = [] \<longleftrightarrow> int k = trap dfa) \<and>
           \<not> accept (states dfa ! nat (trap dfa)) \<and>
           t0 (states dfa ! nat (trap dfa)) = trap dfa \<and>
           t1 (states dfa ! nat (trap dfa)) = trap dfa \<and>
           (\<forall>k < length sets.
              (move_set n (sets ! k) (CHR ''0'') = Some [] \<longrightarrow> t0 (states dfa ! k) = trap dfa) \<and>
              (move_set n (sets ! k) (CHR ''1'') = Some [] \<longrightarrow> t1 (states dfa ! k) = trap dfa))"
proof -
  from convert_props[OF assms] obtain dfa sets where
    c: "convert_sets n = Some (dfa, sets)" and s: "subset_dfa n dfa sets" by blast
  have "convert n = Some dfa" using c by (simp add: convert_def)
  moreover have "length (states dfa) = length sets" "sets ! 0 = [nstart n]"
    using s by (simp_all add: subset_dfa_def)
  moreover have "total_dfa dfa" "in_range (start dfa) (states dfa)" "in_range (trap dfa) (states dfa)"
    using subset_dfa_wf[OF s] by (simp_all add: wf_dfa_def)
  moreover have "\<forall>k < length sets. sets ! k = [] \<longleftrightarrow> int k = trap dfa"
    using subset_dfa_empty_index[OF s] by blast
  moreover have "\<forall>k < length sets.
              (move_set n (sets ! k) (CHR ''0'') = Some [] \<longrightarrow> t0 (states dfa ! k) = trap dfa) \<and>
              (move_set n (sets ! k) (CHR ''1'') = Some [] \<longrightarrow> t1 (states dfa ! k) = trap dfa)"
    using subset_dfa_redirect[OF s] by blast
  ultimately show ?thesis using c subset_dfa_trap[OF s] by blast
qed

theorem convert_total_with_trap_witness:
  "wf_nfa example_subset_nfa \<and> nstart example_subset_nfa < length (nstates example_subset_nfa) \<and>
   (\<exists>dfa sets.
      convert_sets example_subset_nfa = Some (dfa, sets) \<and> total_dfa dfa \<and>
      0 < length sets \<and> sets ! 0 = [0] \<and> (sets ! 0 = [] \<longleftrightarrow> int 0 = trap dfa) \<and>
      move_set example_subset_nfa (sets ! 0) (CHR ''1'') = Some [] \<and>
      t1 (states dfa ! 0) = trap dfa \<and>
      t0 (states dfa ! nat (trap dfa)) = trap dfa)"
proof -
  have wf: "wf_nfa example_subset_nfa"
    by (simp add: wf_nfa_def example_subset_nfa_def)
  have st: "nstart example_subset_nfa < length (nstates example_subset_nfa)"
    by (simp add: example_subset_nfa_def)
  from convert_total_with_trap[OF wf st] obtain dfa sets where
    c: "convert_sets example_subset_nfa = Some (dfa, sets)" "total_dfa dfa"
       "length (states dfa) = length sets" "sets ! 0 = [nstart example_subset_nfa]"
       "in_range (start dfa) (states dfa)"
       "t0 (states dfa ! nat (trap dfa)) = trap dfa"
    and e: "\<forall>k < length sets. sets ! k = [] \<longleftrightarrow> int k = trap dfa"
    and r: "\<forall>k < length sets.
              (move_set example_subset_nfa (sets ! k) (CHR ''0'') = Some [] \<longrightarrow>
                 t0 (states dfa ! k) = trap dfa) \<and>
              (move_set example_subset_nfa (sets ! k) (CHR ''1'') = Some [] \<longrightarrow>
                 t1 (states dfa ! k) = trap dfa)"
    by blast
  have pos: "0 < length sets" using c(3,5) by (auto simp: in_range_def)
  have s0: "sets ! 0 = [0]" using c(4) by (simp add: example_subset_nfa_def)
  have mv: "move_set example_subset_nfa (sets ! 0) (CHR ''1'') = Some []"
    unfolding s0 by (simp add: move_set_def move_state_def example_subset_nfa_def targets_def)
  have "t1 (states dfa ! 0) = trap dfa" using r pos mv by blast
  moreover have "sets ! 0 = [] \<longleftrightarrow> int 0 = trap dfa" using e pos by blast
  ultimately show ?thesis using wf st c(1,2,6) pos s0 mv by blast
qed

text \<open>
  The automaton that \<open>convert\<close> returns has its trap, which is not accepting, so
  the refinement loop of the minimizer returns on it after at most as many
  passes as it has states.
\<close>

lemma convert_refine_loop_bound:
  assumes "wf_nfa n" "nstart n < length (nstates n)"
  shows "\<exists>dfa part passes.
           convert n = Some dfa \<and> 2 \<le> length (states dfa) \<and>
           \<not> accept (states dfa ! nat (trap dfa)) \<and>
           refine_loop dfa (initial_partition dfa) 0 = Some (part, passes) \<and>
           passes \<le> length (states dfa)"
proof -
  from convert_props[OF assms] obtain dfa sets where
    c: "convert_sets n = Some (dfa, sets)" and s: "subset_dfa n dfa sets" by blast
  have cv: "convert n = Some dfa" using c by (simp add: convert_def)
  have wf: "wf_dfa dfa" by (rule subset_dfa_wf[OF s])
  have na: "\<not> accept (states dfa ! nat (trap dfa))" by (rule subset_dfa_trap(1)[OF s])
  have len: "length (states dfa) = length sets" "0 < length sets" "sets ! 0 = [nstart n]"
    "sets ! (length sets - 1) = []"
    using s by (simp_all add: subset_dfa_def)
  have "length sets \<noteq> 1" using len(3,4) by auto
  then have two: "2 \<le> length (states dfa)" using len(1,2) by linarith
  have "in_range (trap dfa) (states dfa)" using wf by (simp add: wf_dfa_def)
  then have "states dfa ! nat (trap dfa) \<in> set (states dfa)"
    using in_range_nat by (metis nth_mem)
  then have "\<exists>st \<in> set (states dfa). \<not> accept st" using na by blast
  then have "(\<exists>st \<in> set (states dfa). \<not> accept st) \<or> 2 \<le> length (states dfa)" by blast
  from refine_loop_bound[OF _ this] wf obtain part passes where
    "refine_loop dfa (initial_partition dfa) 0 = Some (part, passes)"
    "passes \<le> length (states dfa)"
    by (auto simp: wf_dfa_def)
  then show ?thesis using cv two na by blast
qed

section \<open>Regular expressions (struct RegexNode)\<close>

text \<open>
  A \<open>RegexNode *\<close> is a tree: \<open>Null\<close> is the null pointer, and each of the four
  node types carries the fields that the source reads for it (\<open>ch\<close> for a
  \<open>CHAR_node\<close>, \<open>left\<close> and \<open>right\<close> for \<open>CONCAT\<close> and \<open>UNION\<close>, \<open>left\<close> for \<open>STAR\<close>).
\<close>

datatype RegexNode =
    Null
  | CHAR_node char
  | CONCAT RegexNode RegexNode
  | UNION RegexNode RegexNode
  | STAR RegexNode

section \<open>Thompson\<close>

text \<open>\<open>NFA::new_state\<close>: the new state gets the size of the vector as its number.\<close>

definition new_state :: "bool \<Rightarrow> NFA \<Rightarrow> nat \<times> NFA" where
  "new_state acc n =
     (length (nstates n),
      n\<lparr>nstates := nstates n @ [\<lparr>nid = length (nstates n), naccept = acc, ntrans = []\<rparr>]\<rparr>)"

text \<open>
  \<open>trans[c].push_back(to)\<close> on the map of a state, and \<open>add_transition\<close>, which
  is undefined behaviour when \<open>from\<close> is no state.
\<close>

fun trans_push :: "char \<Rightarrow> nat \<Rightarrow> (char \<times> nat list) list \<Rightarrow> (char \<times> nat list) list" where
  "trans_push c v [] = [(c, [v])]"
| "trans_push c v ((c', vs) # m) =
     (if c = c' then (c', vs @ [v]) # m else (c', vs) # trans_push c v m)"

definition add_transition :: "nat \<Rightarrow> nat \<Rightarrow> char \<Rightarrow> NFA \<Rightarrow> NFA option" where
  "add_transition from to c n =
     (if from < length (nstates n)
      then Some (n\<lparr>nstates := (nstates n)[from :=
                     (nstates n ! from)\<lparr>ntrans := trans_push c to (ntrans (nstates n ! from))\<rparr>]\<rparr>)
      else None)"

text \<open>
  \<open>buildFragment\<close> threads the automaton under construction; a fragment is the
  pair of its start and its accept state. Reading \<open>node->type\<close> of a null
  pointer is undefined behaviour.
\<close>

fun buildFragment :: "RegexNode \<Rightarrow> NFA \<Rightarrow> ((nat \<times> nat) \<times> NFA) option" where
  "buildFragment Null n = None"
| "buildFragment (CHAR_node ch) n =
     (case new_state False n of (s, n1) \<Rightarrow>
      case new_state False n1 of (a, n2) \<Rightarrow>
      case add_transition s a ch n2 of
        None \<Rightarrow> None
      | Some n3 \<Rightarrow> Some ((s, a), n3))"
| "buildFragment (CONCAT l r) n =
     (case buildFragment l n of
        None \<Rightarrow> None
      | Some ((s1, a1), n1) \<Rightarrow>
         (case buildFragment r n1 of
            None \<Rightarrow> None
          | Some ((s2, a2), n2) \<Rightarrow>
             (case add_transition a1 s2 EPS n2 of
                None \<Rightarrow> None
              | Some n3 \<Rightarrow> Some ((s1, a2), n3))))"
| "buildFragment (UNION l r) n =
     (case new_state False n of (s, n1) \<Rightarrow>
      case new_state False n1 of (a, n2) \<Rightarrow>
      case buildFragment l n2 of
        None \<Rightarrow> None
      | Some ((s1, a1), n3) \<Rightarrow>
         (case buildFragment r n3 of
            None \<Rightarrow> None
          | Some ((s2, a2), n4) \<Rightarrow>
             (case add_transition s s1 EPS n4 of
                None \<Rightarrow> None
              | Some n5 \<Rightarrow>
                 (case add_transition s s2 EPS n5 of
                    None \<Rightarrow> None
                  | Some n6 \<Rightarrow>
                     (case add_transition a1 a EPS n6 of
                        None \<Rightarrow> None
                      | Some n7 \<Rightarrow>
                         (case add_transition a2 a EPS n7 of
                            None \<Rightarrow> None
                          | Some n8 \<Rightarrow> Some ((s, a), n8)))))))"
| "buildFragment (STAR l) n =
     (case new_state False n of (s, n1) \<Rightarrow>
      case new_state False n1 of (a, n2) \<Rightarrow>
      case buildFragment l n2 of
        None \<Rightarrow> None
      | Some ((s1, a1), n3) \<Rightarrow>
         (case add_transition s s1 EPS n3 of
            None \<Rightarrow> None
          | Some n4 \<Rightarrow>
             (case add_transition a1 a EPS n4 of
                None \<Rightarrow> None
              | Some n5 \<Rightarrow>
                 (case add_transition s a EPS n5 of
                    None \<Rightarrow> None
                  | Some n6 \<Rightarrow>
                     (case add_transition a1 s1 EPS n6 of
                        None \<Rightarrow> None
                      | Some n7 \<Rightarrow> Some ((s, a), n7))))))"

text \<open>
  \<open>build\<close>: \<open>nfa = NFA()\<close> value-initialises the automaton; the accept state of
  the fragment is marked and its start state becomes the start state.
\<close>

definition build :: "RegexNode \<Rightarrow> NFA option" where
  "build r =
     (case buildFragment r \<lparr>nstates = [], nstart = 0\<rparr> of
        None \<Rightarrow> None
      | Some ((s, a), n) \<Rightarrow>
          if a < length (nstates n)
          then Some \<lparr>nstates = (nstates n)[a := (nstates n ! a)\<lparr>naccept := True\<rparr>], nstart = s\<rparr>
          else None)"

section \<open>Languages\<close>

subsection \<open>The language of a regular expression\<close>

inductive_set kleene_star :: "string set \<Rightarrow> string set" for L :: "string set" where
  star_Nil: "[] \<in> kleene_star L"
| star_app: "u \<in> L \<Longrightarrow> v \<in> kleene_star L \<Longrightarrow> u @ v \<in> kleene_star L"

fun lang :: "RegexNode \<Rightarrow> string set" where
  "lang Null = {}"
| "lang (CHAR_node c) = {[c]}"
| "lang (CONCAT l r) = {u @ v | u v. u \<in> lang l \<and> v \<in> lang r}"
| "lang (UNION l r) = lang l \<union> lang r"
| "lang (STAR l) = kleene_star (lang l)"

text \<open>
  A well-formed tree has no null pointer in the place of a child that
  \<open>buildFragment\<close> reads, and its characters are 0 and 1, the only ones that the
  parser puts into a \<open>CHAR\<close> node.
\<close>

fun wf_tree :: "RegexNode \<Rightarrow> bool" where
  "wf_tree Null = False"
| "wf_tree (CHAR_node c) = (c = CHR ''0'' \<or> c = CHR ''1'')"
| "wf_tree (CONCAT l r) = (wf_tree l \<and> wf_tree r)"
| "wf_tree (UNION l r) = (wf_tree l \<and> wf_tree r)"
| "wf_tree (STAR l) = wf_tree l"

subsection \<open>The language of an automaton with silent transitions\<close>

text \<open>
  \<open>edge sts u c v\<close>: the state \<open>u\<close> has a transition on \<open>c\<close> to \<open>v\<close>. A path spells
  the characters of its transitions, the silent ones left out. An automaton
  accepts a string when a path that spells it leads from the start state to
  an accepting state.
\<close>

definition edge :: "NFA_State list \<Rightarrow> nat \<Rightarrow> char \<Rightarrow> nat \<Rightarrow> bool" where
  "edge sts u c v = (u < length sts \<and> v \<in> set (targets (sts ! u) c))"

definition lab :: "char \<Rightarrow> string" where
  "lab c = (if c = EPS then [] else [c])"

inductive path :: "(nat \<Rightarrow> char \<Rightarrow> nat \<Rightarrow> bool) \<Rightarrow> nat \<Rightarrow> string \<Rightarrow> nat \<Rightarrow> bool"
  for E :: "nat \<Rightarrow> char \<Rightarrow> nat \<Rightarrow> bool" where
  path_refl: "path E u [] u"
| path_step: "E u c v \<Longrightarrow> path E v w x \<Longrightarrow> path E u (lab c @ w) x"

definition accepts_from_state :: "NFA \<Rightarrow> nat \<Rightarrow> string \<Rightarrow> bool" where
  "accepts_from_state n u w =
     (\<exists>x < length (nstates n). path (edge (nstates n)) u w x \<and> naccept (nstates n ! x))"

definition nfa_accepts :: "NFA \<Rightarrow> string \<Rightarrow> bool" where
  "nfa_accepts n w = accepts_from_state n (nstart n) w"

text \<open>
  The paths to a state \<open>a\<close> that stop when they first arrive there: they take
  no transition out of \<open>a\<close>.
\<close>

inductive tpath :: "(nat \<Rightarrow> char \<Rightarrow> nat \<Rightarrow> bool) \<Rightarrow> nat \<Rightarrow> nat \<Rightarrow> string \<Rightarrow> bool"
  for E :: "nat \<Rightarrow> char \<Rightarrow> nat \<Rightarrow> bool" and a :: nat where
  tpath_base: "tpath E a a []"
| tpath_step: "u \<noteq> a \<Longrightarrow> E u c v \<Longrightarrow> tpath E a v w \<Longrightarrow> tpath E a u (lab c @ w)"

lemma lab_EPS [simp]: "lab EPS = []"
  by (simp add: lab_def)

lemma lab_char: "c \<noteq> EPS \<Longrightarrow> lab c = [c]"
  by (simp add: lab_def)

lemma tpath_self: "tpath E a a w \<longleftrightarrow> w = []"
  by (auto intro: tpath_base elim: tpath.cases)

lemma tpath_eps: "u \<noteq> a \<Longrightarrow> E u EPS v \<Longrightarrow> tpath E a v w \<Longrightarrow> tpath E a u w"
  using tpath_step[of u a E EPS v w] by simp

lemma tpath_first:
  assumes "tpath E a u w" "u \<noteq> a"
  obtains c v w' where "E u c v" "tpath E a v w'" "w = lab c @ w'"
  using assms by (auto elim: tpath.cases)

lemma tpath_path: "tpath E a u w \<Longrightarrow> path E u w a"
  by (induction rule: tpath.induct) (auto intro: path.intros)

lemma path_tpath:
  assumes "path E u w x" "\<forall>c v. \<not> E x c v"
  shows "tpath E x u w"
  using assms
proof (induction rule: path.induct)
  case (path_refl u)
  then show ?case by (simp add: tpath_base)
next
  case (path_step u c v w x)
  then have "u \<noteq> x" by blast
  then show ?case using path_step by (auto intro: tpath_step)
qed

text \<open>
  A set \<open>I\<close> of states that a path can leave only through the state \<open>b\<close>: a path
  from \<open>I\<close> to a state \<open>a\<close> outside goes through \<open>b\<close>, and a path to \<open>b\<close> can be
  continued by a path from \<open>b\<close> to \<open>a\<close>.
\<close>

definition closed_but :: "(nat \<Rightarrow> char \<Rightarrow> nat \<Rightarrow> bool) \<Rightarrow> nat set \<Rightarrow> nat \<Rightarrow> bool" where
  "closed_but E I b = (\<forall>u c v. u \<in> I \<longrightarrow> u \<noteq> b \<longrightarrow> E u c v \<longrightarrow> v \<in> I)"

lemma tpath_split:
  assumes "tpath E a u w" "closed_but E I b" "a \<notin> I" "u \<in> I"
  shows "\<exists>w1 w2. w = w1 @ w2 \<and> tpath E b u w1 \<and> tpath E a b w2"
  using assms
proof (induction rule: tpath.induct)
  case tpath_base
  then show ?case by simp
next
  case (tpath_step u c v w)
  show ?case
  proof (cases "u = b")
    case True
    have "tpath E a b (lab c @ w)"
      using tpath.tpath_step[OF tpath_step.hyps(1,2,3)] True by simp
    then show ?thesis using True tpath_base[of E b] by (metis append_Nil)
  next
    case False
    then have "v \<in> I" using tpath_step.prems(1,3) tpath_step.hyps(2)
      by (auto simp: closed_but_def)
    from tpath_step.IH[OF tpath_step.prems(1,2) this] obtain w1 w2 where
      w: "w = w1 @ w2" "tpath E b v w1" "tpath E a b w2" by blast
    have "tpath E b u (lab c @ w1)"
      by (rule tpath.tpath_step[OF False tpath_step.hyps(2) w(2)])
    then show ?thesis using w(1,3) by (metis append_assoc)
  qed
qed

lemma tpath_join:
  assumes "tpath E b u w1" "closed_but E I b" "a \<notin> I" "u \<in> I" "tpath E a b w2"
  shows "tpath E a u (w1 @ w2)"
  using assms
proof (induction rule: tpath.induct)
  case tpath_base
  then show ?case by simp
next
  case (tpath_step u c v w)
  have "v \<in> I" using tpath_step.prems(1,3) tpath_step.hyps(1,2)
    by (auto simp: closed_but_def)
  from tpath_step.IH[OF tpath_step.prems(1,2) this tpath_step.prems(4)]
  have "tpath E a v (w @ w2)" .
  moreover have "u \<noteq> a" using tpath_step.prems(2,3) by blast
  ultimately show ?case
    using tpath.tpath_step[of u a E c v "w @ w2"] tpath_step.hyps(2) by simp
qed

subsection \<open>The three ways to put fragments together\<close>

text \<open>
  \<open>CONCAT\<close>: the accept state of the first fragment has one transition, a
  silent one to the start state of the second.
\<close>

lemma concat_paths:
  assumes h1: "\<And>w. tpath E a1 s1 w \<longleftrightarrow> w \<in> L1"
    and h2: "\<And>w. tpath E a2 s2 w \<longleftrightarrow> w \<in> L2"
    and cl: "closed_but E I a1" "s1 \<in> I" "a1 \<in> I" "a2 \<notin> I"
    and e: "\<And>c v. E a1 c v \<longleftrightarrow> c = EPS \<and> v = s2"
  shows "tpath E a2 s1 w \<longleftrightarrow> (\<exists>u v. w = u @ v \<and> u \<in> L1 \<and> v \<in> L2)"
proof
  assume "tpath E a2 s1 w"
  from tpath_split[OF this cl(1,4,2)] obtain w1 w2 where
    w: "w = w1 @ w2" "tpath E a1 s1 w1" "tpath E a2 a1 w2" by blast
  have ne: "a1 \<noteq> a2" using cl(3,4) by blast
  from tpath_first[OF w(3) ne] obtain c v w' where
    f: "E a1 c v" "tpath E a2 v w'" "w2 = lab c @ w'" by blast
  then have "tpath E a2 s2 w2" using e by simp
  then show "\<exists>u v. w = u @ v \<and> u \<in> L1 \<and> v \<in> L2" using w(1,2) h1 h2 by blast
next
  assume "\<exists>u v. w = u @ v \<and> u \<in> L1 \<and> v \<in> L2"
  then obtain u v where w: "w = u @ v" "tpath E a1 s1 u" "tpath E a2 s2 v"
    using h1 h2 by blast
  have ne: "a1 \<noteq> a2" using cl(3,4) by blast
  have "E a1 EPS s2" using e by simp
  from tpath_eps[OF ne this w(3)] have "tpath E a2 a1 v" .
  from tpath_join[OF w(2) cl(1,4,2) this] show "tpath E a2 s1 w" using w(1) by simp
qed

text \<open>
  \<open>UNION\<close>: the new start state has silent transitions to the start states of
  both fragments, whose accept states have one silent transition each, to the
  new accept state.
\<close>

lemma branch_paths:
  assumes h: "\<And>w. tpath E a1 s1 w \<longleftrightarrow> w \<in> L"
    and cl: "closed_but E I a1" "s1 \<in> I" "a1 \<in> I" "a \<notin> I"
    and e: "\<And>c v. E a1 c v \<longleftrightarrow> c = EPS \<and> v = a"
  shows "tpath E a s1 w \<longleftrightarrow> w \<in> L"
proof
  assume "tpath E a s1 w"
  from tpath_split[OF this cl(1,4,2)] obtain w1 w2 where
    w: "w = w1 @ w2" "tpath E a1 s1 w1" "tpath E a a1 w2" by blast
  have ne: "a1 \<noteq> a" using cl(3,4) by blast
  from tpath_first[OF w(3) ne] obtain c v w' where
    f: "E a1 c v" "tpath E a v w'" "w2 = lab c @ w'" by blast
  then have "w2 = []" using e tpath_self[of E a w'] by simp
  then show "w \<in> L" using w(1,2) h by simp
next
  assume "w \<in> L"
  then have p: "tpath E a1 s1 w" using h by simp
  have ne: "a1 \<noteq> a" using cl(3,4) by blast
  have "E a1 EPS a" using e by simp
  from tpath_eps[OF ne this tpath_base[of E a]] have "tpath E a a1 []" .
  from tpath_join[OF p cl(1,4,2) this] show "tpath E a s1 w" by simp
qed

lemma union_paths:
  assumes h1: "\<And>w. tpath E a1 s1 w \<longleftrightarrow> w \<in> L1"
    and h2: "\<And>w. tpath E a2 s2 w \<longleftrightarrow> w \<in> L2"
    and c1: "closed_but E I1 a1" "s1 \<in> I1" "a1 \<in> I1" "a \<notin> I1"
    and c2: "closed_but E I2 a2" "s2 \<in> I2" "a2 \<in> I2" "a \<notin> I2"
    and e1: "\<And>c v. E a1 c v \<longleftrightarrow> c = EPS \<and> v = a"
    and e2: "\<And>c v. E a2 c v \<longleftrightarrow> c = EPS \<and> v = a"
    and es: "\<And>c v. E s c v \<longleftrightarrow> c = EPS \<and> (v = s1 \<or> v = s2)"
    and ne: "s \<noteq> a"
  shows "tpath E a s w \<longleftrightarrow> w \<in> L1 \<union> L2"
proof -
  note b1 = branch_paths[of E a1 s1 L1 I1 a, OF h1 c1 e1]
  note b2 = branch_paths[of E a2 s2 L2 I2 a, OF h2 c2 e2]
  show ?thesis
  proof
    assume "tpath E a s w"
    from tpath_first[OF this ne] obtain c v w' where
      f: "E s c v" "tpath E a v w'" "w = lab c @ w'" by blast
    then have "w = w'" "v = s1 \<or> v = s2" using es by simp_all
    then show "w \<in> L1 \<union> L2" using f(2) b1 b2 by auto
  next
    assume "w \<in> L1 \<union> L2"
    then consider "tpath E a s1 w" | "tpath E a s2 w" using b1 b2 by auto
    then show "tpath E a s w"
    proof cases
      case 1
      have "E s EPS s1" using es by simp
      from tpath_eps[OF ne this 1] show ?thesis .
    next
      case 2
      have "E s EPS s2" using es by simp
      from tpath_eps[OF ne this 2] show ?thesis .
    qed
  qed
qed

text \<open>
  \<open>STAR\<close>: the new start state has silent transitions to the start state of
  the fragment and to the new accept state, and the accept state of the
  fragment has silent transitions to the new accept state and back to the
  start state of the fragment.
\<close>

lemma star_paths:
  assumes h: "\<And>w. tpath E a1 s1 w \<longleftrightarrow> w \<in> L"
    and cl: "closed_but E I a1" "s1 \<in> I" "a1 \<in> I" "a \<notin> I"
    and e1: "\<And>c v. E a1 c v \<longleftrightarrow> c = EPS \<and> (v = a \<or> v = s1)"
    and es: "\<And>c v. E s c v \<longleftrightarrow> c = EPS \<and> (v = s1 \<or> v = a)"
    and ne: "s \<noteq> a"
  shows "tpath E a s w \<longleftrightarrow> w \<in> kleene_star L"
proof -
  have ne1: "a1 \<noteq> a" using cl(3,4) by blast
  have fwd: "u \<in> I \<Longrightarrow> \<exists>w1 w2. w = w1 @ w2 \<and> tpath E a1 u w1 \<and> w2 \<in> kleene_star L"
    if "tpath E a u w" for u w
    using that
  proof (induction rule: tpath.induct)
    case tpath_base
    then show ?case using cl(4) by simp
  next
    case (tpath_step u c v w)
    show ?case
    proof (cases "u = a1")
      case True
      then have c: "c = EPS" and v: "v = a \<or> v = s1" using tpath_step.hyps(2) e1 by simp_all
      have "w \<in> kleene_star L"
      proof (cases "v = a")
        case True
        then have "w = []" using tpath_step.hyps(3) tpath_self[of E a w] by simp
        then show ?thesis by (simp add: star_Nil)
      next
        case False
        then have "v = s1" using v by simp
        from tpath_step.IH[unfolded this, OF cl(2)] obtain w1 w2 where
          "w = w1 @ w2" "tpath E a1 s1 w1" "w2 \<in> kleene_star L" by blast
        then show ?thesis using h star_app by auto
      qed
      then show ?thesis using True c tpath_base[of E a1] by (metis append_Nil lab_EPS)
    next
      case False
      then have "v \<in> I" using cl(1) tpath_step.prems tpath_step.hyps(2)
        by (auto simp: closed_but_def)
      from tpath_step.IH[OF this] obtain w1 w2 where
        w: "w = w1 @ w2" "tpath E a1 v w1" "w2 \<in> kleene_star L" by blast
      have "tpath E a1 u (lab c @ w1)"
        by (rule tpath.tpath_step[OF False tpath_step.hyps(2) w(2)])
      then show ?thesis using w(1,3) by (metis append_assoc)
    qed
  qed
  have d1: "w \<in> kleene_star L" if "tpath E a s w"
  proof -
    from tpath_first[OF that ne] obtain c v w' where
      f: "E s c v" "tpath E a v w'" "w = lab c @ w'" by blast
    then have ww: "w = w'" and v: "v = s1 \<or> v = a" using es by simp_all
    show "w \<in> kleene_star L"
    proof (cases "v = a")
      case True
      then have "w' = []" using f(2) tpath_self[of E a w'] by simp
      then show ?thesis using ww by (simp add: star_Nil)
    next
      case False
      then have "v = s1" using v by simp
      from fwd[OF f(2)[unfolded this] cl(2)] obtain w1 w2 where
        "w' = w1 @ w2" "tpath E a1 s1 w1" "w2 \<in> kleene_star L" by blast
      then show ?thesis using h star_app ww by auto
    qed
  qed
  have bwd: "tpath E a a1 w" if "w \<in> kleene_star L" for w
    using that
  proof (induction rule: kleene_star.induct)
    case star_Nil
    have "E a1 EPS a" using e1 by simp
    from tpath_eps[OF ne1 this tpath_base[of E a]] show ?case .
  next
    case (star_app u v)
    have "tpath E a1 s1 u" using star_app.hyps(1) h by simp
    from tpath_join[OF this cl(1,4,2) star_app.IH] have "tpath E a s1 (u @ v)" .
    moreover have "E a1 EPS s1" using e1 by simp
    ultimately show ?case using tpath_eps[OF ne1] by blast
  qed
  have d2: "tpath E a s w" if "w \<in> kleene_star L"
    using that
  proof (cases rule: kleene_star.cases)
      case star_Nil
      have "E s EPS a" using es by simp
      from tpath_eps[OF ne this tpath_base[of E a]] show ?thesis using star_Nil by simp
    next
      case (star_app u v)
      have "tpath E a1 s1 u" using star_app(2) h by simp
      from tpath_join[OF this cl(1,4,2) bwd[OF star_app(3)]] have "tpath E a s1 (u @ v)" .
      moreover have "E s EPS s1" using es by simp
      ultimately show ?thesis using tpath_eps[OF ne] star_app(1) by blast
  qed
  show ?thesis using d1 d2 by blast
qed

section \<open>Thompson builds an automaton for the language of the expression\<close>

subsection \<open>The transitions after new\_state and add\_transition\<close>

lemma edge_less: "edge sts u c v \<Longrightarrow> u < length sts"
  by (simp add: edge_def)

text \<open>
  An automaton is plain when no state accepts and every map of transitions has
  one entry per character, as a \<open>std::map\<close> has.
\<close>

definition plain :: "NFA \<Rightarrow> bool" where
  "plain n = (\<forall>st \<in> set (nstates n). distinct (map fst (ntrans st)) \<and> \<not> naccept st)"

lemma new_state_props:
  assumes "new_state False n = (s, n')"
  shows "s = length (nstates n)" "length (nstates n') = Suc (length (nstates n))"
    "nstart n' = nstart n" "edge (nstates n') = edge (nstates n)" "plain n \<Longrightarrow> plain n'"
proof -
  have n': "n' = n\<lparr>nstates := nstates n @ [\<lparr>nid = length (nstates n), naccept = False, ntrans = []\<rparr>]\<rparr>"
    and s: "s = length (nstates n)"
    using assms by (auto simp: new_state_def)
  show "s = length (nstates n)" by (rule s)
  show "length (nstates n') = Suc (length (nstates n))" "nstart n' = nstart n"
    by (simp_all add: n')
  show "edge (nstates n') = edge (nstates n)"
    by (intro ext) (auto simp: n' edge_def nth_append targets_def)
  show "plain n \<Longrightarrow> plain n'" by (auto simp: n' plain_def)
qed

lemma trans_push_map_of:
  "map_of (trans_push c v m) c' =
     (if c' = c then Some ((case map_of m c of None \<Rightarrow> [] | Some vs \<Rightarrow> vs) @ [v])
      else map_of m c')"
  by (induction c v m rule: trans_push.induct) auto

lemma trans_push_keys:
  "set (map fst (trans_push c v m)) = insert c (set (map fst m))"
  by (induction c v m rule: trans_push.induct) auto

lemma trans_push_distinct:
  "distinct (map fst m) \<Longrightarrow> distinct (map fst (trans_push c v m))"
proof (induction m)
  case Nil
  then show ?case by simp
next
  case (Cons e m)
  obtain c' vs where e: "e = (c', vs)" by (cases e) auto
  show ?case
  proof (cases "c = c'")
    case True
    then show ?thesis using Cons.prems e by simp
  next
    case False
    have "c' \<notin> set (map fst (trans_push c v m))"
      unfolding trans_push_keys using Cons.prems e False by simp
    then show ?thesis using Cons e False by simp
  qed
qed

lemma targets_trans_push:
  "set (targets (st\<lparr>ntrans := trans_push c v (ntrans st)\<rparr>) c') =
     (if c' = c then insert v (set (targets st c)) else set (targets st c'))"
  by (auto simp: targets_def trans_push_map_of split: option.splits)

lemma add_transition_props:
  assumes "f < length (nstates n)"
  shows "\<exists>n'. add_transition f t c n = Some n' \<and>
           length (nstates n') = length (nstates n) \<and> nstart n' = nstart n \<and>
           edge (nstates n') = (\<lambda>u c' v. edge (nstates n) u c' v \<or> (u = f \<and> c' = c \<and> v = t)) \<and>
           (plain n \<longrightarrow> plain n')"
proof -
  let ?st = "(nstates n ! f)\<lparr>ntrans := trans_push c t (ntrans (nstates n ! f))\<rparr>"
  let ?n = "n\<lparr>nstates := (nstates n)[f := ?st]\<rparr>"
  have a: "add_transition f t c n = Some ?n" using assms by (simp add: add_transition_def)
  have e: "edge (nstates ?n) u c' v = (edge (nstates n) u c' v \<or> (u = f \<and> c' = c \<and> v = t))"
    for u c' v
  proof (cases "u = f")
    case True
    then show ?thesis using assms targets_trans_push[where st = "nstates n ! f" and c = c and v = t and c' = c']
      by (auto simp: edge_def)
  next
    case False
    then show ?thesis by (auto simp: edge_def)
  qed
  have p: "plain ?n" if "plain n"
  proof -
    have "distinct (map fst (ntrans ?st)) \<and> \<not> naccept ?st"
      using that assms trans_push_distinct by (simp add: plain_def)
    then show ?thesis using that
      by (auto simp: plain_def dest!: set_update_subset_insert[THEN subsetD])
  qed
  have "edge (nstates ?n) = (\<lambda>u c' v. edge (nstates n) u c' v \<or> (u = f \<and> c' = c \<and> v = t))"
    by (intro ext) (rule e)
  then show ?thesis using a p by simp
qed

subsection \<open>Fragments\<close>

text \<open>
  What a call of \<open>buildFragment\<close> on the automaton \<open>n\<close> leaves, when it returns
  the fragment \<open>(s, a)\<close> and the automaton \<open>n'\<close>: the states of the fragment are
  the new ones; the transitions of the old states are unchanged; every
  transition of a new state leads to a new state and is silent or on 0 or 1;
  the accept state has no transition; and the strings spelled from \<open>s\<close> to the
  first arrival at \<open>a\<close> are the language of the expression, whatever is added to
  \<open>a\<close> or outside the fragment afterwards.
\<close>

definition frag :: "RegexNode \<Rightarrow> NFA \<Rightarrow> NFA \<Rightarrow> nat \<Rightarrow> nat \<Rightarrow> bool" where
  "frag r n n' s a =
     (length (nstates n) \<le> s \<and> s < length (nstates n') \<and>
      length (nstates n) \<le> a \<and> a < length (nstates n') \<and>
      nstart n' = nstart n \<and> (plain n \<longrightarrow> plain n') \<and>
      (\<forall>u c v. u < length (nstates n) \<longrightarrow> edge (nstates n') u c v = edge (nstates n) u c v) \<and>
      (\<forall>u c v. length (nstates n) \<le> u \<longrightarrow> edge (nstates n') u c v \<longrightarrow>
         length (nstates n) \<le> v \<and> v < length (nstates n') \<and>
         (c = EPS \<or> c = CHR ''0'' \<or> c = CHR ''1'')) \<and>
      (\<forall>c v. \<not> edge (nstates n') a c v) \<and>
      (\<forall>E. (\<forall>u c v. length (nstates n) \<le> u \<longrightarrow> u < length (nstates n') \<longrightarrow> u \<noteq> a \<longrightarrow>
                E u c v = edge (nstates n') u c v) \<longrightarrow>
           (\<forall>w. tpath E a s w \<longleftrightarrow> w \<in> lang r)))"

lemma frag_bounds:
  assumes "frag r n n' s a"
  shows "length (nstates n) \<le> s" "s < length (nstates n')"
    "length (nstates n) \<le> a" "a < length (nstates n')" "length (nstates n) \<le> length (nstates n')"
  using assms by (auto simp: frag_def)

lemma frag_start: "frag r n n' s a \<Longrightarrow> nstart n' = nstart n"
  by (simp add: frag_def)

lemma frag_plain: "frag r n n' s a \<Longrightarrow> plain n \<Longrightarrow> plain n'"
  by (simp add: frag_def)

lemma frag_old:
  "frag r n n' s a \<Longrightarrow> u < length (nstates n) \<Longrightarrow>
   edge (nstates n') u c v = edge (nstates n) u c v"
  by (simp add: frag_def)

lemma frag_closed:
  assumes "frag r n n' s a" "length (nstates n) \<le> u" "edge (nstates n') u c v"
  shows "length (nstates n) \<le> v" "v < length (nstates n')"
    "c = EPS \<or> c = CHR ''0'' \<or> c = CHR ''1''"
  using assms unfolding frag_def by blast+

lemma frag_accept: "frag r n n' s a \<Longrightarrow> \<not> edge (nstates n') a c v"
  by (simp add: frag_def)

lemma frag_lang:
  assumes "frag r n n' s a"
    and "\<And>u c v. length (nstates n) \<le> u \<Longrightarrow> u < length (nstates n') \<Longrightarrow> u \<noteq> a \<Longrightarrow>
           E u c v = edge (nstates n') u c v"
  shows "tpath E a s w \<longleftrightarrow> w \<in> lang r"
  using assms unfolding frag_def by blast

lemma char_paths:
  assumes "\<And>c v. E s c v \<longleftrightarrow> c = ch \<and> v = a" "s \<noteq> a" "ch \<noteq> EPS"
  shows "tpath E a s w \<longleftrightarrow> w = [ch]"
proof
  assume "tpath E a s w"
  from tpath_first[OF this assms(2)] obtain c v w' where
    f: "E s c v" "tpath E a v w'" "w = lab c @ w'" by blast
  then have "c = ch" "v = a" using assms(1) by simp_all
  then show "w = [ch]" using f(2,3) tpath_self[of E a w'] assms(3) by (simp add: lab_char)
next
  assume "w = [ch]"
  moreover have "E s ch a" using assms(1) by simp
  ultimately show "tpath E a s w"
    using tpath_step[OF assms(2) _ tpath_base[of E a], of ch] assms(3) by (simp add: lab_char)
qed

lemma frag_char:
  assumes "ch = CHR ''0'' \<or> ch = CHR ''1''"
  shows "\<exists>s a n'. buildFragment (CHAR_node ch) n = Some ((s, a), n') \<and>
           frag (CHAR_node ch) n n' s a"
proof -
  let ?lo = "length (nstates n)"
  obtain s n1 where n1: "new_state False n = (s, n1)" by (cases "new_state False n") auto
  obtain a n2 where n2: "new_state False n1 = (a, n2)" by (cases "new_state False n1") auto
  note p1 = new_state_props[OF n1]
  note p2 = new_state_props[OF n2]
  have s: "s = ?lo" and a: "a = Suc ?lo" and l2: "length (nstates n2) = Suc (Suc ?lo)"
    using p1(1,2) p2(1,2) by simp_all
  have "s < length (nstates n2)" using s l2 by simp
  from add_transition_props[OF this, of a ch] obtain n3 where
    n3: "add_transition s a ch n2 = Some n3" "length (nstates n3) = length (nstates n2)"
      "nstart n3 = nstart n2"
      "edge (nstates n3) = (\<lambda>u c' v. edge (nstates n2) u c' v \<or> (u = s \<and> c' = ch \<and> v = a))"
      "plain n2 \<longrightarrow> plain n3" by blast
  have e: "edge (nstates n3) u c v \<longleftrightarrow> edge (nstates n) u c v \<or> (u = s \<and> c = ch \<and> v = a)"
    for u c v
    using n3(4) p1(4) p2(4) by simp
  have old: "\<not> edge (nstates n) u c v" if "?lo \<le> u" for u c v
    using that edge_less[of "nstates n" u c v] by auto
  have neps: "ch \<noteq> EPS" using assms by (auto simp: EPS_def)
  have b: "buildFragment (CHAR_node ch) n = Some ((s, a), n3)"
    using n1 n2 n3(1) by simp
  have "frag (CHAR_node ch) n n3 s a"
    unfolding frag_def
  proof (intro conjI allI impI)
    show "?lo \<le> s" "s < length (nstates n3)" "?lo \<le> a" "a < length (nstates n3)"
      using s a l2 n3(2) by simp_all
    show "nstart n3 = nstart n" using n3(3) p1(3) p2(3) by simp
    show "plain n3" if "plain n" using that p1(5) p2(5) n3(5) by blast
    show "edge (nstates n3) u c v = edge (nstates n) u c v" if "u < ?lo" for u c v
      using that e s by auto
    show "?lo \<le> v" "v < length (nstates n3)" "c = EPS \<or> c = CHR ''0'' \<or> c = CHR ''1''"
      if "?lo \<le> u" "edge (nstates n3) u c v" for u c v
      using that e old s a l2 n3(2) assms by auto
    show "\<not> edge (nstates n3) a c v" for c v
      using e old[of a] s a by simp
  next
    fix E w
    assume ag: "\<forall>u c v. ?lo \<le> u \<longrightarrow> u < length (nstates n3) \<longrightarrow> u \<noteq> a \<longrightarrow>
                  E u c v = edge (nstates n3) u c v"
    have "E s c v \<longleftrightarrow> c = ch \<and> v = a" for c v
      using ag[rule_format, of s c v] e[of s c v] old[of s c v] s a l2 n3(2) by simp
    from char_paths[of E s ch a w, OF this _ neps]
    show "tpath E a s w \<longleftrightarrow> w \<in> lang (CHAR_node ch)" using s a by simp
  qed
  then show ?thesis using b by blast
qed

lemma frag_concat:
  assumes ih1: "\<And>n. \<exists>s a n'. buildFragment l n = Some ((s, a), n') \<and> frag l n n' s a"
    and ih2: "\<And>n. \<exists>s a n'. buildFragment r n = Some ((s, a), n') \<and> frag r n n' s a"
  shows "\<exists>s a n'. buildFragment (CONCAT l r) n = Some ((s, a), n') \<and>
           frag (CONCAT l r) n n' s a"
proof -
  let ?lo = "length (nstates n)"
  from ih1[of n] obtain s1 a1 n1 where
    b1: "buildFragment l n = Some ((s1, a1), n1)" and f1: "frag l n n1 s1 a1" by blast
  from ih2[of n1] obtain s2 a2 n2 where
    b2: "buildFragment r n1 = Some ((s2, a2), n2)" and f2: "frag r n1 n2 s2 a2" by blast
  note k1 = frag_bounds[OF f1]
  note k2 = frag_bounds[OF f2]
  let ?h1 = "length (nstates n1)"
  let ?h2 = "length (nstates n2)"
  have "a1 < ?h2" using k1(4) k2(5) by simp
  from add_transition_props[OF this, of s2 EPS] obtain n3 where
    n3: "add_transition a1 s2 EPS n2 = Some n3" "length (nstates n3) = ?h2"
      "nstart n3 = nstart n2"
      "edge (nstates n3) = (\<lambda>u c' v. edge (nstates n2) u c' v \<or> (u = a1 \<and> c' = EPS \<and> v = s2))"
      "plain n2 \<longrightarrow> plain n3" by blast
  have e: "edge (nstates n3) u c v \<longleftrightarrow> edge (nstates n2) u c v \<or> (u = a1 \<and> c = EPS \<and> v = s2)"
    for u c v using n3(4) by simp
  have e2: "edge (nstates n2) u c v = edge (nstates n1) u c v" if "u < ?h1" for u c v
    using frag_old[OF f2 that] .
  have e1: "edge (nstates n1) u c v = edge (nstates n) u c v" if "u < ?lo" for u c v
    using frag_old[OF f1 that] .
  have b: "buildFragment (CONCAT l r) n = Some ((s1, a2), n3)"
    using b1 b2 n3(1) by simp
  have "frag (CONCAT l r) n n3 s1 a2"
    unfolding frag_def
  proof (intro conjI allI impI)
    show "?lo \<le> s1" "s1 < length (nstates n3)" "?lo \<le> a2" "a2 < length (nstates n3)"
      using k1 k2 n3(2) by simp_all
    show "nstart n3 = nstart n" using n3(3) frag_start[OF f1] frag_start[OF f2] by simp
    show "plain n3" if "plain n"
      using that frag_plain[OF f1] frag_plain[OF f2] n3(5) by blast
    show "edge (nstates n3) u c v = edge (nstates n) u c v" if "u < ?lo" for u c v
      using that e[of u c v] e2[of u c v] e1[of u c v] k1 by auto
    show "\<not> edge (nstates n3) a2 c v" for c v
      using e[of a2 c v] frag_accept[OF f2, of c v] k1 k2 by auto
  next
    fix u c v assume u: "?lo \<le> u" and ed: "edge (nstates n3) u c v"
    have "?lo \<le> v \<and> v < length (nstates n3) \<and> (c = EPS \<or> c = CHR ''0'' \<or> c = CHR ''1'')"
    proof (cases "edge (nstates n2) u c v")
      case True
      show ?thesis
      proof (cases "u < ?h1")
        case True
        then have "edge (nstates n1) u c v" using \<open>edge (nstates n2) u c v\<close> e2 by simp
        from frag_closed[OF f1 u this] show ?thesis using k2 n3(2) by simp
      next
        case False
        then have "?h1 \<le> u" by simp
        from frag_closed[OF f2 this True] show ?thesis using k1 n3(2) by simp
      qed
    next
      case False
      then have "u = a1" "c = EPS" "v = s2" using ed e by auto
      then show ?thesis using k1 k2 n3(2) by simp
    qed
    then show "?lo \<le> v" "v < length (nstates n3)" "c = EPS \<or> c = CHR ''0'' \<or> c = CHR ''1''"
      by simp_all
  next
    fix E w
    assume ag: "\<forall>u c v. ?lo \<le> u \<longrightarrow> u < length (nstates n3) \<longrightarrow> u \<noteq> a2 \<longrightarrow>
                  E u c v = edge (nstates n3) u c v"
    have ag1: "E u c v = edge (nstates n1) u c v" if "?lo \<le> u" "u < ?h1" "u \<noteq> a1" for u c v
      using ag[rule_format, of u c v] e[of u c v] e2[of u c v] that k2 n3(2) by auto
    have ag2: "E u c v = edge (nstates n2) u c v" if "?h1 \<le> u" "u < ?h2" "u \<noteq> a2" for u c v
      using ag[rule_format, of u c v] e[of u c v] that k1 n3(2) by auto
    have h1: "tpath E a1 s1 w \<longleftrightarrow> w \<in> lang l" for w by (rule frag_lang[OF f1 ag1])
    have h2: "tpath E a2 s2 w \<longleftrightarrow> w \<in> lang r" for w by (rule frag_lang[OF f2 ag2])
    have cl: "closed_but E {?lo..<?h1} a1"
      unfolding closed_but_def
    proof (intro allI impI)
      fix u c v assume "u \<in> {?lo..<?h1}" "u \<noteq> a1" "E u c v"
      then have "edge (nstates n1) u c v" "?lo \<le> u" using ag1[of u c v] by simp_all
      from frag_closed(1,2)[OF f1 this(2,1)] show "v \<in> {?lo..<?h1}" by simp
    qed
    have ea: "E a1 c v \<longleftrightarrow> c = EPS \<and> v = s2" for c v
      using ag[rule_format, of a1 c v] e[of a1 c v] e2[of a1 c v] frag_accept[OF f1, of c v]
        k1 k2 n3(2) by auto
    have "tpath E a2 s1 w \<longleftrightarrow> (\<exists>u v. w = u @ v \<and> u \<in> lang l \<and> v \<in> lang r)"
      by (rule concat_paths[of E a1 s1 "lang l" a2 s2 "lang r" "{?lo..<?h1}", OF h1 h2 cl _ _ _ ea])
        (use k1 k2 in simp_all)
    then show "tpath E a2 s1 w \<longleftrightarrow> w \<in> lang (CONCAT l r)" by auto
  qed
  then show ?thesis using b by blast
qed

lemma two_new_states:
  "\<exists>n1 n2. new_state False n = (length (nstates n), n1) \<and>
           new_state False n1 = (Suc (length (nstates n)), n2) \<and>
           length (nstates n2) = Suc (Suc (length (nstates n))) \<and>
           nstart n2 = nstart n \<and> edge (nstates n2) = edge (nstates n) \<and>
           (plain n \<longrightarrow> plain n2)"
proof -
  obtain s n1 where n1: "new_state False n = (s, n1)" by (cases "new_state False n") auto
  obtain a n2 where n2: "new_state False n1 = (a, n2)" by (cases "new_state False n1") auto
  note p1 = new_state_props[OF n1]
  note p2 = new_state_props[OF n2]
  show ?thesis using n1 n2 p1 p2 by auto
qed

lemma frag_union:
  assumes ih1: "\<And>n. \<exists>s a n'. buildFragment l n = Some ((s, a), n') \<and> frag l n n' s a"
    and ih2: "\<And>n. \<exists>s a n'. buildFragment r n = Some ((s, a), n') \<and> frag r n n' s a"
  shows "\<exists>s a n'. buildFragment (UNION l r) n = Some ((s, a), n') \<and>
           frag (UNION l r) n n' s a"
proof -
  let ?lo = "length (nstates n)"
  let ?s = "?lo"
  let ?a = "Suc ?lo"
  from two_new_states[of n] obtain n1 n2 where
    n1: "new_state False n = (?s, n1)" and n2: "new_state False n1 = (?a, n2)"
    and l2: "length (nstates n2) = Suc (Suc ?lo)" and st2: "nstart n2 = nstart n"
    and ed2: "edge (nstates n2) = edge (nstates n)" and pl2: "plain n \<longrightarrow> plain n2" by blast
  from ih1[of n2] obtain s1 a1 n3 where
    b1: "buildFragment l n2 = Some ((s1, a1), n3)" and f1: "frag l n2 n3 s1 a1" by blast
  from ih2[of n3] obtain s2 a2 n4 where
    b2: "buildFragment r n3 = Some ((s2, a2), n4)" and f2: "frag r n3 n4 s2 a2" by blast
  note k1 = frag_bounds[OF f1]
  note k2 = frag_bounds[OF f2]
  let ?m = "length (nstates n2)"
  let ?h1 = "length (nstates n3)"
  let ?h2 = "length (nstates n4)"
  have "?s < ?h2" using l2 k1(5) k2(5) by simp
  from add_transition_props[OF this, of s1 EPS] obtain n5 where
    n5: "add_transition ?s s1 EPS n4 = Some n5" "length (nstates n5) = ?h2"
      "nstart n5 = nstart n4"
      "edge (nstates n5) = (\<lambda>u c' v. edge (nstates n4) u c' v \<or> (u = ?s \<and> c' = EPS \<and> v = s1))"
      "plain n4 \<longrightarrow> plain n5" by blast
  have "?s < length (nstates n5)" using l2 k1(5) k2(5) n5(2) by simp
  from add_transition_props[OF this, of s2 EPS] obtain n6 where
    n6: "add_transition ?s s2 EPS n5 = Some n6" "length (nstates n6) = length (nstates n5)"
      "nstart n6 = nstart n5"
      "edge (nstates n6) = (\<lambda>u c' v. edge (nstates n5) u c' v \<or> (u = ?s \<and> c' = EPS \<and> v = s2))"
      "plain n5 \<longrightarrow> plain n6" by blast
  have "a1 < length (nstates n6)" using k1(4) k2(5) n5(2) n6(2) by simp
  from add_transition_props[OF this, of ?a EPS] obtain n7 where
    n7: "add_transition a1 ?a EPS n6 = Some n7" "length (nstates n7) = length (nstates n6)"
      "nstart n7 = nstart n6"
      "edge (nstates n7) = (\<lambda>u c' v. edge (nstates n6) u c' v \<or> (u = a1 \<and> c' = EPS \<and> v = ?a))"
      "plain n6 \<longrightarrow> plain n7" by blast
  have "a2 < length (nstates n7)" using k2(4) n5(2) n6(2) n7(2) by simp
  from add_transition_props[OF this, of ?a EPS] obtain n8 where
    n8: "add_transition a2 ?a EPS n7 = Some n8" "length (nstates n8) = length (nstates n7)"
      "nstart n8 = nstart n7"
      "edge (nstates n8) = (\<lambda>u c' v. edge (nstates n7) u c' v \<or> (u = a2 \<and> c' = EPS \<and> v = ?a))"
      "plain n7 \<longrightarrow> plain n8" by blast
  have l8: "length (nstates n8) = ?h2" using n5(2) n6(2) n7(2) n8(2) by simp
  have e: "edge (nstates n8) u c v \<longleftrightarrow>
             edge (nstates n4) u c v \<or> (u = ?s \<and> c = EPS \<and> (v = s1 \<or> v = s2)) \<or>
             ((u = a1 \<or> u = a2) \<and> c = EPS \<and> v = ?a)"
    for u c v using n5(4) n6(4) n7(4) n8(4) by auto
  have e4: "edge (nstates n4) u c v = edge (nstates n3) u c v" if "u < ?h1" for u c v
    using frag_old[OF f2 that] .
  have e3: "edge (nstates n3) u c v = edge (nstates n) u c v" if "u < ?m" for u c v
    using frag_old[OF f1 that] ed2 by simp
  have none: "\<not> edge (nstates n) u c v" if "?lo \<le> u" for u c v
    using that edge_less[of "nstates n" u c v] by auto
  have low: "edge (nstates n4) u c v = edge (nstates n) u c v" if "u < ?m" for u c v
    using e4[of u c v] e3[OF that, of c v] that k1(5) by simp
  have b: "buildFragment (UNION l r) n = Some ((?s, ?a), n8)"
    using n1 n2 b1 b2 n5(1) n6(1) n7(1) n8(1) by simp
  have "frag (UNION l r) n n8 ?s ?a"
    unfolding frag_def
  proof (intro conjI allI impI)
    show "?lo \<le> ?s" "?s < length (nstates n8)" "?lo \<le> ?a" "?a < length (nstates n8)"
      using l2 k1(5) k2(5) l8 by simp_all
    show "nstart n8 = nstart n"
      using n8(3) n7(3) n6(3) n5(3) frag_start[OF f1] frag_start[OF f2] st2 by simp
    show "plain n8" if "plain n"
      using that pl2 frag_plain[OF f1] frag_plain[OF f2] n5(5) n6(5) n7(5) n8(5) by blast
    show "edge (nstates n8) u c v = edge (nstates n) u c v" if "u < ?lo" for u c v
      using that e[of u c v] low[of u c v] l2 k1 k2 by auto
    show "\<not> edge (nstates n8) ?a c v" for c v
      using e[of ?a c v] low[of ?a c v] none[of ?a c v] l2 k1 k2 by auto
  next
    fix u c v assume u: "?lo \<le> u" and ed: "edge (nstates n8) u c v"
    have "?lo \<le> v \<and> v < length (nstates n8) \<and> (c = EPS \<or> c = CHR ''0'' \<or> c = CHR ''1'')"
    proof (cases "edge (nstates n4) u c v")
      case True
      show ?thesis
      proof (cases "u < ?h1")
        case u1: True
        have m: "?m \<le> u" using True low[of u c v] none[OF u, of c v] by force
        have "edge (nstates n3) u c v" using True e4[OF u1] by simp
        from frag_closed[OF f1 m this] show ?thesis using k2 l2 l8 by simp
      next
        case False
        then have "?h1 \<le> u" by simp
        from frag_closed[OF f2 this True] show ?thesis using k1 l2 l8 by simp
      qed
    next
      case False
      then have "c = EPS" "v = s1 \<or> v = s2 \<or> v = ?a" using ed e by auto
      then show ?thesis using k1 k2 l2 l8 by auto
    qed
    then show "?lo \<le> v" "v < length (nstates n8)" "c = EPS \<or> c = CHR ''0'' \<or> c = CHR ''1''"
      by simp_all
  next
    fix E w
    assume ag: "\<forall>u c v. ?lo \<le> u \<longrightarrow> u < length (nstates n8) \<longrightarrow> u \<noteq> ?a \<longrightarrow>
                  E u c v = edge (nstates n8) u c v"
    have ag1: "E u c v = edge (nstates n3) u c v" if "?m \<le> u" "u < ?h1" "u \<noteq> a1" for u c v
      using ag[rule_format, of u c v] e[of u c v] e4[of u c v] that k1 k2 l2 l8 by auto
    have ag2: "E u c v = edge (nstates n4) u c v" if "?h1 \<le> u" "u < ?h2" "u \<noteq> a2" for u c v
      using ag[rule_format, of u c v] e[of u c v] that k1 k2 l2 l8 by auto
    have h1: "tpath E a1 s1 w \<longleftrightarrow> w \<in> lang l" for w by (rule frag_lang[OF f1 ag1])
    have h2: "tpath E a2 s2 w \<longleftrightarrow> w \<in> lang r" for w by (rule frag_lang[OF f2 ag2])
    have c1: "closed_but E {?m..<?h1} a1"
      unfolding closed_but_def
    proof (intro allI impI)
      fix u c v assume "u \<in> {?m..<?h1}" "u \<noteq> a1" "E u c v"
      then have "edge (nstates n3) u c v" "?m \<le> u" using ag1[of u c v] by simp_all
      from frag_closed(1,2)[OF f1 this(2,1)] show "v \<in> {?m..<?h1}" by simp
    qed
    have c2: "closed_but E {?h1..<?h2} a2"
      unfolding closed_but_def
    proof (intro allI impI)
      fix u c v assume "u \<in> {?h1..<?h2}" "u \<noteq> a2" "E u c v"
      then have "edge (nstates n4) u c v" "?h1 \<le> u" using ag2[of u c v] by simp_all
      from frag_closed(1,2)[OF f2 this(2,1)] show "v \<in> {?h1..<?h2}" by simp
    qed
    have e1: "E a1 c v \<longleftrightarrow> c = EPS \<and> v = ?a" for c v
      using ag[rule_format, of a1 c v] e[of a1 c v] e4[of a1 c v] frag_accept[OF f1, of c v]
        k1 k2 l2 l8 by auto
    have e2: "E a2 c v \<longleftrightarrow> c = EPS \<and> v = ?a" for c v
      using ag[rule_format, of a2 c v] e[of a2 c v] frag_accept[OF f2, of c v]
        k1 k2 l2 l8 by auto
    have es: "E ?s c v \<longleftrightarrow> c = EPS \<and> (v = s1 \<or> v = s2)" for c v
      using ag[rule_format, of ?s c v] e[of ?s c v] low[of ?s c v] none[of ?s c v]
        k1 k2 l2 l8 by auto
    have "tpath E ?a ?s w \<longleftrightarrow> w \<in> lang l \<union> lang r"
      by (rule union_paths[of E a1 s1 "lang l" a2 s2 "lang r" "{?m..<?h1}" ?a "{?h1..<?h2}" ?s,
            OF h1 h2 c1 _ _ _ c2 _ _ _ e1 e2 es])
        (use k1 k2 l2 in simp_all)
    then show "tpath E ?a ?s w \<longleftrightarrow> w \<in> lang (UNION l r)" by simp
  qed
  then show ?thesis using b by blast
qed

lemma frag_star:
  assumes ih: "\<And>n. \<exists>s a n'. buildFragment l n = Some ((s, a), n') \<and> frag l n n' s a"
  shows "\<exists>s a n'. buildFragment (STAR l) n = Some ((s, a), n') \<and> frag (STAR l) n n' s a"
proof -
  let ?lo = "length (nstates n)"
  let ?s = "?lo"
  let ?a = "Suc ?lo"
  from two_new_states[of n] obtain n1 n2 where
    n1: "new_state False n = (?s, n1)" and n2: "new_state False n1 = (?a, n2)"
    and l2: "length (nstates n2) = Suc (Suc ?lo)" and st2: "nstart n2 = nstart n"
    and ed2: "edge (nstates n2) = edge (nstates n)" and pl2: "plain n \<longrightarrow> plain n2" by blast
  from ih[of n2] obtain s1 a1 n3 where
    b1: "buildFragment l n2 = Some ((s1, a1), n3)" and f1: "frag l n2 n3 s1 a1" by blast
  note k1 = frag_bounds[OF f1]
  let ?m = "length (nstates n2)"
  let ?h = "length (nstates n3)"
  have "?s < ?h" using l2 k1(5) by simp
  from add_transition_props[OF this, of s1 EPS] obtain n4 where
    n4: "add_transition ?s s1 EPS n3 = Some n4" "length (nstates n4) = ?h"
      "nstart n4 = nstart n3"
      "edge (nstates n4) = (\<lambda>u c' v. edge (nstates n3) u c' v \<or> (u = ?s \<and> c' = EPS \<and> v = s1))"
      "plain n3 \<longrightarrow> plain n4" by blast
  have "a1 < length (nstates n4)" using k1(4) n4(2) by simp
  from add_transition_props[OF this, of ?a EPS] obtain n5 where
    n5: "add_transition a1 ?a EPS n4 = Some n5" "length (nstates n5) = length (nstates n4)"
      "nstart n5 = nstart n4"
      "edge (nstates n5) = (\<lambda>u c' v. edge (nstates n4) u c' v \<or> (u = a1 \<and> c' = EPS \<and> v = ?a))"
      "plain n4 \<longrightarrow> plain n5" by blast
  have "?s < length (nstates n5)" using l2 k1(5) n4(2) n5(2) by simp
  from add_transition_props[OF this, of ?a EPS] obtain n6 where
    n6: "add_transition ?s ?a EPS n5 = Some n6" "length (nstates n6) = length (nstates n5)"
      "nstart n6 = nstart n5"
      "edge (nstates n6) = (\<lambda>u c' v. edge (nstates n5) u c' v \<or> (u = ?s \<and> c' = EPS \<and> v = ?a))"
      "plain n5 \<longrightarrow> plain n6" by blast
  have "a1 < length (nstates n6)" using k1(4) n4(2) n5(2) n6(2) by simp
  from add_transition_props[OF this, of s1 EPS] obtain n7 where
    n7: "add_transition a1 s1 EPS n6 = Some n7" "length (nstates n7) = length (nstates n6)"
      "nstart n7 = nstart n6"
      "edge (nstates n7) = (\<lambda>u c' v. edge (nstates n6) u c' v \<or> (u = a1 \<and> c' = EPS \<and> v = s1))"
      "plain n6 \<longrightarrow> plain n7" by blast
  have l7: "length (nstates n7) = ?h" using n4(2) n5(2) n6(2) n7(2) by simp
  have e: "edge (nstates n7) u c v \<longleftrightarrow>
             edge (nstates n3) u c v \<or> (u = ?s \<and> c = EPS \<and> (v = s1 \<or> v = ?a)) \<or>
             (u = a1 \<and> c = EPS \<and> (v = ?a \<or> v = s1))"
    for u c v using n4(4) n5(4) n6(4) n7(4) by auto
  have none: "\<not> edge (nstates n) u c v" if "?lo \<le> u" for u c v
    using that edge_less[of "nstates n" u c v] by auto
  have low: "edge (nstates n3) u c v = edge (nstates n) u c v" if "u < ?m" for u c v
    using frag_old[OF f1 that] ed2 by simp
  have b: "buildFragment (STAR l) n = Some ((?s, ?a), n7)"
    using n1 n2 b1 n4(1) n5(1) n6(1) n7(1) by simp
  have "frag (STAR l) n n7 ?s ?a"
    unfolding frag_def
  proof (intro conjI allI impI)
    show "?lo \<le> ?s" "?s < length (nstates n7)" "?lo \<le> ?a" "?a < length (nstates n7)"
      using l2 k1(5) l7 by simp_all
    show "nstart n7 = nstart n"
      using n7(3) n6(3) n5(3) n4(3) frag_start[OF f1] st2 by simp
    show "plain n7" if "plain n"
      using that pl2 frag_plain[OF f1] n4(5) n5(5) n6(5) n7(5) by blast
    show "edge (nstates n7) u c v = edge (nstates n) u c v" if "u < ?lo" for u c v
      using that e[of u c v] low[of u c v] l2 k1 by auto
    show "\<not> edge (nstates n7) ?a c v" for c v
      using e[of ?a c v] low[of ?a c v] none[of ?a c v] l2 k1 by auto
  next
    fix u c v assume u: "?lo \<le> u" and ed: "edge (nstates n7) u c v"
    have "?lo \<le> v \<and> v < length (nstates n7) \<and> (c = EPS \<or> c = CHR ''0'' \<or> c = CHR ''1'')"
    proof (cases "edge (nstates n3) u c v")
      case True
      have m: "?m \<le> u" using True low[of u c v] none[OF u, of c v] by force
      from frag_closed[OF f1 m True] show ?thesis using l2 l7 by simp
    next
      case False
      then have "c = EPS" "v = s1 \<or> v = ?a" using ed e by auto
      then show ?thesis using k1 l2 l7 by auto
    qed
    then show "?lo \<le> v" "v < length (nstates n7)" "c = EPS \<or> c = CHR ''0'' \<or> c = CHR ''1''"
      by simp_all
  next
    fix E w
    assume ag: "\<forall>u c v. ?lo \<le> u \<longrightarrow> u < length (nstates n7) \<longrightarrow> u \<noteq> ?a \<longrightarrow>
                  E u c v = edge (nstates n7) u c v"
    have ag1: "E u c v = edge (nstates n3) u c v" if "?m \<le> u" "u < ?h" "u \<noteq> a1" for u c v
      using ag[rule_format, of u c v] e[of u c v] that k1 l2 l7 by auto
    have h1: "tpath E a1 s1 w \<longleftrightarrow> w \<in> lang l" for w by (rule frag_lang[OF f1 ag1])
    have c1: "closed_but E {?m..<?h} a1"
      unfolding closed_but_def
    proof (intro allI impI)
      fix u c v assume "u \<in> {?m..<?h}" "u \<noteq> a1" "E u c v"
      then have "edge (nstates n3) u c v" "?m \<le> u" using ag1[of u c v] by simp_all
      from frag_closed(1,2)[OF f1 this(2,1)] show "v \<in> {?m..<?h}" by simp
    qed
    have e1: "E a1 c v \<longleftrightarrow> c = EPS \<and> (v = ?a \<or> v = s1)" for c v
      using ag[rule_format, of a1 c v] e[of a1 c v] frag_accept[OF f1, of c v]
        k1 l2 l7 by auto
    have es: "E ?s c v \<longleftrightarrow> c = EPS \<and> (v = s1 \<or> v = ?a)" for c v
      using ag[rule_format, of ?s c v] e[of ?s c v] low[of ?s c v] none[of ?s c v]
        k1 l2 l7 by auto
    have "tpath E ?a ?s w \<longleftrightarrow> w \<in> kleene_star (lang l)"
      by (rule star_paths[of E a1 s1 "lang l" "{?m..<?h}" ?a ?s, OF h1 c1 _ _ _ e1 es])
        (use k1 l2 in simp_all)
    then show "tpath E ?a ?s w \<longleftrightarrow> w \<in> lang (STAR l)" by simp
  qed
  then show ?thesis using b by blast
qed

lemma buildFragment_frag:
  "wf_tree r \<Longrightarrow> \<exists>s a n'. buildFragment r n = Some ((s, a), n') \<and> frag r n n' s a"
proof (induction r arbitrary: n)
  case Null
  then show ?case by simp
next
  case (CHAR_node c)
  then show ?case using frag_char[of c n] by simp
next
  case (CONCAT l r)
  show ?case by (rule frag_concat) (use CONCAT in simp_all)
next
  case (UNION l r)
  show ?case by (rule frag_union) (use UNION in simp_all)
next
  case (STAR l)
  show ?case by (rule frag_star) (use STAR in simp_all)
qed

subsection \<open>build\<close>

text \<open>
  The automaton that \<open>build\<close> returns for a well-formed tree is well-formed, its
  transitions are silent or on 0 or 1, and it accepts the language of the
  tree.
\<close>

definition binary :: "NFA \<Rightarrow> bool" where
  "binary n = (\<forall>u c v. edge (nstates n) u c v \<longrightarrow> c = EPS \<or> c = CHR ''0'' \<or> c = CHR ''1'')"

lemma wf_nfa_edge:
  assumes "\<forall>st \<in> set (nstates n). distinct (map fst (ntrans st))"
    and "\<forall>u c v. edge (nstates n) u c v \<longrightarrow> v < length (nstates n)"
  shows "wf_nfa n"
  unfolding wf_nfa_def
proof (intro ballI conjI)
  fix st assume st: "st \<in> set (nstates n)"
  show "distinct (map fst (ntrans st))" using assms(1) st by simp
  fix e v assume e: "e \<in> set (ntrans st)" and v: "v \<in> set (snd e)"
  obtain u where u: "u < length (nstates n)" "nstates n ! u = st"
    using st by (auto simp: in_set_conv_nth)
  have "map_of (ntrans st) (fst e) = Some (snd e)"
    using assms(1) st e by (metis map_of_is_SomeI prod.collapse)
  then have "edge (nstates n) u (fst e) v" using u v by (simp add: edge_def targets_def)
  then show "v < length (nstates n)" using assms(2) by blast
qed

lemma build_correct:
  assumes "wf_tree r"
  shows "\<exists>nfa. build r = Some nfa \<and> wf_nfa nfa \<and> nstart nfa < length (nstates nfa) \<and>
           binary nfa \<and> (\<forall>w. nfa_accepts nfa w \<longleftrightarrow> w \<in> lang r)"
proof -
  let ?n0 = "\<lparr>nstates = [], nstart = 0\<rparr>"
  from buildFragment_frag[OF assms, of ?n0] obtain s a n where
    b: "buildFragment r ?n0 = Some ((s, a), n)" and f: "frag r ?n0 n s a" by blast
  note k = frag_bounds[OF f]
  let ?sts = "(nstates n)[a := (nstates n ! a)\<lparr>naccept := True\<rparr>]"
  let ?nfa = "\<lparr>nstates = ?sts, nstart = s\<rparr>"
  have bd: "build r = Some ?nfa" using b k(4) by (simp add: build_def)
  have pl: "plain n" using frag_plain[OF f] by (simp add: plain_def)
  have ed: "edge ?sts = edge (nstates n)"
  proof (intro ext)
    fix u c v
    show "edge ?sts u c v = edge (nstates n) u c v"
      by (cases "u = a") (auto simp: edge_def targets_def)
  qed
  have cl: "v < length (nstates n) \<and> (c = EPS \<or> c = CHR ''0'' \<or> c = CHR ''1'')"
    if "edge (nstates n) u c v" for u c v
    using frag_closed[OF f _ that] by simp
  have d: "\<forall>st \<in> set ?sts. distinct (map fst (ntrans st))"
  proof
    fix st assume "st \<in> set ?sts"
    then have "st = (nstates n ! a)\<lparr>naccept := True\<rparr> \<or> st \<in> set (nstates n)"
      using set_update_subset_insert[of "nstates n" a] by auto
    then show "distinct (map fst (ntrans st))" using pl k(4) by (auto simp: plain_def)
  qed
  have wf: "wf_nfa ?nfa"
    by (rule wf_nfa_edge) (use d ed cl in auto)
  have bin: "binary ?nfa" using ed cl by (auto simp: binary_def)
  have acc: "naccept (?sts ! x) \<longleftrightarrow> x = a" if "x < length (nstates n)" for x
    using that pl k(4) by (cases "x = a") (auto simp: plain_def)
  have lang: "nfa_accepts ?nfa w \<longleftrightarrow> w \<in> lang r" for w
  proof -
    have "nfa_accepts ?nfa w \<longleftrightarrow> path (edge (nstates n)) s w a"
      using acc k(4) ed by (auto simp: nfa_accepts_def accepts_from_state_def)
    also have "\<dots> \<longleftrightarrow> tpath (edge (nstates n)) a s w"
      using path_tpath[of "edge (nstates n)" s w a] tpath_path[of "edge (nstates n)" a s w]
        frag_accept[OF f] by blast
    also have "\<dots> \<longleftrightarrow> w \<in> lang r" by (rule frag_lang[OF f]) simp
    finally show ?thesis .
  qed
  show ?thesis using bd wf bin lang k(2) by auto
qed

section \<open>The pipeline keeps the language\<close>

subsection \<open>Paths and silent closures\<close>

lemma path_append:
  "path E u w1 v \<Longrightarrow> path E v w2 x \<Longrightarrow> path E u (w1 @ w2) x"
proof (induction rule: path.induct)
  case (path_refl u)
  then show ?case by simp
next
  case (path_step u c v w x')
  then show ?case using path.path_step[of E u c v "w @ w2" x] by simp
qed

lemma eps_step_edge: "(u, v) \<in> eps_step n \<longleftrightarrow> edge (nstates n) u EPS v"
  by (simp add: eps_step_def edge_def)

lemma lab_Nil: "lab c = [] \<longleftrightarrow> c = EPS"
  by (simp add: lab_def)

lemma path_Nil_closure:
  "path (edge (nstates n)) u [] v \<longleftrightarrow> v \<in> eps_closure n u"
proof
  have "path (edge (nstates n)) u w v \<Longrightarrow> w = [] \<Longrightarrow> (u, v) \<in> (eps_step n)\<^sup>*" for w
  proof (induction rule: path.induct)
    case (path_refl u)
    then show ?case by simp
  next
    case (path_step u c v w x)
    then have "c = EPS" "w = []" by (simp_all add: lab_Nil)
    then have "(u, v) \<in> eps_step n" "(v, x) \<in> (eps_step n)\<^sup>*"
      using path_step by (simp_all add: eps_step_edge)
    then show ?case by (rule converse_rtrancl_into_rtrancl)
  qed
  then show "path (edge (nstates n)) u [] v \<Longrightarrow> v \<in> eps_closure n u"
    by (simp add: eps_closure_def)
next
  assume "v \<in> eps_closure n u"
  then have "(u, v) \<in> (eps_step n)\<^sup>*" by (simp add: eps_closure_def)
  then show "path (edge (nstates n)) u [] v"
  proof (induction rule: converse_rtrancl_induct)
    case base
    then show ?case by (rule path_refl)
  next
    case (step y z)
    then have "edge (nstates n) y EPS z" by (simp add: eps_step_edge)
    from path_step[OF this step.IH] show ?case by simp
  qed
qed

lemma path_Cons:
  "path E u (c # w) x \<longleftrightarrow>
     c \<noteq> EPS \<and> (\<exists>u' v. path E u [] u' \<and> E u' c v \<and> path E v w x)"
proof
  have "path E u w0 x \<Longrightarrow> w0 = c # w \<Longrightarrow>
          c \<noteq> EPS \<and> (\<exists>u' v. path E u [] u' \<and> E u' c v \<and> path E v w x)" for w0
  proof (induction rule: path.induct)
    case (path_refl u)
    then show ?case by simp
  next
    case (path_step u c' v w' x)
    show ?case
    proof (cases "c' = EPS")
      case True
      then have "w' = c # w" using path_step.prems by simp
      from path_step.IH[OF this] obtain u' v' where
        r: "c \<noteq> EPS" "path E v [] u'" "E u' c v'" "path E v' w x" by blast
      have "path E u [] u'" using path.path_step[OF path_step.hyps(1) r(2)] True by simp
      then show ?thesis using r by blast
    next
      case False
      then have "c' = c" "w' = w" using path_step.prems by (simp_all add: lab_char)
      then show ?thesis using False path_step.hyps path_refl[of E u] by blast
    qed
  qed
  then show "path E u (c # w) x \<Longrightarrow>
          c \<noteq> EPS \<and> (\<exists>u' v. path E u [] u' \<and> E u' c v \<and> path E v w x)" by simp
next
  assume "c \<noteq> EPS \<and> (\<exists>u' v. path E u [] u' \<and> E u' c v \<and> path E v w x)"
  then obtain u' v where r: "c \<noteq> EPS" "path E u [] u'" "E u' c v" "path E v w x" by blast
  have "path E u' (c # w) x" using path_step[OF r(3,4)] r(1) by (simp add: lab_char)
  from path_append[OF r(2) this] show "path E u (c # w) x" by simp
qed

lemma accepts_from_state_Nil:
  "accepts_from_state n u [] \<longleftrightarrow>
     (\<exists>x \<in> eps_closure n u. x < length (nstates n) \<and> naccept (nstates n ! x))"
  by (auto simp: accepts_from_state_def path_Nil_closure)

lemma accepts_from_state_Cons:
  "accepts_from_state n u (c # w) \<longleftrightarrow>
     c \<noteq> EPS \<and> (\<exists>u' \<in> eps_closure n u. \<exists>v. edge (nstates n) u' c v \<and> accepts_from_state n v w)"
  unfolding accepts_from_state_def path_Cons path_Nil_closure by blast

lemma accepts_from_state_closure:
  "(\<exists>v \<in> eps_closure n x. accepts_from_state n v w) \<longleftrightarrow> accepts_from_state n x w"
proof
  assume "\<exists>v \<in> eps_closure n x. accepts_from_state n v w"
  then obtain v y where "path (edge (nstates n)) x [] v" "y < length (nstates n)"
    "path (edge (nstates n)) v w y" "naccept (nstates n ! y)"
    by (auto simp: accepts_from_state_def path_Nil_closure)
  then show "accepts_from_state n x w"
    using path_append[of "edge (nstates n)" x "[]" v w y] by (auto simp: accepts_from_state_def)
next
  assume "accepts_from_state n x w"
  moreover have "x \<in> eps_closure n x" by (simp add: eps_closure_def)
  ultimately show "\<exists>v \<in> eps_closure n x. accepts_from_state n v w" by blast
qed

lemma eps_closure_range:
  assumes "wf_nfa n" "i < length (nstates n)" "u \<in> eps_closure n i"
  shows "u < length (nstates n)"
proof -
  have "(i, u) \<in> (eps_step n)\<^sup>*" using assms(3) by (simp add: eps_closure_def)
  then show ?thesis
  proof (induction rule: rtrancl_induct)
    case base
    then show ?case using assms(2) .
  next
    case (step y z)
    then show ?case using wf_targets[OF assms(1)] by (auto simp: eps_step_def)
  qed
qed

subsection \<open>remove keeps the language\<close>

text \<open>
  An automaton without silent transitions whose transitions are on 0 or 1.
\<close>

definition plain01 :: "NFA \<Rightarrow> bool" where
  "plain01 n = (\<forall>u c v. edge (nstates n) u c v \<longrightarrow> c = CHR ''0'' \<or> c = CHR ''1'')"

lemma plain01_no_eps: "plain01 n \<Longrightarrow> eps_closure n u = {u}"
proof -
  assume p: "plain01 n"
  have "eps_step n = {}"
  proof -
    have "EPS \<noteq> CHR ''0''" "EPS \<noteq> CHR ''1''" by (simp_all add: EPS_def)
    then have "\<not> edge (nstates n) x EPS y" for x y
      using p unfolding plain01_def by blast
    then show ?thesis by (auto simp: eps_step_edge)
  qed
  then show ?thesis by (simp add: eps_closure_def)
qed

lemma remove_lang:
  assumes "wf_nfa infa" "binary infa" "nstart infa < length (nstates infa)"
  shows "\<exists>onfa. remove infa = Some onfa \<and> wf_nfa onfa \<and> plain01 onfa \<and>
           nstart onfa < length (nstates onfa) \<and>
           (\<forall>w. nfa_accepts onfa w \<longleftrightarrow> nfa_accepts infa w)"
proof -
  let ?N = "length (nstates infa)"
  from remove_props[OF assms(1)] obtain onfa where
    o: "remove infa = Some onfa" "length (nstates onfa) = ?N" "nstart onfa = nstart infa"
    and a: "\<forall>i < ?N.
              (naccept (nstates onfa ! i) \<longleftrightarrow>
                 (\<exists>u \<in> eps_closure infa i. naccept (nstates infa ! u))) \<and>
              (\<forall>c. c \<noteq> EPS \<longrightarrow>
                 set (targets (nstates onfa ! i) c) =
                   (\<Union>u \<in> eps_closure infa i.
                      \<Union>w \<in> set (targets (nstates infa ! u) c). eps_closure infa w)) \<and>
              map_of (ntrans (nstates onfa ! i)) EPS = None \<and>
              distinct (map fst (ntrans (nstates onfa ! i)))"
    by blast
  have rng: "u < ?N" if "i < ?N" "u \<in> eps_closure infa i" for i u
    using eps_closure_range[OF assms(1) that] .
  have ed: "edge (nstates onfa) i c v \<longleftrightarrow>
              c \<noteq> EPS \<and> (\<exists>u \<in> eps_closure infa i. \<exists>x. edge (nstates infa) u c x \<and>
                             v \<in> eps_closure infa x)"
    if "i < ?N" for i c v
  proof (cases "c = EPS")
    case True
    have "targets (nstates onfa ! i) EPS = []" using a that by (simp add: targets_def)
    then show ?thesis using True by (simp add: edge_def)
  next
    case False
    have "set (targets (nstates onfa ! i) c) =
            (\<Union>u \<in> eps_closure infa i.
               \<Union>w \<in> set (targets (nstates infa ! u) c). eps_closure infa w)"
      using a that False by blast
    then show ?thesis using False that o(2) rng[OF that] by (auto simp: edge_def)
  qed
  have edr: "v < ?N" if "edge (nstates onfa) i c v" for i c v
  proof -
    have i: "i < ?N" using that o(2) by (simp add: edge_def)
    from that ed[OF i] obtain u x where
      "u \<in> eps_closure infa i" "edge (nstates infa) u c x" "v \<in> eps_closure infa x" by blast
    then have "x < ?N" using wf_targets[OF assms(1)] by (auto simp: edge_def)
    then show ?thesis using rng \<open>v \<in> eps_closure infa x\<close> by blast
  qed
  have wf: "wf_nfa onfa"
  proof (rule wf_nfa_edge)
    show "\<forall>st \<in> set (nstates onfa). distinct (map fst (ntrans st))"
      using a o(2) by (auto simp: in_set_conv_nth)
    show "\<forall>u c v. edge (nstates onfa) u c v \<longrightarrow> v < length (nstates onfa)"
      using edr o(2) by auto
  qed
  have p01: "plain01 onfa"
    unfolding plain01_def
  proof (intro allI impI)
    fix i c v assume e: "edge (nstates onfa) i c v"
    then have i: "i < ?N" using o(2) by (simp add: edge_def)
    from e ed[OF i] obtain u x where "c \<noteq> EPS" "edge (nstates infa) u c x" by blast
    then show "c = CHR ''0'' \<or> c = CHR ''1''" using assms(2) by (auto simp: binary_def)
  qed
  have acc: "accepts_from_state onfa i w \<longleftrightarrow> accepts_from_state infa i w" if "i < ?N" for i w
    using that
  proof (induction w arbitrary: i)
    case Nil
    have "accepts_from_state onfa i [] \<longleftrightarrow> naccept (nstates onfa ! i)"
      using Nil o(2) by (simp add: accepts_from_state_Nil plain01_no_eps[OF p01])
    also have "\<dots> \<longleftrightarrow> (\<exists>u \<in> eps_closure infa i. naccept (nstates infa ! u))"
      using a Nil by blast
    also have "\<dots> \<longleftrightarrow> accepts_from_state infa i []"
      using rng[OF Nil] by (auto simp: accepts_from_state_Nil)
    finally show ?case .
  next
    case (Cons c w)
    have "accepts_from_state onfa i (c # w) \<longleftrightarrow>
            c \<noteq> EPS \<and> (\<exists>v. edge (nstates onfa) i c v \<and> accepts_from_state onfa v w)"
      by (simp add: accepts_from_state_Cons plain01_no_eps[OF p01])
    also have "\<dots> \<longleftrightarrow> c \<noteq> EPS \<and> (\<exists>v. edge (nstates onfa) i c v \<and> accepts_from_state infa v w)"
    proof -
      have "accepts_from_state onfa v w = accepts_from_state infa v w"
        if "edge (nstates onfa) i c v" for v
        using Cons.IH[OF edr[OF that]] .
      then show ?thesis by blast
    qed
    also have "\<dots> \<longleftrightarrow> c \<noteq> EPS \<and>
        (\<exists>u \<in> eps_closure infa i. \<exists>x. edge (nstates infa) u c x \<and>
           (\<exists>v \<in> eps_closure infa x. accepts_from_state infa v w))"
    proof -
      have "edge (nstates onfa) i c v \<longleftrightarrow>
              c \<noteq> EPS \<and> (\<exists>u \<in> eps_closure infa i. \<exists>x. edge (nstates infa) u c x \<and>
                             v \<in> eps_closure infa x)" for v
        by (rule ed[OF Cons.prems])
      then show ?thesis by blast
    qed
    also have "\<dots> \<longleftrightarrow> c \<noteq> EPS \<and>
        (\<exists>u \<in> eps_closure infa i. \<exists>x. edge (nstates infa) u c x \<and>
           accepts_from_state infa x w)"
      by (simp only: accepts_from_state_closure)
    also have "\<dots> \<longleftrightarrow> accepts_from_state infa i (c # w)"
      by (simp only: accepts_from_state_Cons)
    finally show ?case .
  qed
  have "nfa_accepts onfa w \<longleftrightarrow> nfa_accepts infa w" for w
    using acc[OF assms(3)] o(3) by (simp add: nfa_accepts_def)
  then have "\<forall>w. nfa_accepts onfa w \<longleftrightarrow> nfa_accepts infa w" by blast
  moreover have "nstart onfa < length (nstates onfa)" using o(2,3) assms(3) by simp
  ultimately show ?thesis using o(1) wf p01 by blast
qed

subsection \<open>convert keeps the language\<close>

lemma subset_dfa_lang:
  assumes "subset_dfa n dfa sets" "plain01 n"
  shows "k < length sets \<Longrightarrow>
         accepts_from dfa (int k) w \<longleftrightarrow> (\<exists>s \<in> set (sets ! k). accepts_from_state n s w)"
proof (induction w arbitrary: k)
  case Nil
  from assms(1) Nil have len: "length (states dfa) = length sets"
    and acc: "accept (states dfa ! k) \<longleftrightarrow> (\<exists>x \<in> set (sets ! k). naccept (nstates n ! x))"
    and good: "good_set n (sets ! k)"
    unfolding subset_dfa_def by (blast, blast, simp)
  have "accepts_from dfa (int k) [] \<longleftrightarrow> accept (states dfa ! k)"
    using Nil len by (simp add: accepts_from_Nil in_range_def)
  also have "\<dots> \<longleftrightarrow> (\<exists>s \<in> set (sets ! k). accepts_from_state n s [])"
    using acc good by (auto simp: accepts_from_state_Nil plain01_no_eps[OF assms(2)] good_set_def)
  finally show ?case .
next
  case (Cons c w)
  from assms(1) Cons.prems have len: "length (states dfa) = length sets"
    and good: "good_set n (sets ! k)"
    unfolding subset_dfa_def by (blast, simp)
  from assms(1) Cons.prems obtain T0 T1 where
    m0: "move_set n (sets ! k) (CHR ''0'') = Some T0" "in_range (t0 (states dfa ! k)) sets"
      "sets ! nat (t0 (states dfa ! k)) = T0"
    and m1: "move_set n (sets ! k) (CHR ''1'') = Some T1" "in_range (t1 (states dfa ! k)) sets"
      "sets ! nat (t1 (states dfa ! k)) = T1"
    unfolding subset_dfa_def by blast
  have rng: "in_range (int k) (states dfa)" using Cons.prems len by (simp add: in_range_def)
  have rhs: "(\<exists>s \<in> set (sets ! k). accepts_from_state n s (c # w)) \<longleftrightarrow>
               c \<noteq> EPS \<and> (\<exists>s \<in> set (sets ! k). \<exists>v. edge (nstates n) s c v \<and>
                              accepts_from_state n v w)"
    by (auto simp: accepts_from_state_Cons plain01_no_eps[OF assms(2)])
  have step: "accepts_from dfa t w \<longleftrightarrow>
                (\<exists>s \<in> set (sets ! k). \<exists>v. edge (nstates n) s b v \<and> accepts_from_state n v w)"
    if mv: "move_set n (sets ! k) b = Some T" and t: "in_range t sets" "sets ! nat t = T"
    for b T t
  proof -
    have nt: "nat t < length sets" "int (nat t) = t" using in_range_nat[OF t(1)] by simp_all
    have "accepts_from dfa t w \<longleftrightarrow> (\<exists>s' \<in> set T. accepts_from_state n s' w)"
      using Cons.IH[OF nt(1)] nt(2) t(2) by simp
    also have "\<dots> \<longleftrightarrow>
        (\<exists>s \<in> set (sets ! k). \<exists>v. edge (nstates n) s b v \<and> accepts_from_state n v w)"
      unfolding move_set_props(1)[OF mv] using good by (auto simp: edge_def good_set_def)
    finally show ?thesis .
  qed
  have eps: "EPS \<noteq> CHR ''0''" "EPS \<noteq> CHR ''1''" by (simp_all add: EPS_def)
  consider "c = CHR ''0''" | "c = CHR ''1''" | "c \<noteq> CHR ''0''" "c \<noteq> CHR ''1''" by blast
  then show ?case
  proof cases
    case 1
    have "next_state dfa (int k) c = t0 (states dfa ! k)" using rng 1 by (simp add: next_state_def)
    then show ?thesis
      unfolding accepts_from_Cons rhs using step[OF m0] 1 eps by simp
  next
    case 2
    have "next_state dfa (int k) c = t1 (states dfa ! k)" using rng 2 by (simp add: next_state_def)
    then show ?thesis
      unfolding accepts_from_Cons rhs using step[OF m1] 2 eps by simp
  next
    case 3
    have "next_state dfa (int k) c = -1" using rng 3 by (simp add: next_state_def)
    moreover have "\<not> accepts_from dfa (-1) w"
      by (rule accepts_from_dead) (simp add: in_range_def)
    moreover have "\<not> edge (nstates n) s c v" for s v
      using assms(2) 3 by (auto simp: plain01_def)
    ultimately show ?thesis unfolding accepts_from_Cons rhs by simp
  qed
qed

lemma dead_state:
  assumes "in_range t (states d)" "\<not> accept (states d ! nat t)"
    "t0 (states d ! nat t) = t" "t1 (states d ! nat t) = t"
  shows "\<not> accepts_from d t w"
proof (induction w)
  case Nil
  then show ?case using assms(2) by (simp add: accepts_from_Nil)
next
  case (Cons c w)
  have "next_state d t c = t \<or> next_state d t c = -1"
    using assms by (simp add: next_state_def)
  moreover have "\<not> accepts_from d (-1) w"
    by (rule accepts_from_dead) (simp add: in_range_def)
  ultimately show ?case using Cons by (auto simp: accepts_from_Cons)
qed

lemma convert_lang:
  assumes "wf_nfa n" "plain01 n" "nstart n < length (nstates n)"
  shows "\<exists>dfa. convert n = Some dfa \<and> wf_dfa dfa \<and>
           (\<forall>w. \<not> accepts_from dfa (trap dfa) w) \<and>
           (\<forall>w. dfa_accepts dfa w \<longleftrightarrow> nfa_accepts n w)"
proof -
  from convert_props[OF assms(1,3)] obtain dfa sets where
    c: "convert_sets n = Some (dfa, sets)" and s: "subset_dfa n dfa sets" by blast
  have cv: "convert n = Some dfa" using c by (simp add: convert_def)
  have wf: "wf_dfa dfa" by (rule subset_dfa_wf[OF s])
  have "in_range (trap dfa) (states dfa)" using wf by (simp add: wf_dfa_def)
  from dead_state[OF this subset_dfa_trap[OF s]]
  have dead: "\<forall>w. \<not> accepts_from dfa (trap dfa) w" by blast
  have st: "start dfa = 0" "0 < length sets" "sets ! 0 = [nstart n]"
    using s by (simp_all add: subset_dfa_def)
  have "dfa_accepts dfa w \<longleftrightarrow> nfa_accepts n w" for w
    using subset_dfa_lang[OF s assms(2) st(2), of w] st(1,3)
    by (simp add: dfa_accepts_def nfa_accepts_def)
  then show ?thesis using cv wf dead by blast
qed

subsection \<open>minimize and remove\_trap keep the language\<close>

lemma minimize_lang:
  assumes "wf_dfa d" "\<forall>w. \<not> accepts_from d (trap d) w"
  shows "\<exists>m. minimize d = Some m \<and> in_range (trap m) (states m) \<and>
           (\<forall>w. \<not> accepts_from m (trap m) w) \<and>
           (\<forall>w. dfa_accepts m w \<longleftrightarrow> dfa_accepts d w)"
proof -
  from minimize_spec[OF assms(1)] obtain q m where
    m: "minimize d = Some m" and quo: "quotient_of d q m" by blast
  have tot: "total_dfa d" and st: "in_range (start d) (states d)"
    and tr: "in_range (trap d) (states d)"
    using assms(1) by (simp_all add: wf_dfa_def)
  have ns: "nat (start d) < length (states d)" "int (nat (start d)) = start d"
    using in_range_nat[OF st] by simp_all
  have nt: "nat (trap d) < length (states d)" "int (nat (trap d)) = trap d"
    using in_range_nat[OF tr] by simp_all
  have sm: "start m = q ! nat (start d)" and tm: "trap m = q ! nat (trap d)"
    using quo by (simp_all add: quotient_of_def)
  have a: "accepts_from m (trap m) w = accepts_from d (trap d) w" for w
    using quotient_accepts_from[OF quo tot, of "nat (trap d)" w] nt tm by simp
  have b: "dfa_accepts m w = dfa_accepts d w" for w
    using quotient_accepts_from[OF quo tot, of "nat (start d)" w] ns sm
    by (simp add: dfa_accepts_def)
  have "in_range (trap m) (states m)"
    using quotient_props(2)[OF quo, of "nat (trap d)"] nt tm by simp
  then show ?thesis using m a b assms(2) by blast
qed

lemma remove_trap_accepts_from:
  assumes "in_range (trap d) (states d)" "\<forall>w. \<not> accepts_from d (trap d) w"
  shows "accepts_from (remove_trap d) q w = accepts_from d q w"
proof (induction w arbitrary: q)
  case Nil
  show ?case
  proof (cases "in_range q (states d)")
    case False
    then show ?thesis by (auto simp: accepts_from_Nil in_range_def)
  next
    case True
    have nq: "nat q < length (states d)" "int (nat q) = q"
      using in_range_nat[OF True] by simp_all
    have t: "trap d \<noteq> -1" using assms(1) by (auto simp: in_range_def)
    show ?thesis
    proof (cases "q = trap d")
      case True
      have "\<not> accepts_from d q []" using assms(2) True by blast
      moreover have "\<not> accept (states (remove_trap d) ! nat q)"
        using remove_trap_nth_trap[OF t nq(1)] nq(2) True by simp
      ultimately show ?thesis by (simp add: accepts_from_Nil)
    next
      case False
      have "states (remove_trap d) ! nat q = retarget (trap d) (states d ! nat q)"
        using remove_trap_nth_other[OF t nq(1)] nq(2) False by simp
      then show ?thesis by (simp add: accepts_from_Nil in_range_def retarget_def)
    qed
  qed
next
  case (Cons c w)
  have dead: "\<not> accepts_from d' (-1) w" for d'
    by (rule accepts_from_dead) (simp add: in_range_def)
  show ?case
  proof (cases "in_range q (states d)")
    case False
    then have "\<not> in_range q (states (remove_trap d))" by (simp add: in_range_def)
    then show ?thesis using False accepts_from_dead by blast
  next
    case True
    have nq: "nat q < length (states d)" "int (nat q) = q"
      using in_range_nat[OF True] by simp_all
    have r': "in_range q (states (remove_trap d))" using True by (simp add: in_range_def)
    have t: "trap d \<noteq> -1" using assms(1) by (auto simp: in_range_def)
    show ?thesis
    proof (cases "q = trap d")
      case True
      have "states (remove_trap d) ! nat q =
              (states d ! nat q)\<lparr>accept := False, t0 := -1, t1 := -1\<rparr>"
        using remove_trap_nth_trap[OF t nq(1)] nq(2) True by simp
      then have "next_state (remove_trap d) q c = -1" using r' by (simp add: next_state_def)
      then have "\<not> accepts_from (remove_trap d) q (c # w)"
        using dead by (simp add: accepts_from_Cons)
      moreover have "\<not> accepts_from d q (c # w)" using assms(2) True by blast
      ultimately show ?thesis by simp
    next
      case False
      have e: "states (remove_trap d) ! nat q = retarget (trap d) (states d ! nat q)"
        using remove_trap_nth_other[OF t nq(1)] nq(2) False by simp
      have "next_state (remove_trap d) q c =
              (if next_state d q c = trap d then -1 else next_state d q c)"
        using r' True e t by (simp add: next_state_def retarget_def)
      then show ?thesis using dead assms(2) Cons.IH by (simp add: accepts_from_Cons)
    qed
  qed
qed

section \<open>The pipeline of main\<close>

text \<open>
  The steps 2 to 6 of \<open>main\<close>: Thompson, \<open>EpsilonRemover\<close>, \<open>SubsetConstruction\<close>,
  \<open>DFAMinimizer\<close> and \<open>TrapRemover\<close>, from the tree that the parser returns.
\<close>

definition pipeline :: "RegexNode \<Rightarrow> DFA option" where
  "pipeline root =
     (case build root of
        None \<Rightarrow> None
      | Some enfa \<Rightarrow>
         (case remove enfa of
            None \<Rightarrow> None
          | Some nfa \<Rightarrow>
             (case convert nfa of
                None \<Rightarrow> None
              | Some dfa \<Rightarrow>
                 (case minimize dfa of
                    None \<Rightarrow> None
                  | Some mdfa \<Rightarrow> Some (remove_trap mdfa)))))"

lemma pipeline_lang:
  assumes "wf_tree r"
  shows "\<exists>d. pipeline r = Some d \<and> (\<forall>w. dfa_accepts d w \<longleftrightarrow> w \<in> lang r)"
proof -
  from build_correct[OF assms] obtain enfa where
    e: "build r = Some enfa" "wf_nfa enfa" "nstart enfa < length (nstates enfa)" "binary enfa"
       "\<forall>w. nfa_accepts enfa w \<longleftrightarrow> w \<in> lang r" by blast
  from remove_lang[OF e(2,4,3)] obtain nfa where
    n: "remove enfa = Some nfa" "wf_nfa nfa" "plain01 nfa" "nstart nfa < length (nstates nfa)"
       "\<forall>w. nfa_accepts nfa w \<longleftrightarrow> nfa_accepts enfa w" by blast
  from convert_lang[OF n(2,3,4)] obtain dfa where
    d: "convert nfa = Some dfa" "wf_dfa dfa" "\<forall>w. \<not> accepts_from dfa (trap dfa) w"
       "\<forall>w. dfa_accepts dfa w \<longleftrightarrow> nfa_accepts nfa w" by blast
  from minimize_lang[OF d(2,3)] obtain m where
    m: "minimize dfa = Some m" "in_range (trap m) (states m)"
       "\<forall>w. \<not> accepts_from m (trap m) w" "\<forall>w. dfa_accepts m w \<longleftrightarrow> dfa_accepts dfa w" by blast
  have "dfa_accepts (remove_trap m) w \<longleftrightarrow> dfa_accepts m w" for w
    using remove_trap_accepts_from[OF m(2,3), of "start m" w] by (simp add: dfa_accepts_def)
  then have "\<forall>w. dfa_accepts (remove_trap m) w \<longleftrightarrow> w \<in> lang r"
    using m(4) d(4) n(5) e(5) by simp
  moreover have "pipeline r = Some (remove_trap m)"
    using e(1) n(1) d(1) m(1) by (simp add: pipeline_def)
  ultimately show ?thesis by blast
qed

section \<open>RegexParser\<close>

text \<open>
  The parser reads \<open>str\<close> from the position \<open>pos\<close> on; the functions below take
  the rest of the input from \<open>pos\<close> and return the node with the rest of the
  input after it. On input such as \<open>a\<close> the loop of \<open>parseConcat\<close> runs forever
  (\<open>parseStar\<close> returns without moving \<open>pos\<close>), so the functions take fuel: \<open>None\<close>
  is a run that has not returned within the fuel.
\<close>

fun star_loop :: "RegexNode \<Rightarrow> string \<Rightarrow> RegexNode \<times> string" where
  "star_loop node [] = (node, [])"
| "star_loop node (c # rest) =
     (if c = CHR ''*'' then star_loop (STAR node) rest else (node, c # rest))"

function parseUnion :: "nat \<Rightarrow> string \<Rightarrow> (RegexNode \<times> string) option"
  and union_loop :: "nat \<Rightarrow> RegexNode \<Rightarrow> string \<Rightarrow> (RegexNode \<times> string) option"
  and parseConcat :: "nat \<Rightarrow> string \<Rightarrow> (RegexNode \<times> string) option"
  and concat_loop :: "nat \<Rightarrow> RegexNode \<Rightarrow> string \<Rightarrow> (RegexNode \<times> string) option"
  and parseStar :: "nat \<Rightarrow> string \<Rightarrow> (RegexNode \<times> string) option"
  and parseBase :: "nat \<Rightarrow> string \<Rightarrow> (RegexNode \<times> string) option" where
  "parseUnion k inp =
     (case parseConcat k inp of
        None \<Rightarrow> None
      | Some (node, rest) \<Rightarrow> union_loop k node rest)"
| "union_loop 0 node inp = None"
| "union_loop (Suc k) node inp =
     (if inp \<noteq> [] \<and> hd inp = CHR ''+''
      then (case parseConcat k (tl inp) of
              None \<Rightarrow> None
            | Some (right, rest) \<Rightarrow> union_loop k (UNION node right) rest)
      else Some (node, inp))"
| "parseConcat k inp =
     (case parseStar k inp of
        None \<Rightarrow> None
      | Some (node, rest) \<Rightarrow> concat_loop k node rest)"
| "concat_loop 0 node inp = None"
| "concat_loop (Suc k) node inp =
     (if inp \<noteq> [] \<and> hd inp \<noteq> CHR '')'' \<and> hd inp \<noteq> CHR ''+''
      then (case parseStar k inp of
              None \<Rightarrow> None
            | Some (right, rest) \<Rightarrow> concat_loop k (CONCAT node right) rest)
      else Some (node, inp))"
| "parseStar k inp =
     (case parseBase k inp of
        None \<Rightarrow> None
      | Some (node, rest) \<Rightarrow> Some (star_loop node rest))"
| "parseBase 0 inp = None"
| "parseBase (Suc k) inp =
     (if inp = [] then Some (Null, [])
      else if hd inp = CHR ''(''
      then (case parseUnion k (tl inp) of
              None \<Rightarrow> None
            | Some (node, rest) \<Rightarrow>
                Some (node, if rest \<noteq> [] \<and> hd rest = CHR '')'' then tl rest else rest))
      else if hd inp = CHR ''0'' \<or> hd inp = CHR ''1''
      then Some (CHAR_node (hd inp), tl inp)
      else Some (Null, inp))"
  by pat_completeness auto
termination
  by (relation "measure (case_sum
                 (case_sum (\<lambda>(k, inp). 4 * k + 3)
                    (case_sum (\<lambda>(k, node, inp). 4 * k + 2) (\<lambda>(k, inp). 4 * k + 2)))
                 (case_sum (\<lambda>(k, node, inp). 4 * k + 1)
                    (case_sum (\<lambda>(k, inp). 4 * k + 1) (\<lambda>(k, inp). 4 * k))))") auto

declare parseUnion.simps [simp del] parseConcat.simps [simp del] parseStar.simps [simp del]

definition parse :: "nat \<Rightarrow> string \<Rightarrow> RegexNode option" where
  "parse k re = map_option fst (parseUnion k re)"

subsection \<open>Well-formed regular expressions\<close>

text \<open>
  The regular expressions over 0, 1, \<open>+\<close>, \<open>*\<close> and parentheses, with the tree that
  each one denotes: a union of concatenations of starred items, an item being
  0, 1 or a parenthesised expression.
\<close>

inductive re_union :: "string \<Rightarrow> RegexNode \<Rightarrow> bool"
  and re_concat :: "string \<Rightarrow> RegexNode \<Rightarrow> bool"
  and re_star :: "string \<Rightarrow> RegexNode \<Rightarrow> bool"
  and re_base :: "string \<Rightarrow> RegexNode \<Rightarrow> bool" where
  union_one: "re_concat s r \<Longrightarrow> re_union s r"
| union_more: "re_union s1 r1 \<Longrightarrow> re_concat s2 r2 \<Longrightarrow>
               re_union (s1 @ CHR ''+'' # s2) (UNION r1 r2)"
| concat_one: "re_star s r \<Longrightarrow> re_concat s r"
| concat_more: "re_concat s1 r1 \<Longrightarrow> re_star s2 r2 \<Longrightarrow> re_concat (s1 @ s2) (CONCAT r1 r2)"
| star_none: "re_base s r \<Longrightarrow> re_star s r"
| star_more: "re_star s r \<Longrightarrow> re_star (s @ [CHR ''*'']) (STAR r)"
| base_zero: "re_base [CHR ''0''] (CHAR_node (CHR ''0''))"
| base_one: "re_base [CHR ''1''] (CHAR_node (CHR ''1''))"
| base_paren: "re_union s r \<Longrightarrow> re_base (CHR ''('' # s @ [CHR '')'']) r"

subsection \<open>The parser returns the tree of a well-formed expression\<close>

text \<open>\<open>returns f r\<close>: with enough fuel the run \<open>f\<close> returns \<open>r\<close>.\<close>

definition returns :: "(nat \<Rightarrow> 'a option) \<Rightarrow> 'a \<Rightarrow> bool" where
  "returns f r = (\<exists>k0. \<forall>k \<ge> k0. f k = Some r)"

lemma returnsI: "(\<And>k. k0 \<le> k \<Longrightarrow> f k = Some r) \<Longrightarrow> returns f r"
  unfolding returns_def by blast

lemma returns_two:
  assumes "returns f a" "returns g b"
  obtains k0 where "\<And>k. k0 \<le> k \<Longrightarrow> f k = Some a" "\<And>k. k0 \<le> k \<Longrightarrow> g k = Some b"
proof -
  from assms obtain k1 k2 where
    k: "\<forall>k \<ge> k1. f k = Some a" "\<forall>k \<ge> k2. g k = Some b" unfolding returns_def by blast
  show ?thesis by (rule that[of "max k1 k2"]) (use k in auto)
qed

definition starts :: "string \<Rightarrow> bool" where
  "starts s = (s \<noteq> [] \<and> (hd s = CHR ''0'' \<or> hd s = CHR ''1'' \<or> hd s = CHR ''(''))"

definition follow :: "string \<Rightarrow> bool" where
  "follow R = (R = [] \<or> hd R = CHR '')'' \<or> hd R = CHR ''+'')"

definition nostar :: "string \<Rightarrow> bool" where
  "nostar R = (R = [] \<or> hd R \<noteq> CHR ''*'')"

lemma follow_nostar: "follow R \<Longrightarrow> nostar R"
  by (auto simp: follow_def nostar_def)

lemma starts_append: "starts s \<Longrightarrow> starts (s @ t)"
  by (auto simp: starts_def)

lemma starts_nostar: "starts s \<Longrightarrow> nostar (s @ R)"
  by (auto simp: starts_def nostar_def)

lemma star_loop_nostar: "nostar R \<Longrightarrow> star_loop r R = (r, R)"
  by (cases R) (auto simp: nostar_def)

lemma parseUnion_returns:
  assumes "returns (\<lambda>k. parseConcat k inp) (node, rest)"
    "returns (\<lambda>k. union_loop k node rest) res"
  shows "returns (\<lambda>k. parseUnion k inp) res"
proof -
  from returns_two[OF assms] obtain k0 where
    k: "\<And>k. k0 \<le> k \<Longrightarrow> parseConcat k inp = Some (node, rest)"
       "\<And>k. k0 \<le> k \<Longrightarrow> union_loop k node rest = Some res" by blast
  show ?thesis by (rule returnsI[of k0]) (simp add: k parseUnion.simps)
qed

lemma parseConcat_returns:
  assumes "returns (\<lambda>k. parseStar k inp) (node, rest)"
    "returns (\<lambda>k. concat_loop k node rest) res"
  shows "returns (\<lambda>k. parseConcat k inp) res"
proof -
  from returns_two[OF assms] obtain k0 where
    k: "\<And>k. k0 \<le> k \<Longrightarrow> parseStar k inp = Some (node, rest)"
       "\<And>k. k0 \<le> k \<Longrightarrow> concat_loop k node rest = Some res" by blast
  show ?thesis by (rule returnsI[of k0]) (simp add: k parseConcat.simps)
qed

lemma parseStar_returns:
  assumes "returns (\<lambda>k. parseBase k inp) (node, rest)"
  shows "returns (\<lambda>k. parseStar k inp) (star_loop node rest)"
proof -
  from assms obtain k0 where k: "\<forall>k \<ge> k0. parseBase k inp = Some (node, rest)"
    unfolding returns_def by blast
  show ?thesis by (rule returnsI[of k0]) (simp add: k parseStar.simps)
qed

lemma union_loop_stop:
  assumes "inp = [] \<or> hd inp \<noteq> CHR ''+''"
  shows "returns (\<lambda>k. union_loop k node inp) (node, inp)"
proof (rule returnsI[of 1])
  fix k :: nat assume "1 \<le> k"
  then obtain j where "k = Suc j" by (cases k) auto
  then show "union_loop k node inp = Some (node, inp)" using assms by auto
qed

lemma union_loop_step:
  assumes "returns (\<lambda>k. parseConcat k inp) (right, rest)"
    "returns (\<lambda>k. union_loop k (UNION node right) rest) res"
  shows "returns (\<lambda>k. union_loop k node (CHR ''+'' # inp)) res"
proof -
  from returns_two[OF assms] obtain k0 where
    k: "\<And>k. k0 \<le> k \<Longrightarrow> parseConcat k inp = Some (right, rest)"
       "\<And>k. k0 \<le> k \<Longrightarrow> union_loop k (UNION node right) rest = Some res" by blast
  show ?thesis
  proof (rule returnsI[of "Suc k0"])
    fix k assume "Suc k0 \<le> k"
    then obtain j where j: "k = Suc j" "k0 \<le> j" by (cases k) auto
    then show "union_loop k node (CHR ''+'' # inp) = Some res" using k by simp
  qed
qed

lemma concat_loop_stop:
  assumes "follow inp"
  shows "returns (\<lambda>k. concat_loop k node inp) (node, inp)"
proof (rule returnsI[of 1])
  fix k :: nat assume "1 \<le> k"
  then obtain j where "k = Suc j" by (cases k) auto
  then show "concat_loop k node inp = Some (node, inp)" using assms by (auto simp: follow_def)
qed

lemma concat_loop_step:
  assumes "starts inp" "returns (\<lambda>k. parseStar k inp) (right, rest)"
    "returns (\<lambda>k. concat_loop k (CONCAT node right) rest) res"
  shows "returns (\<lambda>k. concat_loop k node inp) res"
proof -
  from returns_two[OF assms(2,3)] obtain k0 where
    k: "\<And>k. k0 \<le> k \<Longrightarrow> parseStar k inp = Some (right, rest)"
       "\<And>k. k0 \<le> k \<Longrightarrow> concat_loop k (CONCAT node right) rest = Some res" by blast
  have c: "inp \<noteq> [] \<and> hd inp \<noteq> CHR '')'' \<and> hd inp \<noteq> CHR ''+''"
    using assms(1) by (auto simp: starts_def)
  show ?thesis
  proof (rule returnsI[of "Suc k0"])
    fix k assume "Suc k0 \<le> k"
    then obtain j where j: "k = Suc j" "k0 \<le> j" by (cases k) auto
    then show "concat_loop k node inp = Some res" using k c by simp
  qed
qed

lemma parseBase_char:
  assumes "c = CHR ''0'' \<or> c = CHR ''1''"
  shows "returns (\<lambda>k. parseBase k (c # R)) (CHAR_node c, R)"
proof (rule returnsI[of 1])
  fix k :: nat assume "1 \<le> k"
  then obtain j where "k = Suc j" by (cases k) auto
  then show "parseBase k (c # R) = Some (CHAR_node c, R)" using assms by auto
qed

lemma parseBase_paren:
  assumes "returns (\<lambda>k. parseUnion k inp) (node, CHR '')'' # R)"
  shows "returns (\<lambda>k. parseBase k (CHR ''('' # inp)) (node, R)"
proof -
  from assms obtain k0 where k: "\<forall>k \<ge> k0. parseUnion k inp = Some (node, CHR '')'' # R)"
    unfolding returns_def by blast
  show ?thesis
  proof (rule returnsI[of "Suc k0"])
    fix k assume "Suc k0 \<le> k"
    then obtain j where j: "k = Suc j" "k0 \<le> j" by (cases k) auto
    then show "parseBase k (CHR ''('' # inp) = Some (node, R)" using k by simp
  qed
qed

text \<open>
  What the parser does on a well-formed expression followed by any input \<open>R\<close>:
  \<open>parseBase\<close> returns its tree and \<open>R\<close>; \<open>parseStar\<close> goes on with the stars at
  the head of \<open>R\<close>; \<open>parseConcat\<close> and \<open>parseUnion\<close> go on with their loops on \<open>R\<close>.
\<close>

definition union_ok :: "string \<Rightarrow> RegexNode \<Rightarrow> bool" where
  "union_ok s r =
     (wf_tree r \<and> starts s \<and>
      (\<forall>R res. follow R \<longrightarrow> returns (\<lambda>k. union_loop k r R) res \<longrightarrow>
                returns (\<lambda>k. parseUnion k (s @ R)) res))"

definition concat_ok :: "string \<Rightarrow> RegexNode \<Rightarrow> bool" where
  "concat_ok s r =
     (wf_tree r \<and> starts s \<and>
      (\<forall>R res. nostar R \<longrightarrow> returns (\<lambda>k. concat_loop k r R) res \<longrightarrow>
                returns (\<lambda>k. parseConcat k (s @ R)) res))"

definition star_ok :: "string \<Rightarrow> RegexNode \<Rightarrow> bool" where
  "star_ok s r =
     (wf_tree r \<and> starts s \<and> (\<forall>R. returns (\<lambda>k. parseStar k (s @ R)) (star_loop r R)))"

definition base_ok :: "string \<Rightarrow> RegexNode \<Rightarrow> bool" where
  "base_ok s r =
     (wf_tree r \<and> starts s \<and> (\<forall>R. returns (\<lambda>k. parseBase k (s @ R)) (r, R)))"

lemma concat_ok_follow:
  assumes "concat_ok s r" "follow R"
  shows "returns (\<lambda>k. parseConcat k (s @ R)) (r, R)"
  using assms concat_loop_stop[OF assms(2), of r] follow_nostar[OF assms(2)]
  unfolding concat_ok_def by blast

lemma star_ok_nostar:
  assumes "star_ok s r" "nostar R"
  shows "returns (\<lambda>k. parseStar k (s @ R)) (r, R)"
  using assms star_loop_nostar[OF assms(2), of r] unfolding star_ok_def by metis

lemma parser_ok:
  "(re_union s r \<longrightarrow> union_ok s r) \<and> (re_concat s r \<longrightarrow> concat_ok s r) \<and>
   (re_star s r \<longrightarrow> star_ok s r) \<and> (re_base s r \<longrightarrow> base_ok s r)"
proof -
  have "(re_union s r \<longrightarrow> union_ok s r) \<and> (re_concat s' r' \<longrightarrow> concat_ok s' r') \<and>
        (re_star s'' r'' \<longrightarrow> star_ok s'' r'') \<and> (re_base s''' r''' \<longrightarrow> base_ok s''' r''')"
    for s' r' s'' r'' s''' r'''
  proof (induction rule: re_union_re_concat_re_star_re_base.induct)
    case (union_one s r)
    show ?case unfolding union_ok_def
    proof (intro conjI allI impI)
      show "wf_tree r" "starts s" using union_one by (simp_all add: concat_ok_def)
      fix R res assume R: "follow R" "returns (\<lambda>k. union_loop k r R) res"
      show "returns (\<lambda>k. parseUnion k (s @ R)) res"
        by (rule parseUnion_returns[OF concat_ok_follow[OF union_one.IH R(1)] R(2)])
    qed
  next
    case (union_more s1 r1 s2 r2)
    show ?case unfolding union_ok_def
    proof (intro conjI allI impI)
      show "wf_tree (UNION r1 r2)" "starts (s1 @ CHR ''+'' # s2)"
        using union_more.IH by (simp_all add: union_ok_def concat_ok_def starts_append)
      fix R res assume R: "follow R" "returns (\<lambda>k. union_loop k (UNION r1 r2) R) res"
      have f: "follow (CHR ''+'' # s2 @ R)" by (simp add: follow_def)
      have "returns (\<lambda>k. union_loop k r1 (CHR ''+'' # s2 @ R)) res"
        by (rule union_loop_step[OF concat_ok_follow[OF union_more.IH(2) R(1)] R(2)])
      then have "returns (\<lambda>k. parseUnion k (s1 @ (CHR ''+'' # s2 @ R))) res"
        using union_more.IH(1) f unfolding union_ok_def by blast
      then show "returns (\<lambda>k. parseUnion k ((s1 @ CHR ''+'' # s2) @ R)) res" by simp
    qed
  next
    case (concat_one s r)
    show ?case unfolding concat_ok_def
    proof (intro conjI allI impI)
      show "wf_tree r" "starts s" using concat_one by (simp_all add: star_ok_def)
      fix R res assume R: "nostar R" "returns (\<lambda>k. concat_loop k r R) res"
      show "returns (\<lambda>k. parseConcat k (s @ R)) res"
        by (rule parseConcat_returns[OF star_ok_nostar[OF concat_one.IH R(1)] R(2)])
    qed
  next
    case (concat_more s1 r1 s2 r2)
    show ?case unfolding concat_ok_def
    proof (intro conjI allI impI)
      show "wf_tree (CONCAT r1 r2)" "starts (s1 @ s2)"
        using concat_more.IH by (simp_all add: concat_ok_def star_ok_def starts_append)
      fix R res assume R: "nostar R" "returns (\<lambda>k. concat_loop k (CONCAT r1 r2) R) res"
      have s2: "starts s2" using concat_more.IH(2) by (simp add: star_ok_def)
      have "returns (\<lambda>k. concat_loop k r1 (s2 @ R)) res"
        by (rule concat_loop_step[OF starts_append[OF s2]
              star_ok_nostar[OF concat_more.IH(2) R(1)] R(2)])
      then have "returns (\<lambda>k. parseConcat k (s1 @ (s2 @ R))) res"
        using concat_more.IH(1) starts_nostar[OF s2, of R] unfolding concat_ok_def by blast
      then show "returns (\<lambda>k. parseConcat k ((s1 @ s2) @ R)) res" by simp
    qed
  next
    case (star_none s r)
    show ?case unfolding star_ok_def
    proof (intro conjI allI)
      show "wf_tree r" "starts s" using star_none by (simp_all add: base_ok_def)
      fix R
      have "returns (\<lambda>k. parseBase k (s @ R)) (r, R)"
        using star_none.IH by (simp add: base_ok_def)
      then show "returns (\<lambda>k. parseStar k (s @ R)) (star_loop r R)"
        by (rule parseStar_returns)
    qed
  next
    case (star_more s r)
    show ?case unfolding star_ok_def
    proof (intro conjI allI)
      show "wf_tree (STAR r)" "starts (s @ [CHR ''*''])"
        using star_more.IH by (simp_all add: star_ok_def starts_append)
      fix R
      have "returns (\<lambda>k. parseStar k (s @ (CHR ''*'' # R))) (star_loop r (CHR ''*'' # R))"
        using star_more.IH unfolding star_ok_def by blast
      then show "returns (\<lambda>k. parseStar k ((s @ [CHR ''*'']) @ R)) (star_loop (STAR r) R)"
        by simp
    qed
  next
    case base_zero
    show ?case unfolding base_ok_def
      using parseBase_char[of "CHR ''0''"] by (simp add: starts_def)
  next
    case base_one
    show ?case unfolding base_ok_def
      using parseBase_char[of "CHR ''1''"] by (simp add: starts_def)
  next
    case (base_paren s r)
    show ?case unfolding base_ok_def
    proof (intro conjI allI)
      show "wf_tree r" "starts (CHR ''('' # s @ [CHR '')''])"
        using base_paren.IH by (simp_all add: union_ok_def starts_def)
      fix R
      have f: "follow (CHR '')'' # R)" by (simp add: follow_def)
      have "returns (\<lambda>k. union_loop k r (CHR '')'' # R)) (r, CHR '')'' # R)"
        by (rule union_loop_stop) simp
      then have "returns (\<lambda>k. parseUnion k (s @ CHR '')'' # R)) (r, CHR '')'' # R)"
        using base_paren.IH f unfolding union_ok_def by blast
      from parseBase_paren[OF this]
      show "returns (\<lambda>k. parseBase k ((CHR ''('' # s @ [CHR '')'']) @ R)) (r, R)" by simp
    qed
  qed
  then show ?thesis by blast
qed

lemma parse_correct:
  assumes "re_union s r"
  shows "wf_tree r" "returns (\<lambda>k. parse k s) r"
proof -
  have ok: "union_ok s r" using parser_ok[of s r] assms by blast
  then show "wf_tree r" by (simp add: union_ok_def)
  have "returns (\<lambda>k. union_loop k r []) (r, [])" by (rule union_loop_stop) simp
  then have "returns (\<lambda>k. parseUnion k (s @ [])) (r, [])"
    using ok unfolding union_ok_def follow_def by blast
  then obtain k0 where "\<forall>k \<ge> k0. parseUnion k s = Some (r, [])"
    unfolding returns_def by auto
  then show "returns (\<lambda>k. parse k s) r"
    by (intro returnsI[of k0]) (simp add: parse_def)
qed

section \<open>main\<close>

text \<open>
  The steps 1 to 6 of \<open>main\<close> on the expression read from the input: the parser,
  then the pipeline on the tree that it returns.
\<close>

definition compile :: "nat \<Rightarrow> string \<Rightarrow> DFA option" where
  "compile k re = (case parse k re of None \<Rightarrow> None | Some root \<Rightarrow> pipeline root)"

lemma compile_returns:
  assumes "re_union re r"
  shows "\<exists>d. returns (\<lambda>k. compile k re) d \<and> pipeline r = Some d"
proof -
  from pipeline_lang[OF parse_correct(1)[OF assms]] obtain d where
    d: "pipeline r = Some d" by blast
  from parse_correct(2)[OF assms] obtain k0 where k: "\<forall>k \<ge> k0. parse k re = Some r"
    unfolding returns_def by blast
  have "returns (\<lambda>k. compile k re) d"
    by (rule returnsI[of k0]) (simp add: compile_def k d)
  then show ?thesis using d by blast
qed

text \<open>
  Claim C1. For every well-formed regular expression \<open>re\<close> over 0, 1, \<open>+\<close>, \<open>*\<close> and
  parentheses, denoting the tree \<open>r\<close>, the run of the parser and of the pipeline
  (Thompson construction, elimination of the silent transitions, subset
  construction, minimization, removal of the trap) returns an automaton that
  accepts a string \<open>w\<close> (the run from the start state along \<open>t0\<close> and \<open>t1\<close>, where
  -1 rejects, ends in an accepting state) if and only if \<open>w\<close> is in the language
  of \<open>r\<close>. This holds for the strings of every length.
\<close>

theorem pipeline_accepts_language:
  assumes "re_union re r"
  shows "\<exists>d. returns (\<lambda>k. compile k re) d \<and> (\<forall>w. dfa_accepts d w \<longleftrightarrow> w \<in> lang r)"
proof -
  from compile_returns[OF assms] obtain d where
    d: "returns (\<lambda>k. compile k re) d" "pipeline r = Some d" by blast
  from pipeline_lang[OF parse_correct(1)[OF assms]] d(2)
  have "\<forall>w. dfa_accepts d w \<longleftrightarrow> w \<in> lang r" by auto
  then show ?thesis using d(1) by blast
qed

theorem pipeline_accepts_language_witness:
  "re_union ''0*'' (STAR (CHAR_node (CHR ''0''))) \<and>
   (\<exists>d. returns (\<lambda>k. compile k ''0*'') d \<and>
        (dfa_accepts d ''00'' \<longleftrightarrow> ''00'' \<in> lang (STAR (CHAR_node (CHR ''0'')))))"
proof -
  have "re_star ''0'' (CHAR_node (CHR ''0''))" by (intro star_none base_zero)
  from star_more[OF this] have "re_star ''0*'' (STAR (CHAR_node (CHR ''0'')))" by simp
  then have re: "re_union ''0*'' (STAR (CHAR_node (CHR ''0'')))"
    by (intro union_one concat_one)
  from pipeline_accepts_language[OF re] show ?thesis using re by blast
qed

section \<open>The states of the final automaton\<close>

subsection \<open>What the pipeline returns\<close>



subsection \<open>Runs and reachable states\<close>





subsection \<open>Residual languages\<close>













end
